(* ===== verification/GF_Prelude.thy ===== *)
theory GF_Prelude
  imports Main "HOL-Library.Word" "HOL-Library.Multiset"
begin

text \<open>
  Shared vocabulary of the development: machine types and errno values of the C sources,
  the intrusive-list idioms of libglusterfs/src/list.h (searching a list until the loop body
  stops, deleting the element found) as functions on HOL lists, the caller identity carried by
  a call frame, and the lemmas about them that every component uses.
\<close>

named_theorems lk_defs \<open>definitions of the locks translator\<close>
named_theorems dht_defs \<open>definitions of the distribution translator\<close>
named_theorems acl_defs \<open>definitions of the access-control translator\<close>

section \<open>Machine types\<close>

type_synonym addr = nat \<comment> \<open>a pointer; 0 is NULL\<close>
type_synonym u16 = "16 word"
type_synonym u32 = "32 word"
type_synonym i64 = "64 word"

abbreviation (input) NULL :: addr where "NULL \<equiv> 0"

text \<open>off_t is a signed 64-bit integer; arithmetic on it is computed in the integers and
  brought back into the range by \<open>off_wrap\<close>.\<close>

abbreviation (input) LLONG_MAX :: int where "LLONG_MAX \<equiv> 9223372036854775807"
abbreviation (input) LLONG_MIN :: int where "LLONG_MIN \<equiv> - 9223372036854775808"

definition off_wrap :: "int \<Rightarrow> int" where
  "off_wrap x = (x + 9223372036854775808) mod 18446744073709551616 - 9223372036854775808"

text \<open>errno values (Linux).\<close>

abbreviation (input) EPERM :: int where "EPERM \<equiv> 1"
abbreviation (input) ENOENT :: int where "ENOENT \<equiv> 2"
abbreviation (input) EAGAIN :: int where "EAGAIN \<equiv> 11"
abbreviation (input) ENOMEM :: int where "ENOMEM \<equiv> 12"
abbreviation (input) EACCES :: int where "EACCES \<equiv> 13"
abbreviation (input) EINVAL :: int where "EINVAL \<equiv> 22"
abbreviation (input) ENOSPC :: int where "ENOSPC \<equiv> 28"
abbreviation (input) EBADFD :: int where "EBADFD \<equiv> 77"
abbreviation (input) ENOTSUP :: int where "ENOTSUP \<equiv> 95"
abbreviation (input) ENOTCONN :: int where "ENOTCONN \<equiv> 107"
abbreviation (input) ESTALE :: int where "ESTALE \<equiv> 116"

section \<open>List idioms\<close>

text \<open>A \<open>list_for_each_entry\<close> loop whose body stops at the first element with \<open>P\<close>: the
  elements passed over, the element found and the rest.\<close>

fun list_split_first :: "('a \<Rightarrow> bool) \<Rightarrow> 'a list \<Rightarrow> ('a list \<times> 'a \<times> 'a list) option" where
  "list_split_first P [] = None"
| "list_split_first P (x # xs) =
     (if P x then Some ([], x, xs)
      else map_option (\<lambda>(ys, y, zs). (x # ys, y, zs)) (list_split_first P xs))"

text \<open>Unlinking the first element with \<open>P\<close> (\<open>list_del_init\<close> of the element a search found).\<close>

fun list_del_first :: "('a \<Rightarrow> bool) \<Rightarrow> 'a list \<Rightarrow> 'a list" where
  "list_del_first P [] = []"
| "list_del_first P (x # xs) = (if P x then xs else x # list_del_first P xs)"

definition list_add :: "'a \<Rightarrow> 'a list \<Rightarrow> 'a list" where
  "list_add x xs = x # xs"

definition list_add_tail :: "'a \<Rightarrow> 'a list \<Rightarrow> 'a list" where
  "list_add_tail x xs = xs @ [x]"

section \<open>Callers\<close>

text \<open>What the modelled translators read of a call frame's root
  (libglusterfs/src/stack.h, struct _call_stack_t): the request, the connection it came on,
  the process, the lock owner and the credentials.\<close>

type_synonym gf_lkowner = "8 word list"

record call_root =
  frame_id :: addr
  rt_client :: addr
  rt_pid :: int
  rt_lk_owner :: gf_lkowner
  rt_uid :: nat
  rt_gid :: nat
  rt_groups :: "nat list"

text \<open>libglusterfs/src/lkowner.h: equal lengths and memcmp of that many bytes.\<close>

definition is_same_lkowner :: "gf_lkowner \<Rightarrow> gf_lkowner \<Rightarrow> bool" where
  "is_same_lkowner l1 l2 \<longleftrightarrow>
     length l1 = length l2 \<and> (\<forall>(a, b) \<in> set (zip l1 l2). a = b)"

section \<open>Lemmas\<close>

lemma off_wrap_id [simp]: "LLONG_MIN \<le> x \<Longrightarrow> x \<le> LLONG_MAX \<Longrightarrow> off_wrap x = x"
  by (simp add: off_wrap_def)

lemma off_wrap_range: "LLONG_MIN \<le> off_wrap x \<and> off_wrap x \<le> LLONG_MAX"
proof -
  have "0 \<le> (x + 9223372036854775808) mod 18446744073709551616"
    "(x + 9223372036854775808) mod 18446744073709551616 < 18446744073709551616"
    by simp_all
  then show ?thesis unfolding off_wrap_def by linarith
qed

lemma is_same_lkowner_eq [simp]: "is_same_lkowner l1 l2 \<longleftrightarrow> l1 = l2"
  unfolding is_same_lkowner_def by (auto simp: list_eq_iff_zip_eq)

lemma list_split_first_SomeD:
  "list_split_first P xs = Some (ys, y, zs) \<Longrightarrow>
     xs = ys @ y # zs \<and> P y \<and> (\<forall>x \<in> set ys. \<not> P x)"
  by (induction xs arbitrary: ys) (auto split: if_splits)

lemma list_split_first_None_iff:
  "list_split_first P xs = None \<longleftrightarrow> (\<forall>x \<in> set xs. \<not> P x)"
  by (induction xs) auto

lemma list_del_first_id [simp]: "\<forall>x \<in> set xs. \<not> P x \<Longrightarrow> list_del_first P xs = xs"
  by (induction xs) auto

lemma set_list_del_first_subset: "set (list_del_first P xs) \<subseteq> set xs"
  by (induction xs) auto

lemma list_del_first_split:
  "find P xs = Some x \<Longrightarrow>
     \<exists>ys zs. xs = ys @ x # zs \<and> P x \<and> (\<forall>y \<in> set ys. \<not> P y) \<and> list_del_first P xs = ys @ zs"
proof (induction xs)
  case Nil
  then show ?case by simp
next
  case (Cons a xs)
  show ?case
  proof (cases "P a")
    case True
    with Cons.prems have "a = x" by simp
    with True show ?thesis by (intro exI [of _ "[]"] exI [of _ xs]) auto
  next
    case False
    with Cons.prems have "find P xs = Some x" by simp
    from Cons.IH [OF this] obtain ys zs where
      "xs = ys @ x # zs" "P x" "\<forall>y \<in> set ys. \<not> P y" "list_del_first P xs = ys @ zs"
      by blast
    with False show ?thesis by (intro exI [of _ "a # ys"] exI [of _ zs]) auto
  qed
qed

lemma length_list_del_first:
  "length (list_del_first P xs) = (if \<exists>x \<in> set xs. P x then length xs - 1 else length xs)"
  by (induction xs) (auto simp: Suc_diff_le dest: length_pos_if_in_set)

lemma find_SomeD: "find P xs = Some x \<Longrightarrow> x \<in> set xs \<and> P x"
  by (induction xs) (auto split: if_splits)

text \<open>Taking out the one element with a given key.\<close>

lemma mset_filter_key:
  "x \<in> set xs \<Longrightarrow> distinct (map f xs) \<Longrightarrow> mset (filter (\<lambda>y. f y \<noteq> f x) xs) + {#x#} = mset xs"
proof (induction xs)
  case (Cons y ys)
  show ?case
  proof (cases "y = x")
    case True
    then have "f z \<noteq> f x" if "z \<in> set ys" for z
      using that Cons.prems(2) by (metis distinct.simps(2) image_eqI list.set_map list.simps(9))
    then have "filter (\<lambda>y. f y \<noteq> f x) ys = ys" by (simp add: filter_id_conv)
    with True show ?thesis by simp
  next
    case False
    then show ?thesis using Cons by (auto simp: image_iff)
  qed
qed simp

lemma mset_le_sum_list: "x \<in> set xs \<Longrightarrow> f x \<subseteq># sum_list (map f xs)"
  by (induction xs) (auto intro: subset_mset.add_increasing)

text \<open>When a part of a total changes, the total changes by the same amounts.\<close>

lemma mset_balance:
  fixes s s' d d' w r :: "'a multiset"
  assumes "s' + d = s + d'" "d + w = d' + r"
  shows "s + w = s' + r"
proof (rule multiset_eqI)
  fix x
  have "count s' x + count d x = count s x + count d' x" "count d x + count w x = count d' x + count r x"
    using assms by (metis count_union)+
  then show "count (s + w) x = count (s' + r) x" by simp
qed

text \<open>Two words are equal when their low bits agree one by one and their high bits agree.\<close>

lemma word_eq_low_high:
  fixes a b :: "'a :: len word"
  assumes low: "list_all (\<lambda>n. bit a n = bit b n) (0 # Suc 0 # [2..<k])" and high: "\<And>n. k \<le> n \<Longrightarrow> bit a n = bit b n"
  shows "a = b"
proof (rule bit_word_eqI)
  fix n
  consider "n = 0" | "n = Suc 0" | "n \<in> set [2..<k]" | "k \<le> n" by fastforce
  then show "bit a n = bit b n" using low high by cases (auto simp: list_all_iff)
qed

end
