(* ===== verification/Locks_Types.thy ===== *)
theory Locks_Types
  imports GF_Prelude
begin

text \<open>
  The data of the locks translator (xlators/features/locks/src/locks.h): record locks taken
  with fcntl, inode locks and entry locks of a domain, blocked reads and writes, and the lock
  state kept for one inode.  Lock objects of the two domain-lock kinds carry an identity (the
  address of the C object), because the code moves one object between lists and counts
  references to it; record locks are values, since the code copies and frees them freely.
  Time stamps, log messages and the translator pointer are left out: no branch reads them.
\<close>

section \<open>fcntl locks\<close>

datatype lk_type = F_RDLCK | F_WRLCK | F_UNLCK

record gf_flock =
  l_type :: lk_type
  l_whence :: int
  l_start :: int
  l_len :: int
  l_pid :: int
  l_owner :: gf_lkowner

definition zero_flock :: gf_flock where
  "zero_flock = \<lparr>l_type = F_RDLCK, l_whence = 0, l_start = 0, l_len = 0, l_pid = 0, l_owner = []\<rparr>"

record posix_lock =
  fl_type :: lk_type
  fl_start :: int
  fl_end :: int
  blocked :: bool
  user_flock :: gf_flock
  fd_num :: nat
  lk_fd :: addr
  lk_frame :: addr
  client :: addr
  owner :: gf_lkowner
  client_pid :: int

text \<open>A freshly calloc-ed \<open>posix_lock_t\<close>: all fields zero.\<close>

definition zero_lock :: posix_lock where
  "zero_lock = \<lparr>fl_type = F_RDLCK, fl_start = 0, fl_end = 0, blocked = False,
     user_flock = zero_flock, fd_num = 0, lk_fd = NULL, lk_frame = NULL, client = NULL,
     owner = [], client_pid = 0\<rparr>"

section \<open>Blocked reads and writes\<close>

datatype rw_fop = GF_FOP_READ | GF_FOP_WRITE

record pl_rw_req =
  stub_fop :: rw_fop
  stub_frame :: addr
  rw_region :: posix_lock

section \<open>Inode locks, entry locks and domains\<close>

record pl_inode_lock =
  il_id :: addr
  il_ref :: int
  il_type :: lk_type
  il_start :: int
  il_end :: int
  il_volume :: string
  il_user_flock :: gf_flock
  il_frame :: addr
  il_client :: addr
  il_owner :: gf_lkowner
  il_client_pid :: int
  il_connection_id :: "string option"

datatype entrylk_type = ENTRYLK_RDLCK | ENTRYLK_WRLCK

datatype entrylk_cmd = ENTRYLK_LOCK | ENTRYLK_UNLOCK | ENTRYLK_LOCK_NB | ENTRYLK_other

record pl_entry_lock =
  el_id :: addr
  el_ref :: int
  el_frame :: addr
  el_volume :: string
  el_basename :: "string option"
  el_type :: entrylk_type
  el_client :: addr
  el_owner :: gf_lkowner
  el_client_pid :: int
  el_connection_id :: "string option"

record pl_dom =
  domain :: string
  entrylk_list :: "pl_entry_lock list"
  blocked_entrylks :: "pl_entry_lock list"
  inodelk_list :: "pl_inode_lock list"
  blocked_inodelks :: "pl_inode_lock list"

section \<open>The lock state of an inode\<close>

text \<open>\<open>inode_refs\<close> counts the references this translator holds on the inode through
  \<open>pl_inode->inode\<close> (inode_ref minus inode_unref); \<open>refkeeper\<close> is whether the pointer of that
  name is set.\<close>

record pl_inode =
  dom_list :: "pl_dom list"
  ext_list :: "posix_lock list"
  rw_list :: "pl_rw_req list"
  mandatory :: bool
  refkeeper :: bool
  inode_refs :: int

text \<open>pl_inode_get on an inode seen for the first time.\<close>

definition pl_inode_new :: pl_inode where
  "pl_inode_new = \<lparr>dom_list = [], ext_list = [], rw_list = [], mandatory = False,
     refkeeper = False, inode_refs = 0\<rparr>"

section \<open>Clients\<close>

text \<open>The lists inodelk_lockers and entrylk_lockers of a client's pl_ctx_t hold lock objects
  through their client_list link: here the inode and the identity of each object, per
  client.\<close>

type_synonym lockers = "addr \<Rightarrow> (addr \<times> addr) list"

datatype lk_cmd = F_GETLK | F_SETLK | F_SETLKW | Other_cmd

section \<open>Observable effects\<close>

text \<open>What a handler does besides changing the lock state: replies it unwinds
  (frame, op_ret, op_errno), calls it winds to the child translator, stubs it resumes, lock
  objects it frees.\<close>

datatype pl_event =
    UnwindLk addr int int gf_flock
  | UnwindInodelk addr int int
  | UnwindEntrylk addr int int
  | UnwindRW addr int int
  | WindRW rw_fop addr
  | WindTruncate addr
  | UnwindTruncate addr int int
  | WindFlush addr
  | ResumeStub rw_fop addr
  | FreeInodelk addr
  | FreeEntrylk addr

section \<open>Domains (common.c)\<close>

text \<open>__allocate_domain and get_domain: the domain of that name, created at the head of
  dom_list when there is none.  Allocation is taken to succeed.\<close>

definition allocate_domain :: "string \<Rightarrow> pl_dom" where
  "allocate_domain volume = \<lparr>domain = volume, entrylk_list = [], blocked_entrylks = [],
     inodelk_list = [], blocked_inodelks = []\<rparr>"

definition get_domain :: "pl_inode \<Rightarrow> string \<Rightarrow> pl_dom \<times> pl_inode" where
  "get_domain p volume =
     (case find (\<lambda>d. domain d = volume) (dom_list p) of
        Some d \<Rightarrow> (d, p)
      | None \<Rightarrow> (let d = allocate_domain volume
                 in (d, p\<lparr>dom_list := list_add d (dom_list p)\<rparr>)))"

text \<open>Writing back a domain the code updated through its pointer.\<close>

definition set_domain :: "pl_inode \<Rightarrow> pl_dom \<Rightarrow> pl_inode" where
  "set_domain p d = p\<lparr>dom_list := map (\<lambda>e. if domain e = domain d then d else e) (dom_list p)\<rparr>"

definition doms_distinct :: "pl_inode \<Rightarrow> bool" where
  "doms_distinct p \<longleftrightarrow> distinct (map domain (dom_list p))"

section \<open>Lemmas\<close>

lemma get_domain_in_list: "get_domain p v = (d, p') \<Longrightarrow> d \<in> set (dom_list p')"
  by (auto simp: get_domain_def Let_def list_add_def split: option.splits dest: find_SomeD)

lemma get_domain_name: "get_domain p v = (d, p') \<Longrightarrow> domain d = v"
  by (auto simp: get_domain_def Let_def allocate_domain_def split: option.splits
      dest: find_SomeD)

lemma get_domain_distinct:
  "doms_distinct p \<Longrightarrow> get_domain p v = (d, p') \<Longrightarrow> doms_distinct p'"
  by (auto simp: get_domain_def Let_def allocate_domain_def list_add_def doms_distinct_def
      find_None_iff split: option.splits)

lemma map_domain_set_domain: "map domain (dom_list (set_domain p d)) = map domain (dom_list p)"
  by (simp add: set_domain_def)

lemma set_domain_distinct: "doms_distinct p \<Longrightarrow> doms_distinct (set_domain p d)"
  by (simp add: doms_distinct_def map_domain_set_domain)

lemma set_domain_other_fields [simp]:
  "ext_list (set_domain p d) = ext_list p" "rw_list (set_domain p d) = rw_list p"
  "mandatory (set_domain p d) = mandatory p" "refkeeper (set_domain p d) = refkeeper p"
  "inode_refs (set_domain p d) = inode_refs p"
  by (simp_all add: set_domain_def)

lemma set_domain_id: "doms_distinct p \<Longrightarrow> d \<in> set (dom_list p) \<Longrightarrow> set_domain p d = p"
  by (auto simp: set_domain_def doms_distinct_def distinct_map inj_on_def
      intro!: pl_inode.equality map_idI)

text \<open>A total over the domains changes by what the replaced domain contributes.\<close>

lemma sum_map_replace:
  fixes f :: "pl_dom \<Rightarrow> 'a::comm_monoid_add"
  assumes "distinct (map domain ds)" "d \<in> set ds" "domain d' = domain d"
  shows "sum_list (map f (map (\<lambda>e. if domain e = domain d' then d' else e) ds)) + f d =
    sum_list (map f ds) + f d'"
  using assms
proof (induction ds)
  case (Cons e ds)
  show ?case
  proof (cases "d = e")
    case True
    with Cons.prems have "domain x \<noteq> domain d'" if "x \<in> set ds" for x
      using that by (metis distinct.simps(2) image_eqI list.set_map list.simps(9))
    then have "map (\<lambda>x. if domain x = domain d' then d' else x) ds = ds"
      by (simp add: map_idI)
    with True Cons.prems(3) show ?thesis by (simp add: ac_simps)
  next
    case False
    with Cons.prems have d: "d \<in> set ds" by simp
    with Cons.prems have "domain e \<noteq> domain d'" by auto
    moreover have "sum_list (map f (map (\<lambda>e. if domain e = domain d' then d' else e) ds)) + f d =
        sum_list (map f ds) + f d'"
      using Cons.IH Cons.prems d by simp
    ultimately show ?thesis by (simp add: add.assoc del: map_map)
  qed
qed simp

lemma sum_set_domain:
  fixes f :: "pl_dom \<Rightarrow> 'a::comm_monoid_add"
  assumes "doms_distinct p" "d \<in> set (dom_list p)" "domain d' = domain d"
  shows "sum_list (map f (dom_list (set_domain p d'))) + f d = sum_list (map f (dom_list p)) + f d'"
  using sum_map_replace [of "dom_list p" d d' f] assms by (simp add: set_domain_def doms_distinct_def)

lemma set_domain_in: "e \<in> set (dom_list (set_domain p d)) \<Longrightarrow> e = d \<or> e \<in> set (dom_list p)"
  by (auto simp: set_domain_def)

lemma sum_get_domain:
  fixes f :: "pl_dom \<Rightarrow> 'a::comm_monoid_add"
  assumes "get_domain p v = (d, p')" "f (allocate_domain v) = 0"
  shows "sum_list (map f (dom_list p')) = sum_list (map f (dom_list p))"
  using assms by (auto simp: get_domain_def Let_def list_add_def split: option.splits)

lemma get_domain_cases: "get_domain p v = (d, p') \<Longrightarrow> e \<in> set (dom_list p') \<Longrightarrow>
    e = allocate_domain v \<or> e \<in> set (dom_list p)"
  by (auto simp: get_domain_def Let_def list_add_def split: option.splits)

lemma get_domain_fields:
  assumes "get_domain p v = (d, p')"
  shows "ext_list p' = ext_list p" "rw_list p' = rw_list p" "inode_refs p' = inode_refs p"
    "refkeeper p' = refkeeper p" "mandatory p' = mandatory p"
  using assms by (auto simp: get_domain_def Let_def split: option.splits)

text \<open>All domain locks of an inode, granted and waiting.\<close>

definition dom_locks :: "pl_dom \<Rightarrow> nat" where
  "dom_locks d = length (inodelk_list d) + length (blocked_inodelks d) +
     length (entrylk_list d) + length (blocked_entrylks d)"

definition inode_locks :: "pl_inode \<Rightarrow> nat" where
  "inode_locks p = sum_list (map dom_locks (dom_list p))"

text \<open>A call of one kind of domain lock leaves the locks of the other kind alone: every domain
  has the lists it had, or is new and empty.\<close>

definition entrylks_kept :: "pl_inode \<Rightarrow> pl_inode \<Rightarrow> bool" where
  "entrylks_kept p p' \<longleftrightarrow> (\<forall>e \<in> set (dom_list p'). (entrylk_list e = [] \<and> blocked_entrylks e = []) \<or>
     (\<exists>e0 \<in> set (dom_list p). entrylk_list e = entrylk_list e0 \<and> blocked_entrylks e = blocked_entrylks e0))"

definition inodelks_kept :: "pl_inode \<Rightarrow> pl_inode \<Rightarrow> bool" where
  "inodelks_kept p p' \<longleftrightarrow> (\<forall>e \<in> set (dom_list p'). (inodelk_list e = [] \<and> blocked_inodelks e = []) \<or>
     (\<exists>e0 \<in> set (dom_list p). inodelk_list e = inodelk_list e0 \<and> blocked_inodelks e = blocked_inodelks e0))"

lemma kept_refl [simp]: "entrylks_kept p p" "inodelks_kept p p"
  by (auto simp: entrylks_kept_def inodelks_kept_def)

lemma get_domain_kept:
  assumes "get_domain p v = (d, p1)"
  shows "entrylks_kept p p1" "inodelks_kept p p1"
  using get_domain_cases [OF assms]
  by (fastforce simp: entrylks_kept_def inodelks_kept_def allocate_domain_def)+

lemma set_domain_kept:
  assumes "get_domain p v = (d, p1)" "dom_list p' = dom_list (set_domain p1 d')"
  shows "entrylk_list d' = entrylk_list d \<Longrightarrow> blocked_entrylks d' = blocked_entrylks d \<Longrightarrow> entrylks_kept p p'"
    "inodelk_list d' = inodelk_list d \<Longrightarrow> blocked_inodelks d' = blocked_inodelks d \<Longrightarrow> inodelks_kept p p'"
proof -
  have e: "e = d' \<or> e \<in> set (dom_list p1)" if "e \<in> set (dom_list p')" for e
    using that assms(2) set_domain_in by metis
  note K = get_domain_kept [OF assms(1), unfolded entrylks_kept_def inodelks_kept_def]
  note d = get_domain_in_list [OF assms(1)]
  show "entrylks_kept p p'" if "entrylk_list d' = entrylk_list d" "blocked_entrylks d' = blocked_entrylks d"
    unfolding entrylks_kept_def using e K(1) d that by metis
  show "inodelks_kept p p'" if "inodelk_list d' = inodelk_list d" "blocked_inodelks d' = blocked_inodelks d"
    unfolding inodelks_kept_def using e K(2) d that by metis
qed

end
