(* ===== verification/Locks_Posix.thy ===== *)
theory Locks_Posix
  imports Locks_Types
begin

text \<open>
  Record locks: xlators/features/locks/src/common.c from new_posix_lock to pl_getlk, and the
  users of the lock list in posix.c (flush, release of a descriptor's locks, mandatory-lock
  checks of reads, writes and truncates).  \<open>ext_list\<close> is the C list of the same name: granted
  and blocked locks in queue order.  The functions on it return the new list;
  \<open>insert_and_merge\<close>, which calls itself on the pieces it makes, is a partial function whose
  \<open>None\<close> would mean non-termination.
\<close>

section \<open>Definitions\<close>

subsection \<open>Making and converting locks\<close>

definition fd_to_fdnum :: "addr \<Rightarrow> nat" where
  "fd_to_fdnum fd = fd"

definition new_posix_lock ::
  "gf_flock \<Rightarrow> addr \<Rightarrow> int \<Rightarrow> gf_lkowner \<Rightarrow> addr \<Rightarrow> posix_lock option" where
  "new_posix_lock flock cl pid own fd =
     (if cl = NULL \<or> fd = NULL then None
      else Some (zero_lock\<lparr>
        fl_start := l_start flock,
        fl_type := l_type flock,
        fl_end := (if l_len flock = 0 then LLONG_MAX
                   else off_wrap (l_start flock + l_len flock - 1)),
        client := cl,
        fd_num := fd_to_fdnum fd,
        lk_fd := fd,
        client_pid := pid,
        owner := own\<rparr>))"

definition posix_lock_to_flock :: "posix_lock \<Rightarrow> gf_flock \<Rightarrow> gf_flock" where
  "posix_lock_to_flock lock flock = flock\<lparr>
     l_pid := client_pid lock,
     l_type := fl_type lock,
     l_start := fl_start lock,
     l_owner := owner lock,
     l_len := (if fl_end lock = LLONG_MAX then 0
               else off_wrap (fl_end lock - fl_start lock + 1))\<rparr>"

definition set_user_flock :: "posix_lock \<Rightarrow> posix_lock" where
  "set_user_flock l = l\<lparr>user_flock := posix_lock_to_flock l (user_flock l)\<rparr>"

definition insert_lock :: "posix_lock list \<Rightarrow> posix_lock \<Rightarrow> posix_lock list" where
  "insert_lock L lock = list_add_tail lock L"

definition locks_overlap :: "posix_lock \<Rightarrow> posix_lock \<Rightarrow> bool" where
  "locks_overlap l1 l2 \<longleftrightarrow> fl_end l1 \<ge> fl_start l2 \<and> fl_end l2 \<ge> fl_start l1"

definition same_owner :: "posix_lock \<Rightarrow> posix_lock \<Rightarrow> bool" where
  "same_owner l1 l2 \<longleftrightarrow> is_same_lkowner (owner l1) (owner l2) \<and> client l1 = client l2"

definition delete_unlck_locks :: "posix_lock list \<Rightarrow> posix_lock list" where
  "delete_unlck_locks L = filter (\<lambda>l. fl_type l \<noteq> F_UNLCK) L"

subsection \<open>Adding and subtracting ranges\<close>

definition add_locks :: "posix_lock \<Rightarrow> posix_lock \<Rightarrow> posix_lock" where
  "add_locks l1 l2 = zero_lock\<lparr>
     fl_start := min (fl_start l1) (fl_start l2),
     fl_end := max (fl_end l1) (fl_end l2)\<rparr>"

text \<open>The array \<open>locks[3]\<close> of struct _values, NULL entries as \<open>None\<close>.\<close>

type_synonym lk_values = "posix_lock option \<times> posix_lock option \<times> posix_lock option"

definition subtract_locks :: "posix_lock \<Rightarrow> posix_lock \<Rightarrow> lk_values" where
  "subtract_locks big small =
     (if fl_start big = fl_start small \<and> fl_end big = fl_end small then
        (Some (big\<lparr>fl_type := fl_type small\<rparr>), None, None)
      else if fl_start small > fl_start big \<and> fl_end small < fl_end big then
        (Some (big\<lparr>fl_end := fl_start small - 1\<rparr>),
         Some small,
         Some (big\<lparr>fl_start := fl_end small + 1\<rparr>))
      else if fl_start small = fl_start big then
        (Some (big\<lparr>fl_start := fl_end small + 1\<rparr>), Some small, None)
      else if fl_end small = fl_end big then
        (Some (big\<lparr>fl_end := fl_start small - 1\<rparr>), Some small, None)
      else (None, None, None))"

subsection \<open>Searching for conflicts\<close>

definition first_conflicting_overlap :: "posix_lock list \<Rightarrow> posix_lock \<Rightarrow> posix_lock option" where
  "first_conflicting_overlap L lock =
     find (\<lambda>l. \<not> blocked l \<and> locks_overlap l lock \<and> \<not> same_owner l lock \<and>
               (fl_type l = F_WRLCK \<or> fl_type lock = F_WRLCK)) L"

definition first_overlap :: "posix_lock list \<Rightarrow> posix_lock \<Rightarrow> posix_lock option" where
  "first_overlap L lock = find (\<lambda>l. \<not> blocked l \<and> locks_overlap l lock) L"

fun is_lock_grantable :: "posix_lock list \<Rightarrow> posix_lock \<Rightarrow> bool" where
  "is_lock_grantable [] lock = True"
| "is_lock_grantable (l # ls) lock =
     (if (\<not> blocked l \<and> locks_overlap lock l) \<and>
         ((fl_type l = F_WRLCK \<or> fl_type lock = F_WRLCK) \<and> fl_type lock \<noteq> F_UNLCK \<and>
          \<not> same_owner l lock)
      then False
      else is_lock_grantable ls lock)"

subsection \<open>Insert and merge\<close>

text \<open>The loop of __insert_and_merge runs until it meets a granted, overlapping lock that is
  the requester's own, or another owner's read lock when the request is a read lock.\<close>

definition merge_stops :: "posix_lock \<Rightarrow> posix_lock \<Rightarrow> bool" where
  "merge_stops lock conf \<longleftrightarrow>
     \<not> blocked conf \<and> locks_overlap conf lock \<and>
     (same_owner conf lock \<or>
      (fl_type lock \<noteq> F_UNLCK \<and> fl_type conf = F_RDLCK \<and> fl_type lock = F_RDLCK))"

text \<open>The sum of the two ranges, with the identity of the request (same type) or of the
  existing lock (different type).\<close>

definition sum_as :: "posix_lock \<Rightarrow> posix_lock \<Rightarrow> posix_lock \<Rightarrow> posix_lock" where
  "sum_as lock conf src = (add_locks lock conf)\<lparr>
     fl_type := fl_type src,
     client := client src,
     fd_num := fd_num src,
     client_pid := client_pid src,
     owner := owner src\<rparr>"

partial_function (option) insert_and_merge ::
  "posix_lock list \<Rightarrow> posix_lock \<Rightarrow> posix_lock list option" where
  "insert_and_merge L lock =
     (case list_split_first (merge_stops lock) L of
        None \<Rightarrow> Some (if fl_type lock \<noteq> F_UNLCK then insert_lock L lock else L)
      | Some (pre, conf, post) \<Rightarrow>
          if same_owner conf lock then
            if fl_type conf = fl_type lock then
              insert_and_merge (pre @ post) (set_user_flock (sum_as lock conf lock))
            else
              (case subtract_locks (sum_as lock conf conf) lock of (v0, v1, v2) \<Rightarrow>
                Option.bind (case v0 of None \<Rightarrow> Some (pre @ post)
                             | Some l \<Rightarrow> insert_and_merge (pre @ post) (set_user_flock l)) (\<lambda>L0.
                Option.bind (case v1 of None \<Rightarrow> Some L0
                             | Some l \<Rightarrow> insert_and_merge L0 (set_user_flock l)) (\<lambda>L1.
                Option.bind (case v2 of None \<Rightarrow> Some L1
                             | Some l \<Rightarrow> insert_and_merge L1 (set_user_flock l)) (\<lambda>L2.
                Some (delete_unlck_locks L2)))))
          else Some (insert_lock L lock))"

declare insert_and_merge.simps [code]

subsection \<open>Granting blocked locks\<close>

text \<open>First loop of __grant_blocked_locks: blocked locks that no granted lock overlaps leave
  the list for tmp_list with \<open>blocked\<close> cleared; taking them out does not change the granted
  ones, so every test sees the same granted locks.\<close>

definition grant_candidate :: "posix_lock list \<Rightarrow> posix_lock \<Rightarrow> bool" where
  "grant_candidate L l \<longleftrightarrow> blocked l \<and> first_overlap L l = None"

text \<open>Second loop: each candidate is merged in if it is grantable against the list as it now
  is, and queued as blocked again otherwise; the granted list collects (frame, flock).\<close>

fun grant_loop ::
  "posix_lock list \<Rightarrow> posix_lock list \<Rightarrow> (addr \<times> gf_flock) list \<Rightarrow>
   (posix_lock list \<times> (addr \<times> gf_flock) list) option" where
  "grant_loop L [] granted = Some (L, granted)"
| "grant_loop L (l # ls) granted =
     (if is_lock_grantable L l then
        Option.bind (insert_and_merge L (l\<lparr>lk_frame := NULL\<rparr>)) (\<lambda>L'.
          grant_loop L' ls
            (list_add (lk_frame l, posix_lock_to_flock l zero_flock) granted))
      else grant_loop (insert_lock L (l\<lparr>blocked := True\<rparr>)) ls granted)"

definition grant_blocked_locks_int ::
  "posix_lock list \<Rightarrow> (posix_lock list \<times> (addr \<times> gf_flock) list) option" where
  "grant_blocked_locks_int L =
     grant_loop (filter (\<lambda>l. \<not> grant_candidate L l) L)
       (map (\<lambda>l. l\<lparr>blocked := False\<rparr>) (filter (grant_candidate L) L)) []"

definition unwind_granted :: "(addr \<times> gf_flock) list \<Rightarrow> pl_event list" where
  "unwind_granted granted = map (\<lambda>(fr, fl). UnwindLk fr 0 0 fl) granted"

definition grant_blocked_locks :: "pl_inode \<Rightarrow> (pl_inode \<times> pl_event list) option" where
  "grant_blocked_locks p =
     map_option (\<lambda>(L, granted). (p\<lparr>ext_list := L\<rparr>, unwind_granted granted))
       (grant_blocked_locks_int (ext_list p))"

subsection \<open>Blocked reads and writes\<close>

fun rw_allowable :: "posix_lock list \<Rightarrow> posix_lock \<Rightarrow> rw_fop \<Rightarrow> bool" where
  "rw_allowable [] region fop = True"
| "rw_allowable (l # ls) region fop =
     (if locks_overlap l region \<and> \<not> same_owner l region then
        if fop = GF_FOP_READ \<and> fl_type l \<noteq> F_WRLCK then rw_allowable ls region fop else False
      else rw_allowable ls region fop)"

definition do_blocked_rw :: "pl_inode \<Rightarrow> pl_inode \<times> pl_event list" where
  "do_blocked_rw p =
     (let ok = (\<lambda>rw. rw_allowable (ext_list p) (rw_region rw) (stub_fop rw))
      in (p\<lparr>rw_list := filter (\<lambda>rw. \<not> ok rw) (rw_list p)\<rparr>,
          map (\<lambda>rw. ResumeStub (stub_fop rw) (stub_frame rw)) (filter ok (rw_list p))))"

subsection \<open>Setting and querying locks\<close>

definition pl_send_prelock_unlock ::
  "posix_lock list \<Rightarrow> posix_lock \<Rightarrow> (int \<times> posix_lock list \<times> pl_event list) option" where
  "pl_send_prelock_unlock L old_lock =
     (case new_posix_lock (zero_flock\<lparr>l_type := F_UNLCK,
                             l_whence := l_whence (user_flock old_lock),
                             l_start := l_start (user_flock old_lock),
                             l_len := l_len (user_flock old_lock)\<rparr>)
             (client old_lock) (client_pid old_lock) (owner old_lock) (lk_fd old_lock) of
        None \<Rightarrow> Some (-1, L, [])
      | Some unlock_lock \<Rightarrow>
          Option.bind (insert_and_merge L unlock_lock) (\<lambda>L1.
          Option.bind (grant_blocked_locks_int L1) (\<lambda>(L2, granted).
          Some (0, L2, unwind_granted granted))))"

text \<open>The critical section of pl_setlk.\<close>

definition setlk_section ::
  "posix_lock list \<Rightarrow> posix_lock \<Rightarrow> bool \<Rightarrow> (int \<times> posix_lock list \<times> pl_event list) option" where
  "setlk_section L lock can_block =
     Option.bind (if can_block \<and> \<not> is_lock_grantable L lock
                  then pl_send_prelock_unlock L lock else Some (0, L, [])) (\<lambda>(ret, L1, ev).
       if is_lock_grantable L1 lock then
         Option.bind (insert_and_merge L1 lock) (\<lambda>L2. Some (ret, L2, ev))
       else if can_block then
         Some (-1, insert_lock L1 (lock\<lparr>blocked := True\<rparr>), ev)
       else Some (-1, L1, ev))"

definition pl_setlk ::
  "pl_inode \<Rightarrow> posix_lock \<Rightarrow> bool \<Rightarrow> (int \<times> pl_inode \<times> pl_event list) option" where
  "pl_setlk p lock can_block =
     Option.bind (setlk_section (ext_list p) lock can_block) (\<lambda>(ret, L, ev1).
     Option.bind (grant_blocked_locks (p\<lparr>ext_list := L\<rparr>)) (\<lambda>(p2, ev2).
       case do_blocked_rw p2 of (p3, ev3) \<Rightarrow> Some (ret, p3, ev1 @ ev2 @ ev3)))"

text \<open>pl_getlk answers with the first conflicting lock, or with the request itself turned
  into F_UNLCK.\<close>

definition pl_getlk :: "posix_lock list \<Rightarrow> posix_lock \<Rightarrow> posix_lock" where
  "pl_getlk L lock =
     (case first_conflicting_overlap L lock of
        None \<Rightarrow> lock\<lparr>fl_type := F_UNLCK\<rparr>
      | Some conf \<Rightarrow> conf)"

subsection \<open>Releasing locks\<close>

definition pl_locks_by_fd :: "posix_lock list \<Rightarrow> addr \<Rightarrow> bool" where
  "pl_locks_by_fd L fd \<longleftrightarrow> (\<exists>l \<in> set L. fd_num l = fd_to_fdnum fd)"

definition delete_locks_of_fd :: "pl_inode \<Rightarrow> addr \<Rightarrow> (pl_inode \<times> pl_event list) option" where
  "delete_locks_of_fd p fd =
     (let mine = (\<lambda>l. fd_num l = fd_to_fdnum fd);
          blocked_list = filter (\<lambda>l. mine l \<and> blocked l) (ext_list p);
          ev1 = map (\<lambda>l. UnwindLk (lk_frame l) (-1) EAGAIN (user_flock l)) blocked_list
      in Option.bind (grant_blocked_locks
             (p\<lparr>ext_list := filter (\<lambda>l. \<not> mine l) (ext_list p)\<rparr>)) (\<lambda>(p2, ev2).
         case do_blocked_rw p2 of (p3, ev3) \<Rightarrow> Some (p3, ev1 @ ev2 @ ev3)))"

definition delete_locks_of_owner ::
  "posix_lock list \<Rightarrow> addr \<Rightarrow> gf_lkowner \<Rightarrow> posix_lock list" where
  "delete_locks_of_owner L cl own =
     filter (\<lambda>l. blocked l \<or> \<not> (client l = cl \<and> is_same_lkowner (owner l) own)) L"

definition pl_flush :: "pl_inode \<Rightarrow> call_root \<Rightarrow> addr \<Rightarrow> (pl_inode \<times> pl_event list) option" where
  "pl_flush p rt fd =
     (if length (rt_lk_owner rt) = 0 then
        map_option (\<lambda>(p1, ev). (p1, ev @ [WindFlush (frame_id rt)])) (delete_locks_of_fd p fd)
      else
        Option.bind (grant_blocked_locks
            (p\<lparr>ext_list := delete_locks_of_owner (ext_list p) (rt_client rt) (rt_lk_owner rt)\<rparr>))
          (\<lambda>(p2, ev2). case do_blocked_rw p2 of
             (p3, ev3) \<Rightarrow> Some (p3, ev2 @ ev3 @ [WindFlush (frame_id rt)])))"

definition pl_migrate_locks :: "posix_lock list \<Rightarrow> call_root \<Rightarrow> addr \<Rightarrow> nat \<Rightarrow> posix_lock list" where
  "pl_migrate_locks L rt newfd oldfd_num =
     map (\<lambda>l. if fd_num l = oldfd_num
              then l\<lparr>fd_num := fd_to_fdnum newfd, client := rt_client rt\<rparr> else l) L"

subsection \<open>Mandatory locking\<close>

definition truncate_allowed ::
  "posix_lock list \<Rightarrow> addr \<Rightarrow> int \<Rightarrow> gf_lkowner \<Rightarrow> int \<Rightarrow> bool" where
  "truncate_allowed L cl pid own offset =
     (let region = zero_lock\<lparr>fl_start := offset, fl_end := LLONG_MAX, client := cl,
                     client_pid := pid, owner := own\<rparr>
      in \<not> (\<exists>l \<in> set L. \<not> blocked l \<and> locks_overlap region l \<and> \<not> same_owner region l))"

text \<open>truncate_stat_cbk: the stat result decides, then mandatory locking, then the
  truncate is wound.\<close>

definition truncate_stat_cbk ::
  "bool \<Rightarrow> pl_inode \<Rightarrow> call_root \<Rightarrow> int \<Rightarrow> int \<Rightarrow> int \<Rightarrow> pl_event list" where
  "truncate_stat_cbk priv_mandatory p rt offset op_ret op_errno =
     (if op_ret \<noteq> 0 then [UnwindTruncate (frame_id rt) op_ret op_errno]
      else if priv_mandatory \<and> mandatory p \<and>
              \<not> truncate_allowed (ext_list p) (rt_client rt) (rt_pid rt) (rt_lk_owner rt) offset
      then [UnwindTruncate (frame_id rt) (-1) EAGAIN]
      else [WindTruncate (frame_id rt)])"

text \<open>The region a read or write covers, and the common body of pl_readv and pl_writev.\<close>

definition rw_region_of :: "call_root \<Rightarrow> addr \<Rightarrow> int \<Rightarrow> nat \<Rightarrow> posix_lock" where
  "rw_region_of rt fd offset len = zero_lock\<lparr>
     fl_start := offset, fl_end := off_wrap (offset + int len - 1), client := rt_client rt,
     fd_num := fd_to_fdnum fd, client_pid := rt_pid rt, owner := rt_lk_owner rt\<rparr>"

definition pl_rw ::
  "rw_fop \<Rightarrow> bool \<Rightarrow> pl_inode \<Rightarrow> call_root \<Rightarrow> addr \<Rightarrow> bool \<Rightarrow> int \<Rightarrow> nat \<Rightarrow>
   pl_inode \<times> pl_event list" where
  "pl_rw fop priv_mandatory p rt fd o_nonblock offset len =
     (if priv_mandatory \<and> mandatory p then
        let region = rw_region_of rt fd offset len in
        if rw_allowable (ext_list p) region fop then (p, [WindRW fop (frame_id rt)])
        else if o_nonblock then (p, [UnwindRW (frame_id rt) (-1) EAGAIN])
        else (p\<lparr>rw_list := list_add_tail
                 \<lparr>stub_fop = fop, stub_frame = frame_id rt, rw_region = region\<rparr> (rw_list p)\<rparr>, [])
      else (p, [WindRW fop (frame_id rt)]))"

definition pl_readv ::
  "bool \<Rightarrow> pl_inode \<Rightarrow> call_root \<Rightarrow> addr \<Rightarrow> bool \<Rightarrow> int \<Rightarrow> nat \<Rightarrow> pl_inode \<times> pl_event list" where
  "pl_readv = pl_rw GF_FOP_READ"

definition pl_writev ::
  "bool \<Rightarrow> pl_inode \<Rightarrow> call_root \<Rightarrow> addr \<Rightarrow> bool \<Rightarrow> int \<Rightarrow> nat \<Rightarrow> pl_inode \<times> pl_event list" where
  "pl_writev = pl_rw GF_FOP_WRITE"

end
