(* ===== verification/Locks_Posix_Merge.thy ===== *)
theory Locks_Posix_Merge
  imports Locks_Posix
begin

text \<open>
  The meaning of a record-lock list: \<open>cov L k b\<close> is the set of lock types the owner \<open>k\<close>
  (client and lock owner) holds on byte \<open>b\<close>.  The theory shows that insert_and_merge returns
  on every well-formed list and what it does to this meaning.  The recursion ends because
  each call works on a list and a request that together span fewer bytes than before.
\<close>


section \<open>What a lock list means\<close>

datatype lk_holder = Holder addr gf_lkowner

definition lk_key :: "posix_lock \<Rightarrow> lk_holder" where
  "lk_key l = Holder (client l) (owner l)"

definition covers :: "posix_lock \<Rightarrow> int \<Rightarrow> bool" where
  "covers l b \<longleftrightarrow> fl_start l \<le> b \<and> b \<le> fl_end l"

definition cov :: "posix_lock list \<Rightarrow> lk_holder \<Rightarrow> int \<Rightarrow> lk_type set" where
  "cov L k b = fl_type ` {l \<in> set L. \<not> blocked l \<and> lk_key l = k \<and> covers l b}"

definition lk_valid :: "posix_lock \<Rightarrow> bool" where
  "lk_valid l \<longleftrightarrow> fl_start l \<le> fl_end l"

definition ext_wf :: "posix_lock list \<Rightarrow> bool" where
  "ext_wf L \<longleftrightarrow> (\<forall>l \<in> set L. lk_valid l \<and> fl_type l \<noteq> F_UNLCK)"

definition lk_len :: "posix_lock \<Rightarrow> nat" where
  "lk_len l = nat (fl_end l - fl_start l + 1)"

definition lk_weight :: "posix_lock list \<Rightarrow> nat" where
  "lk_weight L = sum_list (map lk_len (filter (\<lambda>l. \<not> blocked l) L))"

fun held_in :: "lk_type \<Rightarrow> lk_type set \<Rightarrow> lk_type set \<Rightarrow> bool" where
  "held_in F_UNLCK C C' = (C' = {})"
| "held_in F_WRLCK C C' = (C' = {F_WRLCK})"
| "held_in F_RDLCK C C' = (C' \<noteq> {} \<and> C' \<subseteq> insert F_RDLCK C)"

definition held_out :: "lk_type set \<Rightarrow> lk_type set \<Rightarrow> bool" where
  "held_out C C' \<longleftrightarrow> C' \<subseteq> C \<and> (C' = {} \<longrightarrow> C = {})"

definition held_step :: "bool \<Rightarrow> lk_type \<Rightarrow> lk_type set \<Rightarrow> lk_type set \<Rightarrow> bool" where
  "held_step inside t C C' = (if inside then held_in t C C' else held_out C C')"

definition cov_step :: "posix_lock list \<Rightarrow> posix_lock \<Rightarrow> posix_lock list \<Rightarrow> bool" where
  "cov_step L lock L' \<longleftrightarrow>
     (\<forall>k b. if k = lk_key lock
            then held_step (covers lock b) (fl_type lock) (cov L k b) (cov L' k b)
            else cov L' k b = cov L k b)"

lemma cov_stepI:
  assumes "\<And>b. held_step (covers lock b) (fl_type lock) (cov L (lk_key lock) b) (cov L' (lk_key lock) b)"
    and "\<And>k b. k \<noteq> lk_key lock \<Longrightarrow> cov L' k b = cov L k b"
  shows "cov_step L lock L'"
  unfolding cov_step_def using assms by metis

lemma cov_step_own:
  "cov_step L lock L' \<Longrightarrow>
     held_step (covers lock b) (fl_type lock) (cov L (lk_key lock) b) (cov L' (lk_key lock) b)"
  unfolding cov_step_def by metis

lemma cov_step_other: "cov_step L lock L' \<Longrightarrow> k \<noteq> lk_key lock \<Longrightarrow> cov L' k b = cov L k b"
  unfolding cov_step_def by metis

definition merge_post :: "posix_lock list \<Rightarrow> posix_lock \<Rightarrow> posix_lock list \<Rightarrow> bool" where
  "merge_post L lock L' \<longleftrightarrow>
     ext_wf L' \<and> filter blocked L' = filter blocked L \<and>
     lk_weight L' \<le> lk_weight L + lk_len lock \<and> cov_step L lock L'"

subsection \<open>Field facts\<close>

lemma set_user_flock_fields [simp]:
  "fl_type (set_user_flock l) = fl_type l" "fl_start (set_user_flock l) = fl_start l"
  "fl_end (set_user_flock l) = fl_end l" "blocked (set_user_flock l) = blocked l"
  "client (set_user_flock l) = client l" "owner (set_user_flock l) = owner l"
  "fd_num (set_user_flock l) = fd_num l" "lk_key (set_user_flock l) = lk_key l"
  "covers (set_user_flock l) b = covers l b" "lk_valid (set_user_flock l) = lk_valid l"
  "lk_len (set_user_flock l) = lk_len l"
  by (simp_all add: set_user_flock_def lk_key_def covers_def lk_valid_def lk_len_def)

lemma sum_as_fields [simp]:
  "fl_type (sum_as l c s) = fl_type s" "blocked (sum_as l c s) = False"
  "client (sum_as l c s) = client s" "owner (sum_as l c s) = owner s"
  "lk_key (sum_as l c s) = lk_key s"
  "fl_start (sum_as l c s) = min (fl_start l) (fl_start c)"
  "fl_end (sum_as l c s) = max (fl_end l) (fl_end c)"
  by (simp_all add: sum_as_def add_locks_def lk_key_def zero_lock_def)

lemma same_owner_key: "same_owner l1 l2 \<longleftrightarrow> lk_key l1 = lk_key l2"
  by (auto simp: same_owner_def lk_key_def)

lemma locks_overlap_iff:
  "lk_valid l1 \<Longrightarrow> lk_valid l2 \<Longrightarrow> locks_overlap l1 l2 \<longleftrightarrow> (\<exists>b. covers l1 b \<and> covers l2 b)"
  unfolding locks_overlap_def covers_def lk_valid_def
  by (auto intro: exI [of _ "max (fl_start l1) (fl_start l2)"])

lemma locks_overlap_sym: "locks_overlap l1 l2 = locks_overlap l2 l1"
  by (auto simp: locks_overlap_def)

subsection \<open>List facts\<close>

lemma cov_append: "cov (xs @ ys) k b = cov xs k b \<union> cov ys k b"
  by (auto simp: cov_def)

lemma cov_Cons:
  "cov (x # xs) k b =
     (if \<not> blocked x \<and> lk_key x = k \<and> covers x b then {fl_type x} else {}) \<union> cov xs k b"
  by (auto simp: cov_def)

lemma cov_Nil [simp]: "cov [] k b = {}"
  by (simp add: cov_def)

lemmas cov_simps = cov_append cov_Cons

lemma lk_weight_append [simp]: "lk_weight (xs @ ys) = lk_weight xs + lk_weight ys"
  by (simp add: lk_weight_def)

lemma lk_weight_Cons [simp]:
  "lk_weight (x # xs) = (if blocked x then 0 else lk_len x) + lk_weight xs"
  by (simp add: lk_weight_def)

lemma lk_weight_Nil [simp]: "lk_weight [] = 0"
  by (simp add: lk_weight_def)

lemma ext_wf_append [simp]: "ext_wf (xs @ ys) \<longleftrightarrow> ext_wf xs \<and> ext_wf ys"
  by (auto simp: ext_wf_def)

lemma ext_wf_Cons [simp]:
  "ext_wf (x # xs) \<longleftrightarrow> lk_valid x \<and> fl_type x \<noteq> F_UNLCK \<and> ext_wf xs"
  by (auto simp: ext_wf_def)

lemma ext_wf_Nil [simp]: "ext_wf []"
  by (simp add: ext_wf_def)

lemma delete_unlck_id: "ext_wf L \<Longrightarrow> delete_unlck_locks L = L"
  by (simp add: delete_unlck_locks_def ext_wf_def)

subsection \<open>The two ways of stopping\<close>

lemma held_step_same:
  assumes "C = C1 \<union> (if inc then {t} else {})" and "t \<noteq> F_UNLCK"
    and "held_step (in1 \<or> inc) t C1 C'"
  shows "held_step in1 t C C'"
  using assms by (cases t) (auto simp: held_step_def held_out_def split: if_splits)

lemma held_step_split:
  assumes "C = C1 \<union> (if inc then {c} else {})" and "c \<noteq> F_UNLCK" and "c \<noteq> t"
    and "\<not> (in1 \<and> in0)" "\<not> (in1 \<and> in2)" "in0 \<Longrightarrow> inc" "in2 \<Longrightarrow> inc" "inc \<Longrightarrow> in0 \<or> in1 \<or> in2"
    and "held_step in0 c C1 C2" "held_step in1 t C2 C3" "held_step in2 c C3 C4"
  shows "held_step in1 t C C4"
proof (cases in1)
  case True
  with assms have "held_out C1 C2" "held_in t C2 C3" "held_out C3 C4"
    by (auto simp: held_step_def)
  with True assms(1) show ?thesis
    by (cases t) (auto simp: held_step_def held_out_def split: if_splits)
next
  case False
  with assms(2,6-) show ?thesis unfolding assms(1)
    by (cases c) (auto simp: held_step_def held_out_def split: if_splits)
qed


lemma covers_sum:
  assumes "lk_valid lock" "lk_valid conf" "locks_overlap conf lock"
  shows "covers (sum_as lock conf s) b \<longleftrightarrow> covers lock b \<or> covers conf b"
  using assms by (auto simp: covers_def lk_valid_def locks_overlap_def)

lemma sum_len:
  assumes "lk_valid lock" "lk_valid conf" "locks_overlap conf lock"
  shows "lk_len (sum_as lock conf s) < lk_len lock + lk_len conf"
  using assms by (auto simp: lk_len_def lk_valid_def locks_overlap_def)

lemma sum_valid: "lk_valid lock \<Longrightarrow> lk_valid (sum_as lock conf s)"
  by (auto simp: lk_valid_def)

lemma merge_post_same:
  assumes L: "L = pre @ conf # post" and wf: "ext_wf L" and v: "lk_valid lock"
    and conf: "\<not> blocked conf" "locks_overlap conf lock" "lk_key conf = lk_key lock"
      "fl_type conf = fl_type lock"
    and post: "merge_post (pre @ post) (set_user_flock (sum_as lock conf lock)) L'"
  shows "merge_post L lock L'"
proof -
  let ?s = "set_user_flock (sum_as lock conf lock)"
  have vc: "lk_valid conf" "fl_type conf \<noteq> F_UNLCK" using wf L by auto
  have C: "cov L (lk_key lock) b =
      cov (pre @ post) (lk_key lock) b \<union> (if covers conf b then {fl_type lock} else {})" for b
    using conf by (auto simp: L cov_simps)
  have O: "cov L k b = cov (pre @ post) k b" if "k \<noteq> lk_key lock" for k b
    using conf that by (auto simp: L cov_simps)
  have S: "covers ?s b \<longleftrightarrow> covers lock b \<or> covers conf b" for b
    using covers_sum [OF v vc(1) conf(2)] by simp
  have step: "cov_step (pre @ post) ?s L'" using post by (simp add: merge_post_def)
  have "cov_step L lock L'"
  proof (rule cov_stepI)
    fix b
    have "held_step (covers lock b \<or> covers conf b) (fl_type lock)
        (cov (pre @ post) (lk_key lock) b) (cov L' (lk_key lock) b)"
      using cov_step_own [OF step, of b] unfolding S by simp
    then show "held_step (covers lock b) (fl_type lock) (cov L (lk_key lock) b) (cov L' (lk_key lock) b)"
      using vc(2) conf(4) by (intro held_step_same [OF C]) auto
  next
    fix k b assume "k \<noteq> lk_key lock"
    then show "cov L' k b = cov L k b" using cov_step_other [OF step] O by simp
  qed
  moreover have "lk_weight L' \<le> lk_weight L + lk_len lock"
    using post sum_len [OF v vc(1) conf(2), of lock] conf(1)
    by (auto simp: merge_post_def L)
  ultimately show ?thesis using post conf(1) by (auto simp: merge_post_def L)
qed

definition lk_piece :: "posix_lock \<Rightarrow> posix_lock \<Rightarrow> posix_lock \<Rightarrow> bool" where
  "lk_piece conf lock p \<longleftrightarrow> lk_valid p \<and> \<not> blocked p \<and> lk_key p = lk_key conf \<and>
     fl_type p = fl_type conf \<and> (\<forall>b. covers p b \<longrightarrow> covers conf b \<and> \<not> covers lock b)"

definition lk_main :: "posix_lock \<Rightarrow> posix_lock \<Rightarrow> bool" where
  "lk_main lock m \<longleftrightarrow> lk_valid m \<and> \<not> blocked m \<and> lk_key m = lk_key lock \<and>
     fl_type m = fl_type lock \<and> fl_start m = fl_start lock \<and> fl_end m = fl_end lock"

lemma subtract_cases:
  assumes v: "lk_valid lock" "lk_valid conf" "locks_overlap conf lock" "\<not> blocked lock"
    "lk_key conf = lk_key lock"
  obtains
    (whole) m where "subtract_locks (sum_as lock conf conf) lock = (Some m, None, None)"
      "lk_main lock m" "\<And>b. covers conf b \<Longrightarrow> covers lock b"
  | (edge) p m where "subtract_locks (sum_as lock conf conf) lock = (Some p, Some m, None)"
      "lk_main lock m" "lk_piece conf lock p" "\<And>b. covers conf b \<Longrightarrow> covers p b \<or> covers lock b"
      "lk_len p < lk_len conf"
  | (inner) p m q where "subtract_locks (sum_as lock conf conf) lock = (Some p, Some m, Some q)"
      "lk_main lock m" "lk_piece conf lock p" "lk_piece conf lock q"
      "\<And>b. covers conf b \<Longrightarrow> covers p b \<or> covers lock b \<or> covers q b"
      "lk_len p + lk_len q < lk_len conf"
proof -
  let ?s = "sum_as lock conf conf"
  have le: "fl_start ?s \<le> fl_start lock" "fl_end lock \<le> fl_end ?s" by simp_all
  consider (a) "fl_start ?s = fl_start lock" "fl_end ?s = fl_end lock"
    | (b) "fl_start lock > fl_start ?s" "fl_end lock < fl_end ?s"
    | (c) "fl_start lock = fl_start ?s" "fl_end lock < fl_end ?s"
    | (d) "fl_start lock > fl_start ?s" "fl_end lock = fl_end ?s"
    using le by (cases "fl_start ?s = fl_start lock"; cases "fl_end ?s = fl_end lock") force+
  then show ?thesis
  proof cases
    case a
    show ?thesis
      by (rule whole [of "?s\<lparr>fl_type := fl_type lock\<rparr>"])
        (use a v in \<open>auto simp: subtract_locks_def lk_main_def lk_valid_def lk_key_def covers_def\<close>)
  next
    case b
    show ?thesis
      by (rule inner [of "?s\<lparr>fl_end := fl_start lock - 1\<rparr>" lock "?s\<lparr>fl_start := fl_end lock + 1\<rparr>"])
        (use b v in \<open>auto simp: subtract_locks_def lk_main_def lk_valid_def lk_key_def covers_def
          lk_piece_def lk_len_def locks_overlap_def\<close>)
  next
    case c
    show ?thesis
      by (rule edge [of "?s\<lparr>fl_start := fl_end lock + 1\<rparr>" lock])
        (use c v in \<open>auto simp: subtract_locks_def lk_main_def lk_valid_def lk_key_def covers_def
          lk_piece_def lk_len_def locks_overlap_def\<close>)
  next
    case d
    show ?thesis
      by (rule edge [of "?s\<lparr>fl_end := fl_start lock - 1\<rparr>" lock])
        (use d v in \<open>auto simp: subtract_locks_def lk_main_def lk_valid_def lk_key_def covers_def
          lk_piece_def lk_len_def locks_overlap_def\<close>)
  qed
qed


lemma merge_post_whole:
  assumes L: "L = pre @ conf # post" and wf: "ext_wf L"
    and conf: "\<not> blocked conf" "lk_key conf = lk_key lock" "fl_type conf \<noteq> fl_type lock"
    and m: "lk_main lock m" "\<And>b. covers conf b \<Longrightarrow> covers lock b"
    and post: "merge_post (pre @ post) (set_user_flock m) L'"
  shows "merge_post L lock L'"
proof -
  have step: "cov_step (pre @ post) (set_user_flock m) L'" using post by (simp add: merge_post_def)
  have m': "lk_key m = lk_key lock" "fl_type m = fl_type lock" "covers m b = covers lock b"
    "lk_len m = lk_len lock" for b
    using m by (auto simp: lk_main_def covers_def lk_len_def)
  have "cov_step L lock L'"
  proof (rule cov_stepI)
    fix b
    have "held_step (covers lock b) (fl_type lock) (cov (pre @ post) (lk_key lock) b)
        (cov L' (lk_key lock) b)"
      using cov_step_own [OF step, of b] m' by simp
    moreover have "cov L (lk_key lock) b = cov (pre @ post) (lk_key lock) b \<union>
        (if covers conf b then {fl_type conf} else {})"
      using conf by (auto simp: L cov_simps)
    ultimately show "held_step (covers lock b) (fl_type lock) (cov L (lk_key lock) b)
        (cov L' (lk_key lock) b)"
      using m(2) [of b] by (cases "fl_type lock") (auto simp: held_step_def held_out_def split: if_splits)
  next
    fix k b assume "k \<noteq> lk_key lock"
    then show "cov L' k b = cov L k b"
      using cov_step_other [OF step] m' conf by (auto simp: L cov_simps)
  qed
  then show ?thesis using post conf(1) m' by (auto simp: merge_post_def L)
qed

lemma merge_post_split:
  assumes L: "L = pre @ conf # post" and wf: "ext_wf L"
    and conf: "\<not> blocked conf" "lk_key conf = lk_key lock" "fl_type conf \<noteq> fl_type lock"
    and m: "lk_main lock m" and p: "lk_piece conf lock p"
    and q: "\<And>b. in2 b \<Longrightarrow> covers conf b \<and> \<not> covers lock b"
    and all: "\<And>b. covers conf b \<Longrightarrow> covers p b \<or> covers lock b \<or> in2 b"
    and len: "lk_len p + n < lk_len conf"
    and post: "merge_post (pre @ post) (set_user_flock p) L0"
      "merge_post L0 (set_user_flock m) L1"
    and last: "\<And>b. held_step (in2 b) (fl_type conf) (cov L1 (lk_key lock) b) (cov L2 (lk_key lock) b)"
      "\<And>k b. k \<noteq> lk_key lock \<Longrightarrow> cov L2 k b = cov L1 k b"
      "ext_wf L2" "filter blocked L2 = filter blocked L1" "lk_weight L2 \<le> lk_weight L1 + n"
  shows "merge_post L lock L2"
proof -
  have step: "cov_step (pre @ post) (set_user_flock p) L0" "cov_step L0 (set_user_flock m) L1"
    using post by (simp_all add: merge_post_def)
  have m': "lk_key m = lk_key lock" "fl_type m = fl_type lock" "covers m b = covers lock b"
    "lk_len m = lk_len lock" for b
    using m by (auto simp: lk_main_def covers_def lk_len_def)
  have p': "lk_key p = lk_key lock" "fl_type p = fl_type conf"
    using p conf(2) by (auto simp: lk_piece_def)
  have "cov_step L lock L2"
  proof (rule cov_stepI)
    fix b
    have C: "cov L (lk_key lock) b = cov (pre @ post) (lk_key lock) b \<union>
        (if covers conf b then {fl_type conf} else {})"
      using conf by (auto simp: L cov_simps)
    show "held_step (covers lock b) (fl_type lock) (cov L (lk_key lock) b) (cov L2 (lk_key lock) b)"
    proof (rule held_step_split [OF C, where ?in0.0 = "covers p b" and ?in2.0 = "in2 b"])
      show "fl_type conf \<noteq> F_UNLCK" using wf L by simp
      show "held_step (covers p b) (fl_type conf) (cov (pre @ post) (lk_key lock) b)
          (cov L0 (lk_key lock) b)"
        using cov_step_own [OF step(1), of b] p' by simp
      show "held_step (covers lock b) (fl_type lock) (cov L0 (lk_key lock) b)
          (cov L1 (lk_key lock) b)"
        using cov_step_own [OF step(2), of b] m' by simp
    qed (use p q [of b] last(1) [of b] conf(3) all [of b] in \<open>auto simp: lk_piece_def\<close>)
  next
    fix k b assume "k \<noteq> lk_key lock"
    then show "cov L2 k b = cov L k b"
      using cov_step_other [OF step(1)] cov_step_other [OF step(2)] last(2)
        m' p' conf by (auto simp: L cov_simps)
  qed
  then show ?thesis using post last(3-) conf(1) m' len by (auto simp: merge_post_def L)
qed

definition merge_ok :: "posix_lock list \<Rightarrow> posix_lock \<Rightarrow> bool" where
  "merge_ok L lock \<longleftrightarrow> (\<exists>L'. insert_and_merge L lock = Some L' \<and> merge_post L lock L')"

lemma merge_ok_no_stop:
  assumes "list_split_first (merge_stops lock) L = None"
    and wf: "ext_wf L" and v: "lk_valid lock" and nb: "\<not> blocked lock"
  shows "merge_ok L lock"
proof -
  let ?L' = "if fl_type lock \<noteq> F_UNLCK then insert_lock L lock else L"
  have no: "\<not> merge_stops lock l" if "l \<in> set L" for l
    using assms(1) that by (simp add: list_split_first_None_iff)
  have own: "cov L (lk_key lock) b = {}" if "covers lock b" for b
    using no that wf v by (fastforce simp: cov_def merge_stops_def same_owner_key
        locks_overlap_iff ext_wf_def)
  have "cov_step L lock ?L'"
    by (rule cov_stepI, cases "fl_type lock")
      (use own nb in \<open>auto simp: held_step_def held_out_def insert_lock_def list_add_tail_def
        cov_simps\<close>)
  then have "merge_post L lock ?L'"
    using wf v nb by (auto simp: merge_post_def insert_lock_def list_add_tail_def)
  then show ?thesis using assms(1) unfolding merge_ok_def by (subst insert_and_merge.simps) auto
qed

lemma merge_ok_reader:
  assumes "list_split_first (merge_stops lock) L = Some (pre, conf, post)"
    and "\<not> same_owner conf lock"
    and wf: "ext_wf L" and v: "lk_valid lock" and nb: "\<not> blocked lock"
  shows "merge_ok L lock"
proof -
  have rd: "fl_type lock = F_RDLCK"
    using list_split_first_SomeD [OF assms(1)] assms(2) by (auto simp: merge_stops_def)
  have "merge_post L lock (insert_lock L lock)"
    using wf v nb rd
    by (auto simp: merge_post_def insert_lock_def list_add_tail_def cov_simps held_step_def
        held_out_def intro!: cov_stepI)
  then show ?thesis using assms(1,2) unfolding merge_ok_def by (subst insert_and_merge.simps) auto
qed

lemma merge_stop_facts:
  assumes sp: "list_split_first (merge_stops lock) L = Some (pre, conf, post)" and wf: "ext_wf L"
  shows "L = pre @ conf # post" "\<not> blocked conf" "locks_overlap conf lock" "lk_valid conf"
    "fl_type conf \<noteq> F_UNLCK" "ext_wf (pre @ post)"
    "lk_weight L = lk_weight (pre @ post) + lk_len conf"
  using list_split_first_SomeD [OF sp] wf by (auto simp: merge_stops_def)

text \<open>Smaller instances the recursive calls are made on.\<close>

definition merge_ok_below :: "nat \<Rightarrow> bool" where
  "merge_ok_below n \<longleftrightarrow> (\<forall>L l. lk_weight L + lk_len l < n \<longrightarrow> ext_wf L \<longrightarrow> lk_valid l \<longrightarrow>
     \<not> blocked l \<longrightarrow> merge_ok L l)"

lemma merge_ok_belowE:
  assumes "merge_ok_below n" "lk_weight L + lk_len l < n" "ext_wf L" "lk_valid l" "\<not> blocked l"
  obtains L' where "insert_and_merge L (set_user_flock l) = Some L'"
    "merge_post L (set_user_flock l) L'"
  using assms unfolding merge_ok_below_def merge_ok_def
  by (metis set_user_flock_fields(4,10,11))

lemma merge_ok_own_same:
  assumes sp: "list_split_first (merge_stops lock) L = Some (pre, conf, post)"
    and so: "same_owner conf lock" and same: "fl_type conf = fl_type lock"
    and wf: "ext_wf L" and v: "lk_valid lock"
    and IH: "merge_ok_below (lk_weight L + lk_len lock)"
  shows "merge_ok L lock"
proof -
  note F = merge_stop_facts [OF sp wf]
  have k: "lk_key conf = lk_key lock" using so by (simp add: same_owner_key)
  have "lk_weight (pre @ post) + lk_len (sum_as lock conf lock) < lk_weight L + lk_len lock"
    using sum_len [OF v F(4,3), of lock] F(7) by simp
  then obtain L' where
    "insert_and_merge (pre @ post) (set_user_flock (sum_as lock conf lock)) = Some L'"
    "merge_post (pre @ post) (set_user_flock (sum_as lock conf lock)) L'"
    using merge_ok_belowE [OF IH _ F(6) sum_valid [OF v]] by auto
  then show ?thesis
    using sp so same merge_post_same [OF F(1) wf v F(2,3) k same] unfolding merge_ok_def
    by (subst insert_and_merge.simps) auto
qed

lemma merge_ok_own_diff:
  assumes sp: "list_split_first (merge_stops lock) L = Some (pre, conf, post)"
    and so: "same_owner conf lock" and diff: "fl_type conf \<noteq> fl_type lock"
    and wf: "ext_wf L" and v: "lk_valid lock" and nb: "\<not> blocked lock"
    and IH: "merge_ok_below (lk_weight L + lk_len lock)"
  shows "merge_ok L lock"
proof -
  note F = merge_stop_facts [OF sp wf]
  have k: "lk_key conf = lk_key lock" using so by (simp add: same_owner_key)
  have lock_pos: "0 < lk_len lock" using v by (simp add: lk_len_def lk_valid_def)
  note E = merge_ok_belowE [OF IH]
  note U = merge_post_split [OF F(1) wf F(2) k diff]
  show ?thesis using v F(4,3) nb k
  proof (cases rule: subtract_cases)
    case (whole m)
    have mf: "lk_len m = lk_len lock" "lk_valid m" "\<not> blocked m" "0 < lk_len conf"
      using whole(2) F(4) by (auto simp: lk_main_def lk_len_def lk_valid_def)
    obtain L' where L': "insert_and_merge (pre @ post) (set_user_flock m) = Some L'"
        "merge_post (pre @ post) (set_user_flock m) L'"
      using E [OF _ F(6) mf(2,3)] F(7) mf by auto
    have "merge_post L lock L'"
      by (rule merge_post_whole [OF F(1) wf F(2) k diff whole(2,3) L'(2)])
    then show ?thesis using sp so diff whole(1) L'(1) unfolding merge_ok_def
      by (subst insert_and_merge.simps) (auto simp: merge_post_def delete_unlck_id)
  next
    case (edge p m)
    have pm: "lk_valid p" "\<not> blocked p" "lk_valid m" "\<not> blocked m" "lk_len m = lk_len lock"
      using edge(2,3) by (auto simp: lk_main_def lk_piece_def lk_len_def)
    obtain L0 where L0: "insert_and_merge (pre @ post) (set_user_flock p) = Some L0"
        "merge_post (pre @ post) (set_user_flock p) L0"
      using E [OF _ F(6) pm(1,2)] F(7) edge(5) by auto
    obtain L1 where L1: "insert_and_merge L0 (set_user_flock m) = Some L1"
        "merge_post L0 (set_user_flock m) L1"
      using E [OF _ _ pm(3,4), of L0] L0(2) F(7) edge(5) pm(5) by (auto simp: merge_post_def)
    have "merge_post L lock L1"
      by (rule U [OF edge(2,3), where n = 0 and ?in2.0 = "\<lambda>_. False", OF _ _ _ L0(2) L1(2)])
        (use edge(4,5) L1(2) in \<open>auto simp: held_step_def held_out_def merge_post_def\<close>)
    then show ?thesis using sp so diff edge(1) L0(1) L1(1) unfolding merge_ok_def
      by (subst insert_and_merge.simps) (auto simp: merge_post_def delete_unlck_id)
  next
    case (inner p m q)
    have pm: "lk_valid p" "\<not> blocked p" "lk_valid m" "\<not> blocked m" "lk_len m = lk_len lock"
      "lk_valid q" "\<not> blocked q" "lk_key q = lk_key lock" "fl_type q = fl_type conf"
      using inner(2,3,4) k by (auto simp: lk_main_def lk_piece_def lk_len_def)
    obtain L0 where L0: "insert_and_merge (pre @ post) (set_user_flock p) = Some L0"
        "merge_post (pre @ post) (set_user_flock p) L0"
      using E [OF _ F(6) pm(1,2)] F(7) inner(6) by auto
    obtain L1 where L1: "insert_and_merge L0 (set_user_flock m) = Some L1"
        "merge_post L0 (set_user_flock m) L1"
      using E [OF _ _ pm(3,4), of L0] L0(2) F(7) inner(6) pm(5) by (auto simp: merge_post_def)
    obtain L2 where L2: "insert_and_merge L1 (set_user_flock q) = Some L2"
        "merge_post L1 (set_user_flock q) L2" "cov_step L1 (set_user_flock q) L2"
      using E [OF _ _ pm(6,7), of L1] L0(2) L1(2) F(7) inner(6) pm(5)
      by (auto simp: merge_post_def)
    have "merge_post L lock L2"
      by (rule U [OF inner(2,3), where n = "lk_len q" and ?in2.0 = "covers q", OF _ _ _ L0(2) L1(2)])
        (use inner(4,5,6) L2(2) cov_step_own [OF L2(3)] cov_step_other [OF L2(3)] pm(8,9)
          in \<open>auto simp: lk_piece_def merge_post_def\<close>)
    then show ?thesis using sp so diff inner(1) L0(1) L1(1) L2(1) unfolding merge_ok_def
      by (subst insert_and_merge.simps) (auto simp: merge_post_def delete_unlck_id)
  qed
qed

lemma insert_and_merge_ok:
  assumes "ext_wf L" "lk_valid lock" "\<not> blocked lock"
  shows "merge_ok L lock"
  using assms
proof (induction "lk_weight L + lk_len lock" arbitrary: L lock rule: less_induct)
  case less
  then have IH: "merge_ok_below (lk_weight L + lk_len lock)"
    by (auto simp: merge_ok_below_def)
  show ?case
  proof (cases "list_split_first (merge_stops lock) L")
    case None
    then show ?thesis using less.prems by (rule merge_ok_no_stop)
  next
    case (Some a)
    then obtain pre conf post where
      "list_split_first (merge_stops lock) L = Some (pre, conf, post)" by (cases a) auto
    then show ?thesis
      using merge_ok_reader merge_ok_own_same merge_ok_own_diff less.prems IH by metis
  qed
qed

end
