(* ===== verification/Locks_Posix_Grant.thy ===== *)
theory Locks_Posix_Grant
  imports Locks_Posix_Merge
begin

text \<open>
  Exclusion between owners, the retry of waiting locks (grant_blocked_locks), and the
  handlers built on it: pl_setlk with its preliminary unlock, pl_flush and the release of a
  descriptor's locks.  Each is shown to return, to keep exclusion, to leave no waiter on a
  free range, and to answer exactly the frames that leave the queue.
\<close>


section \<open>Exclusion\<close>

definition excl :: "posix_lock list \<Rightarrow> bool" where
  "excl L \<longleftrightarrow> (\<forall>k k' b. k \<noteq> k' \<longrightarrow> F_WRLCK \<in> cov L k b \<longrightarrow> cov L k' b = {})"

definition ext_inv :: "posix_lock list \<Rightarrow> bool" where
  "ext_inv L \<longleftrightarrow> ext_wf L \<and> excl L"

lemma exclD: "excl L \<Longrightarrow> F_WRLCK \<in> cov L k b \<Longrightarrow> k \<noteq> k' \<Longrightarrow> cov L k' b = {}"
  by (auto simp: excl_def)

lemma is_lock_grantable_iff:
  "is_lock_grantable L lock \<longleftrightarrow>
     (\<forall>l \<in> set L. \<not> (\<not> blocked l \<and> locks_overlap lock l \<and>
        (fl_type l = F_WRLCK \<or> fl_type lock = F_WRLCK) \<and> fl_type lock \<noteq> F_UNLCK \<and>
        \<not> same_owner l lock))"
  by (induction L) auto

lemma grantable_bytes:
  assumes "ext_wf L" "lk_valid lock"
  shows "is_lock_grantable L lock \<longleftrightarrow>
    (\<forall>k b. covers lock b \<longrightarrow> k \<noteq> lk_key lock \<longrightarrow>
       (fl_type lock = F_WRLCK \<longrightarrow> cov L k b = {}) \<and>
       (fl_type lock = F_RDLCK \<longrightarrow> F_WRLCK \<notin> cov L k b))"
    (is "?G \<longleftrightarrow> ?B")
proof
  assume G: ?G
  show ?B
  proof (intro allI impI)
    fix k b assume b: "covers lock b" and k: "k \<noteq> lk_key lock"
    have *: "\<not> ((fl_type l = F_WRLCK \<or> fl_type lock = F_WRLCK) \<and> fl_type lock \<noteq> F_UNLCK)"
      if "l \<in> set L" "\<not> blocked l" "lk_key l = k" "covers l b" for l
    proof -
      have "locks_overlap lock l"
        using that b assms locks_overlap_iff [of lock l] by (auto simp: ext_wf_def)
      then show ?thesis using G that k by (auto simp: is_lock_grantable_iff same_owner_key)
    qed
    then show "(fl_type lock = F_WRLCK \<longrightarrow> cov L k b = {}) \<and>
      (fl_type lock = F_RDLCK \<longrightarrow> F_WRLCK \<notin> cov L k b)"
      by (cases "fl_type lock") (auto simp: cov_def dest!: sym [of F_WRLCK])
  qed
next
  assume B: ?B
  show ?G unfolding is_lock_grantable_iff
  proof (intro ballI notI)
    fix l assume l: "l \<in> set L" and h: "\<not> blocked l \<and> locks_overlap lock l \<and>
        (fl_type l = F_WRLCK \<or> fl_type lock = F_WRLCK) \<and> fl_type lock \<noteq> F_UNLCK \<and>
        \<not> same_owner l lock"
    then obtain b where b: "covers lock b" "covers l b"
      using assms locks_overlap_iff [of lock l] by (auto simp: ext_wf_def)
    then have "fl_type l \<in> cov L (lk_key l) b" using l h by (auto simp: cov_def)
    then show False using B b h by (cases "fl_type lock") (auto simp: same_owner_key)
  qed
qed

lemma excl_step:
  assumes ex: "excl L" and wf: "ext_wf L" and v: "lk_valid lock"
    and g: "is_lock_grantable L lock" and st: "cov_step L lock L'"
  shows "excl L'"
  unfolding excl_def
proof (intro allI impI)
  fix k k' b
  assume ne: "k \<noteq> k'" and w: "F_WRLCK \<in> cov L' k b"
  note B = g [unfolded grantable_bytes [OF wf v], rule_format, of b]
  note own = cov_step_own [OF st, of b]
  show "cov L' k' b = {}"
  proof (cases "k = lk_key lock")
    case True
    then have "cov L' k' b = cov L k' b" using ne cov_step_other [OF st] by simp
    moreover have "cov L k' b = {}"
      using own w True ne exclD [OF ex, of "lk_key lock" b k'] B [of k']
      by (cases "covers lock b"; cases "fl_type lock") (auto simp: held_step_def held_out_def)
    ultimately show ?thesis by simp
  next
    case False
    then have wL: "F_WRLCK \<in> cov L k b" using w cov_step_other [OF st] by simp
    then have e: "cov L k' b = {}" using ex ne by (auto simp: excl_def)
    show ?thesis
    proof (cases "k' = lk_key lock")
      case True
      then show ?thesis using own e wL False B [of k]
        by (cases "covers lock b"; cases "fl_type lock") (auto simp: held_step_def held_out_def)
    next
      case False
      then show ?thesis using e cov_step_other [OF st] by simp
    qed
  qed
qed

lemma insert_and_merge_inv:
  assumes "ext_inv L" "lk_valid lock" "\<not> blocked lock" "is_lock_grantable L lock"
  obtains L' where "insert_and_merge L lock = Some L'" "ext_inv L'"
    "filter blocked L' = filter blocked L" "cov_step L lock L'"
  using insert_and_merge_ok [of L lock] excl_step [of L lock] assms
  unfolding merge_ok_def merge_post_def ext_inv_def by blast

lemma cov_insert_blocked [simp]: "blocked l \<Longrightarrow> cov (insert_lock L l) k b = cov L k b"
  by (simp add: insert_lock_def list_add_tail_def cov_simps)

lemma ext_inv_insert_blocked:
  "ext_inv L \<Longrightarrow> lk_valid l \<Longrightarrow> fl_type l \<noteq> F_UNLCK \<Longrightarrow> blocked l \<Longrightarrow> ext_inv (insert_lock L l)"
  by (auto simp: ext_inv_def excl_def) (auto simp: insert_lock_def list_add_tail_def)

lemma ext_inv_filter:
  assumes "ext_inv L"
  shows "ext_inv (filter P L)"
proof -
  have sub: "cov (filter P L) k b \<subseteq> cov L k b" for k b by (auto simp: cov_def)
  have "excl (filter P L)" unfolding excl_def
  proof (intro allI impI)
    fix k k' b assume "k \<noteq> k'" "F_WRLCK \<in> cov (filter P L) k b"
    then have "cov L k' b = {}" using exclD [of L k b k'] sub assms by (auto simp: ext_inv_def)
    then show "cov (filter P L) k' b = {}" using sub by blast
  qed
  then show ?thesis using assms by (simp add: ext_inv_def ext_wf_def)
qed

section \<open>Waiting requests\<close>

text \<open>The frames waiting in the list, in queue order.\<close>

definition waiting :: "posix_lock list \<Rightarrow> addr multiset" where
  "waiting L = image_mset lk_frame (mset (filter blocked L))"

text \<open>A byte is held when some owner has a granted lock on it; a waiter is on a free range
  when no byte of it is held.\<close>

definition on_held_range :: "posix_lock list \<Rightarrow> posix_lock \<Rightarrow> bool" where
  "on_held_range L l \<longleftrightarrow> (\<exists>k b. covers l b \<and> cov L k b \<noteq> {})"

lemma on_held_range_iff:
  assumes "ext_wf L" "lk_valid l"
  shows "on_held_range L l \<longleftrightarrow> (\<exists>x \<in> set L. \<not> blocked x \<and> locks_overlap x l)"
proof -
  have "locks_overlap x l \<longleftrightarrow> (\<exists>b. covers l b \<and> covers x b)" if "x \<in> set L" for x
    using locks_overlap_iff [of x l] that assms by (auto simp: ext_wf_def)
  then show ?thesis by (auto simp: on_held_range_def cov_def)
qed

lemma first_overlap_held:
  assumes "ext_wf L" "lk_valid l"
  shows "first_overlap L l \<noteq> None \<longleftrightarrow> on_held_range L l"
  unfolding on_held_range_iff [OF assms] first_overlap_def find_None_iff by blast

lemma on_held_range_step:
  assumes "on_held_range L l" "cov_step L lock L'" "fl_type lock \<noteq> F_UNLCK"
  shows "on_held_range L' l"
proof -
  from assms(1) obtain k b where b: "covers l b" "cov L k b \<noteq> {}"
    by (auto simp: on_held_range_def)
  have "cov L' k b \<noteq> {}"
  proof (cases "k = lk_key lock")
    case True
    then show ?thesis using cov_step_own [OF assms(2), of b] b assms(3)
      by (cases "fl_type lock") (auto simp: held_step_def held_out_def split: if_splits)
  next
    case False
    then show ?thesis using cov_step_other [OF assms(2)] b by simp
  qed
  then show ?thesis using b by (auto simp: on_held_range_def)
qed

definition waiters_on_held :: "posix_lock list \<Rightarrow> bool" where
  "waiters_on_held L \<longleftrightarrow> (\<forall>l \<in> set L. blocked l \<longrightarrow> on_held_range L l)"

definition grant_cand_ok :: "posix_lock \<Rightarrow> bool" where
  "grant_cand_ok l \<longleftrightarrow> lk_valid l \<and> fl_type l \<noteq> F_UNLCK \<and> \<not> blocked l"

lemma not_grantable_held:
  assumes "ext_wf L" "lk_valid l" "\<not> is_lock_grantable L l"
  shows "on_held_range L l"
  using assms unfolding grantable_bytes [OF assms(1,2)] on_held_range_def by blast

lemma set_blockedD:
  assumes "filter blocked L' = filter blocked L" "l \<in> set L'" "blocked l"
  shows "l \<in> set L"
proof -
  have "l \<in> set (filter blocked L')" using assms(2,3) by simp
  then show ?thesis unfolding assms(1) by simp
qed

text \<open>Granting the candidates \<open>ls\<close> leaves every byte outside their ranges to the holders that
  had it.\<close>

definition grant_keeps :: "posix_lock list \<Rightarrow> posix_lock list \<Rightarrow> posix_lock list \<Rightarrow> bool" where
  "grant_keeps L ls L' \<longleftrightarrow>
     (\<forall>k b. (\<forall>l \<in> set ls. \<not> covers l b) \<longrightarrow> held_out (cov L k b) (cov L' k b))"

text \<open>Every byte a holder has gained was covered by one of its candidates.\<close>

definition grant_from :: "posix_lock list \<Rightarrow> posix_lock list \<Rightarrow> posix_lock list \<Rightarrow> bool" where
  "grant_from L ls L' \<longleftrightarrow>
     (\<forall>k b. cov L' k b \<subseteq> cov L k b \<union> fl_type ` {l \<in> set ls. lk_key l = k \<and> covers l b})"

lemma cov_step_from:
  "cov_step L lock L' \<Longrightarrow>
     cov L' k b \<subseteq> cov L k b \<union> (if lk_key lock = k \<and> covers lock b then {fl_type lock} else {})"
  using cov_step_own [of L lock L' b] cov_step_other [of L lock L' k b]
  by (cases "k = lk_key lock"; cases "fl_type lock") (auto simp: held_step_def held_out_def split: if_splits)

lemma held_out_refl [simp]: "held_out C C"
  by (simp add: held_out_def)

lemma held_out_trans: "held_out A B \<Longrightarrow> held_out B C \<Longrightarrow> held_out A C"
  by (auto simp: held_out_def)

lemma cov_step_out: "cov_step L lock L' \<Longrightarrow> \<not> covers lock b \<Longrightarrow> held_out (cov L k b) (cov L' k b)"
  using cov_step_own [of L lock L' b] cov_step_other [of L lock L' k b]
  by (cases "k = lk_key lock") (simp_all add: held_step_def)

lemma grant_loop_ok:
  assumes "ext_inv L" "waiters_on_held L" "\<forall>l \<in> set ls. grant_cand_ok l"
  shows "\<exists>L' g. grant_loop L ls granted = Some (L', g @ granted) \<and> ext_inv L' \<and> waiters_on_held L' \<and>
    waiting L' + mset (map fst g) = waiting L + mset (map lk_frame ls) \<and> grant_keeps L ls L' \<and>
    grant_from L ls L'"
  using assms
proof (induction ls arbitrary: L granted)
  case Nil
  then show ?case by (auto simp: grant_keeps_def grant_from_def)
next
  case (Cons l ls)
  have l: "lk_valid l" "fl_type l \<noteq> F_UNLCK" "\<not> blocked l" "\<forall>l \<in> set ls. grant_cand_ok l"
    using Cons.prems(3) by (auto simp: grant_cand_ok_def)
  let ?l = "l\<lparr>lk_frame := NULL\<rparr>"
  have same: "lk_valid ?l" "\<not> blocked ?l" "fl_type ?l = fl_type l"
    "is_lock_grantable L ?l = is_lock_grantable L l"
    using l by (auto simp: lk_valid_def is_lock_grantable_iff locks_overlap_def same_owner_def)
  show ?case
  proof (cases "is_lock_grantable L l")
    case True
    then obtain L1 where L1: "insert_and_merge L ?l = Some L1" "ext_inv L1"
        "filter blocked L1 = filter blocked L" "cov_step L ?l L1"
      using insert_and_merge_inv [OF Cons.prems(1) same(1,2)] same(4) by auto
    have "waiters_on_held L1"
      unfolding waiters_on_held_def
    proof (intro ballI impI)
      fix x assume "x \<in> set L1" "blocked x"
      then have "on_held_range L x"
        using Cons.prems(2) set_blockedD [OF L1(3)] by (auto simp: waiters_on_held_def)
      then show "on_held_range L1 x" using on_held_range_step [OF _ L1(4)] l(2) same(3) by simp
    qed
    from Cons.IH [OF L1(2) this l(4),
        of "list_add (lk_frame l, posix_lock_to_flock l zero_flock) granted"]
    obtain L' g where "grant_loop L1 ls (list_add (lk_frame l, posix_lock_to_flock l zero_flock) granted)
        = Some (L', g @ list_add (lk_frame l, posix_lock_to_flock l zero_flock) granted)"
      "ext_inv L'" "waiters_on_held L'"
      "waiting L' + mset (map fst g) = waiting L1 + mset (map lk_frame ls)" "grant_keeps L1 ls L'"
      "grant_from L1 ls L'" by blast
    moreover from this(5) have "grant_keeps L (l # ls) L'"
      using cov_step_out [OF L1(4)] held_out_trans unfolding grant_keeps_def
      by (fastforce simp: covers_def)
    moreover have "grant_from L (l # ls) L'"
      unfolding grant_from_def
    proof (intro allI)
      fix k b
      show "cov L' k b \<subseteq> cov L k b \<union> fl_type ` {x \<in> set (l # ls). lk_key x = k \<and> covers x b}"
        using \<open>grant_from L1 ls L'\<close> [unfolded grant_from_def, rule_format, of k b]
          cov_step_from [OF L1(4), of k b]
        by (auto simp: lk_key_def covers_def split: if_splits)
    qed
    moreover have "waiting L1 = waiting L" using L1(3) by (simp add: waiting_def)
    ultimately show ?thesis using True L1(1)
      by (intro exI [of _ L'] exI [of _ "g @ [(lk_frame l, posix_lock_to_flock l zero_flock)]"])
        (auto simp: list_add_def)
  next
    case False
    let ?b = "l\<lparr>blocked := True\<rparr>"
    have b: "lk_valid ?b" "fl_type ?b \<noteq> F_UNLCK" using l by (auto simp: lk_valid_def)
    have inv: "ext_inv (insert_lock L ?b)" using ext_inv_insert_blocked [OF Cons.prems(1) b] by simp
    have cov_same: "cov (insert_lock L ?b) k b = cov L k b" for k b by simp
    have "on_held_range L l"
      using not_grantable_held Cons.prems(1) l(1) False by (auto simp: ext_inv_def)
    then have "waiters_on_held (insert_lock L ?b)"
      using Cons.prems(2) cov_same unfolding waiters_on_held_def on_held_range_def
      by (auto simp: insert_lock_def list_add_tail_def covers_def)
    from Cons.IH [OF inv this l(4), of granted] obtain L' g where
      "grant_loop (insert_lock L ?b) ls granted = Some (L', g @ granted)" "ext_inv L'"
      "waiters_on_held L'"
      "waiting L' + mset (map fst g) = waiting (insert_lock L ?b) + mset (map lk_frame ls)"
      "grant_keeps (insert_lock L ?b) ls L'" "grant_from (insert_lock L ?b) ls L'" by blast
    moreover from this(5) have "grant_keeps L (l # ls) L'" by (simp add: grant_keeps_def)
    moreover from calculation(6) have "grant_from L (l # ls) L'" by (fastforce simp: grant_from_def)
    moreover have "waiting (insert_lock L ?b) = waiting L + {#lk_frame l#}"
      by (simp add: waiting_def insert_lock_def list_add_tail_def)
    ultimately show ?thesis using False by auto
  qed
qed

lemma waiting_partition:
  "(\<And>x. P x \<Longrightarrow> blocked x) \<Longrightarrow>
     waiting (filter (\<lambda>l. \<not> P l) L) + mset (map lk_frame (filter P L)) = waiting L"
  by (induction L) (auto simp: waiting_def simp flip: mset_filter)

text \<open>Granting never takes a byte from a holder, and on bytes that were held it gives
  nothing new.\<close>

definition held_kept :: "posix_lock list \<Rightarrow> posix_lock list \<Rightarrow> bool" where
  "held_kept L L' \<longleftrightarrow> (\<forall>k k' b. cov L k' b \<noteq> {} \<longrightarrow> held_out (cov L k b) (cov L' k b))"

text \<open>Whatever a holder gains, it was waiting for.\<close>

definition gained_waiting :: "posix_lock list \<Rightarrow> posix_lock list \<Rightarrow> bool" where
  "gained_waiting L L' \<longleftrightarrow> (\<forall>k b. cov L' k b \<subseteq>
     cov L k b \<union> fl_type ` {l \<in> set L. blocked l \<and> lk_key l = k \<and> covers l b})"

lemma grant_blocked_locks_int_ok:
  assumes "ext_inv L"
  shows "\<exists>L' g. grant_blocked_locks_int L = Some (L', g) \<and> ext_inv L' \<and> waiters_on_held L' \<and>
    waiting L' + mset (map fst g) = waiting L \<and> held_kept L L' \<and> gained_waiting L L'"
proof -
  let ?K = "filter (\<lambda>l. \<not> grant_candidate L l) L"
  let ?C = "map (\<lambda>l. l\<lparr>blocked := False\<rparr>) (filter (grant_candidate L) L)"
  have wf: "ext_wf L" using assms by (simp add: ext_inv_def)
  have K: "ext_inv ?K" using assms by (rule ext_inv_filter)
  have covK: "cov ?K k b = cov L k b" for k b by (auto simp: cov_def grant_candidate_def)
  have "waiters_on_held ?K"
    unfolding waiters_on_held_def
  proof (intro ballI impI)
    fix l assume l: "l \<in> set ?K" "blocked l"
    then have "first_overlap L l \<noteq> None" "lk_valid l"
      using wf by (auto simp: grant_candidate_def ext_wf_def)
    then have "on_held_range L l" using first_overlap_held [OF wf] by blast
    then show "on_held_range ?K l" by (simp add: on_held_range_def covK)
  qed
  moreover have "\<forall>l \<in> set ?C. grant_cand_ok l"
    using wf by (auto simp: grant_cand_ok_def ext_wf_def lk_valid_def)
  ultimately obtain L' g where *: "grant_loop ?K ?C [] = Some (L', g @ [])" "ext_inv L'"
      "waiters_on_held L'" "waiting L' + mset (map fst g) = waiting ?K + mset (map lk_frame ?C)"
      "grant_keeps ?K ?C L'" "grant_from ?K ?C L'"
    using grant_loop_ok [OF K] by blast
  have "waiting ?K + mset (map lk_frame ?C) = waiting L"
    using waiting_partition [of "grant_candidate L" L] by (simp add: grant_candidate_def comp_def)
  moreover have "held_kept L L'"
    unfolding held_kept_def
  proof (intro allI impI)
    fix k k' b assume h: "cov L k' b \<noteq> {}"
    have "\<not> covers l b" if "l \<in> set ?C" for l
    proof
      from that obtain c where c: "c \<in> set L" "grant_candidate L c" "l = c\<lparr>blocked := False\<rparr>"
        by auto
      assume "covers l b"
      then have "on_held_range L c" using h c(3) by (auto simp: on_held_range_def covers_def)
      moreover have "lk_valid c" using c(1) wf by (simp add: ext_wf_def)
      ultimately show False using first_overlap_held [OF wf] c(2) unfolding grant_candidate_def by metis
    qed
    then show "held_out (cov L k b) (cov L' k b)"
      using *(5) covK unfolding grant_keeps_def by metis
  qed
  moreover have "gained_waiting L L'"
    unfolding gained_waiting_def
  proof (intro allI)
    fix k b
    show "cov L' k b \<subseteq> cov L k b \<union> fl_type ` {l \<in> set L. blocked l \<and> lk_key l = k \<and> covers l b}"
      using *(6) [unfolded grant_from_def, rule_format, of k b] covK [of k b]
      by (auto simp: lk_key_def covers_def grant_candidate_def)
  qed
  ultimately show ?thesis using * by (auto simp: grant_blocked_locks_int_def)
qed

section \<open>Setting a lock\<close>

text \<open>The requests pl_lk passes on: made by new_posix_lock from a flock with a nonnegative
  start and length whose end does not overflow, with that flock as user_flock.\<close>

definition lk_request :: "posix_lock \<Rightarrow> bool" where
  "lk_request l \<longleftrightarrow> \<not> blocked l \<and> client l \<noteq> NULL \<and> lk_fd l \<noteq> NULL \<and>
     0 \<le> fl_start l \<and> fl_start l \<le> fl_end l \<and> fl_end l \<le> LLONG_MAX \<and>
     l_start (user_flock l) = fl_start l \<and>
     l_len (user_flock l) = (if fl_end l = LLONG_MAX then 0 else fl_end l - fl_start l + 1)"

fun lk_replies :: "pl_event list \<Rightarrow> addr list" where
  "lk_replies [] = []"
| "lk_replies (UnwindLk fr r e fl # evs) = fr # lk_replies evs"
| "lk_replies (_ # evs) = lk_replies evs"

lemma lk_replies_append [simp]: "lk_replies (xs @ ys) = lk_replies xs @ lk_replies ys"
  by (induction xs rule: lk_replies.induct) auto

lemma lk_replies_granted [simp]: "lk_replies (unwind_granted g) = map fst g"
  by (induction g) (auto simp: unwind_granted_def)

lemma lk_replies_stubs [simp]: "lk_replies (map (\<lambda>rw. ResumeStub (f rw) (h rw)) xs) = []"
  by (induction xs) auto

lemma lk_replies_blocked [simp]:
  "lk_replies (map (\<lambda>l. UnwindLk (lk_frame l) r e (user_flock l)) xs) = map lk_frame xs"
  by (induction xs) auto

lemma do_blocked_rw_ext [simp]:
  "ext_list (fst (do_blocked_rw p)) = ext_list p" "lk_replies (snd (do_blocked_rw p)) = []"
  by (simp_all add: do_blocked_rw_def Let_def)

lemma unlck_grantable: "fl_type lock = F_UNLCK \<Longrightarrow> is_lock_grantable L lock"
  by (induction L) auto

lemma prelock_unlock_ok:
  assumes inv: "ext_inv L" and rq: "lk_request lock"
  obtains L' ev where "pl_send_prelock_unlock L lock = Some (0, L', ev)" "ext_inv L'"
    "waiting L' + mset (lk_replies ev) = waiting L"
proof -
  define u where "u = zero_lock\<lparr>fl_start := fl_start lock, fl_type := F_UNLCK,
     fl_end := fl_end lock, client := client lock, fd_num := fd_to_fdnum (lk_fd lock),
     lk_fd := lk_fd lock, client_pid := client_pid lock, owner := owner lock\<rparr>"
  have new: "new_posix_lock (zero_flock\<lparr>l_type := F_UNLCK,
                             l_whence := l_whence (user_flock lock),
                             l_start := l_start (user_flock lock),
                             l_len := l_len (user_flock lock)\<rparr>)
             (client lock) (client_pid lock) (owner lock) (lk_fd lock) = Some u"
    using rq unfolding lk_request_def by (auto simp: new_posix_lock_def u_def)
  have u: "lk_valid u" "\<not> blocked u" "is_lock_grantable L u"
    using rq by (auto simp: u_def lk_valid_def zero_lock_def lk_request_def intro: unlck_grantable)
  obtain L1 where L1: "insert_and_merge L u = Some L1" "ext_inv L1"
      "filter blocked L1 = filter blocked L"
    using insert_and_merge_inv [OF inv u] by metis
  obtain L2 g where L2: "grant_blocked_locks_int L1 = Some (L2, g)" "ext_inv L2"
      "waiting L2 + mset (map fst g) = waiting L1"
    using grant_blocked_locks_int_ok [OF L1(2)] by metis
  show thesis
    using that [of L2 "unwind_granted g"] L1 L2 new
    by (simp add: pl_send_prelock_unlock_def waiting_def)
qed

text \<open>What the critical section of pl_setlk does to the coverage when the request is granted:
  the request takes effect on a list with the invariant (the list the prelock unlock left).\<close>

lemma setlk_section_ok:
  assumes inv: "ext_inv L" and rq: "lk_request lock"
  obtains ret L' ev where "setlk_section L lock can_block = Some (ret, L', ev)" "ext_inv L'"
    "ret = 0 \<or> ret = -1"
    "waiting L' + mset (lk_replies ev) =
       waiting L + (if ret = -1 \<and> can_block then {#lk_frame lock#} else {#})"
    "ret = 0 \<Longrightarrow> \<exists>L1. ext_inv L1 \<and> is_lock_grantable L1 lock \<and> cov_step L1 lock L'"
    "ret = -1 \<Longrightarrow> fl_type lock \<noteq> F_UNLCK \<and> \<not> is_lock_grantable L lock"
proof -
  have v: "lk_valid lock" "\<not> blocked lock" using rq by (auto simp: lk_request_def lk_valid_def)
  obtain L1 ev where L1: "(if can_block \<and> \<not> is_lock_grantable L lock
                  then pl_send_prelock_unlock L lock else Some (0, L, [])) = Some (0, L1, ev)"
      "ext_inv L1" "waiting L1 + mset (lk_replies ev) = waiting L"
      "is_lock_grantable L lock \<Longrightarrow> L1 = L" "\<not> can_block \<Longrightarrow> L1 = L"
    using inv by (cases "can_block \<and> \<not> is_lock_grantable L lock")
      (auto intro: prelock_unlock_ok [OF inv rq])
  show thesis
  proof (cases "is_lock_grantable L1 lock")
    case True
    then obtain L2 where "insert_and_merge L1 lock = Some L2" "ext_inv L2"
        "filter blocked L2 = filter blocked L1" "cov_step L1 lock L2"
      using insert_and_merge_inv [OF L1(2) v] by metis
    then show thesis using that [of 0 L2 ev] True L1
      by (fastforce simp: setlk_section_def waiting_def)
  next
    case False
    then have ty: "fl_type lock \<noteq> F_UNLCK" "\<not> is_lock_grantable L lock"
      using unlck_grantable L1(4) by auto
    have "ext_inv (insert_lock L1 (lock\<lparr>blocked := True\<rparr>))"
      by (rule ext_inv_insert_blocked) (use L1(2) v ty in \<open>auto simp: lk_valid_def\<close>)
    moreover have "waiting (insert_lock L1 (lock\<lparr>blocked := True\<rparr>)) = waiting L1 + {#lk_frame lock#}"
      by (simp add: waiting_def insert_lock_def list_add_tail_def)
    ultimately show thesis using that False L1 ty
      by (cases can_block) (auto simp: setlk_section_def)
  qed
qed

lemma grant_blocked_locks_ok:
  assumes "ext_inv (ext_list p)"
  obtains p' ev where "grant_blocked_locks p = Some (p', ev)" "ext_inv (ext_list p')"
    "waiters_on_held (ext_list p')" "waiting (ext_list p') + mset (lk_replies ev) = waiting (ext_list p)"
    "held_kept (ext_list p) (ext_list p')" "gained_waiting (ext_list p) (ext_list p')"
proof -
  obtain L' g where "grant_blocked_locks_int (ext_list p) = Some (L', g)" "ext_inv L'"
      "waiters_on_held L'" "waiting L' + mset (map fst g) = waiting (ext_list p)"
      "held_kept (ext_list p) L'" "gained_waiting (ext_list p) L'"
    using grant_blocked_locks_int_ok [OF assms] by metis
  then show thesis using that [of "p\<lparr>ext_list := L'\<rparr>" "unwind_granted g"]
    by (simp add: grant_blocked_locks_def)
qed

text \<open>The common tail of pl_setlk, pl_flush and delete_locks_of_fd.\<close>

definition grant_and_resume :: "pl_inode \<Rightarrow> (pl_inode \<times> pl_event list) option" where
  "grant_and_resume p =
     Option.bind (grant_blocked_locks p) (\<lambda>(p2, ev2).
       case do_blocked_rw p2 of (p3, ev3) \<Rightarrow> Some (p3, ev2 @ ev3))"

lemma grant_and_resume_ok:
  assumes "ext_inv (ext_list p)"
  obtains p' ev where "grant_and_resume p = Some (p', ev)" "ext_inv (ext_list p')"
    "waiters_on_held (ext_list p')" "waiting (ext_list p') + mset (lk_replies ev) = waiting (ext_list p)"
    "held_kept (ext_list p) (ext_list p')" "gained_waiting (ext_list p) (ext_list p')"
proof -
  obtain p2 ev2 where 2: "grant_blocked_locks p = Some (p2, ev2)" "ext_inv (ext_list p2)"
    "waiters_on_held (ext_list p2)" "waiting (ext_list p2) + mset (lk_replies ev2) = waiting (ext_list p)"
    "held_kept (ext_list p) (ext_list p2)" "gained_waiting (ext_list p) (ext_list p2)"
    using grant_blocked_locks_ok [OF assms] by metis
  then show thesis
    using that [of "fst (do_blocked_rw p2)" "ev2 @ snd (do_blocked_rw p2)"]
    by (simp add: grant_and_resume_def case_prod_beta)
qed

lemma pl_setlk_alt:
  "pl_setlk p lock can_block =
     Option.bind (setlk_section (ext_list p) lock can_block) (\<lambda>(ret, L, ev1).
       map_option (\<lambda>(p', ev). (ret, p', ev1 @ ev)) (grant_and_resume (p\<lparr>ext_list := L\<rparr>)))"
  by (auto simp: pl_setlk_def grant_and_resume_def split: option.splits prod.splits bind_splits)

lemma pl_setlk_ok:
  assumes inv: "ext_inv (ext_list p)" and rq: "lk_request lock"
  obtains ret p' ev where "pl_setlk p lock can_block = Some (ret, p', ev)" "ext_inv (ext_list p')"
    "waiters_on_held (ext_list p')" "ret = 0 \<or> ret = -1"
    "waiting (ext_list p') + mset (lk_replies ev) =
       waiting (ext_list p) + (if ret = -1 \<and> can_block then {#lk_frame lock#} else {#})"
    "ret = 0 \<Longrightarrow> \<exists>L1 L2. ext_inv L1 \<and> is_lock_grantable L1 lock \<and> cov_step L1 lock L2 \<and>
        ext_inv L2 \<and> held_kept L2 (ext_list p')"
    "ret = -1 \<Longrightarrow> fl_type lock \<noteq> F_UNLCK \<and> \<not> is_lock_grantable (ext_list p) lock"
proof -
  obtain ret L ev1 where 1: "setlk_section (ext_list p) lock can_block = Some (ret, L, ev1)"
    "ext_inv L" "ret = 0 \<or> ret = -1"
    "waiting L + mset (lk_replies ev1) =
       waiting (ext_list p) + (if ret = -1 \<and> can_block then {#lk_frame lock#} else {#})"
    "ret = 0 \<Longrightarrow> \<exists>L1. ext_inv L1 \<and> is_lock_grantable L1 lock \<and> cov_step L1 lock L"
    "ret = -1 \<Longrightarrow> fl_type lock \<noteq> F_UNLCK \<and> \<not> is_lock_grantable (ext_list p) lock"
    using setlk_section_ok [OF inv rq, of can_block] by metis
  have "ext_inv (ext_list (p\<lparr>ext_list := L\<rparr>))" using 1(2) by simp
  from grant_and_resume_ok [OF this] obtain p' ev where 2:
    "grant_and_resume (p\<lparr>ext_list := L\<rparr>) = Some (p', ev)" "ext_inv (ext_list p')"
    "waiters_on_held (ext_list p')" "waiting (ext_list p') + mset (lk_replies ev) = waiting L"
    "held_kept L (ext_list p')" "gained_waiting L (ext_list p')" by auto
  have acc: "waiting (ext_list p') + mset (lk_replies (ev1 @ ev)) =
      waiting (ext_list p) + (if ret = -1 \<and> can_block then {#lk_frame lock#} else {#})"
    using 1(4) 2(4) by (metis ab_semigroup_add_class.add_ac(1) add.commute lk_replies_append mset_append)
  have "pl_setlk p lock can_block = Some (ret, p', ev1 @ ev)"
    using 1(1) 2(1) by (simp add: pl_setlk_alt)
  then show thesis using that 1 2 acc by blast
qed

section \<open>Releasing locks\<close>

lemma pl_flush_alt:
  "rt_lk_owner rt \<noteq> [] \<Longrightarrow> pl_flush p rt fd =
     map_option (\<lambda>(p', ev). (p', ev @ [WindFlush (frame_id rt)]))
       (grant_and_resume (p\<lparr>ext_list :=
          delete_locks_of_owner (ext_list p) (rt_client rt) (rt_lk_owner rt)\<rparr>))"
  by (auto simp: pl_flush_def grant_and_resume_def split: option.splits prod.splits bind_splits)

lemma delete_locks_of_fd_alt:
  "delete_locks_of_fd p fd =
     map_option (\<lambda>(p', ev). (p', map (\<lambda>l. UnwindLk (lk_frame l) (-1) EAGAIN (user_flock l))
          (filter (\<lambda>l. fd_num l = fd_to_fdnum fd \<and> blocked l) (ext_list p)) @ ev))
       (grant_and_resume (p\<lparr>ext_list := filter (\<lambda>l. fd_num l \<noteq> fd_to_fdnum fd) (ext_list p)\<rparr>))"
  by (auto simp: delete_locks_of_fd_def grant_and_resume_def Let_def
      split: option.splits prod.splits bind_splits)

lemma cov_delete_owner:
  "cov (delete_locks_of_owner L cl own) k b = (if k = Holder cl own then {} else cov L k b)"
  by (auto simp: cov_def delete_locks_of_owner_def lk_key_def)

lemma waiting_delete_owner: "waiting (delete_locks_of_owner L cl own) = waiting L"
  by (induction L) (auto simp: waiting_def delete_locks_of_owner_def simp flip: mset_filter)

lemma waiting_delete_fd:
  "waiting (filter (\<lambda>l. fd_num l \<noteq> n) L) +
     mset (map lk_frame (filter (\<lambda>l. fd_num l = n \<and> blocked l) L)) = waiting L"
  by (induction L) (auto simp: waiting_def simp flip: mset_filter)

lemma delete_locks_of_fd_ok:
  assumes inv: "ext_inv (ext_list p)"
  obtains p' ev where "delete_locks_of_fd p fd = Some (p', ev)" "ext_inv (ext_list p')"
    "waiters_on_held (ext_list p')"
    "waiting (ext_list p') + mset (lk_replies ev) = waiting (ext_list p)"
proof -
  let ?p = "p\<lparr>ext_list := filter (\<lambda>l. fd_num l \<noteq> fd_to_fdnum fd) (ext_list p)\<rparr>"
  have "ext_inv (ext_list ?p)" using ext_inv_filter [OF inv] by simp
  from grant_and_resume_ok [OF this] obtain p' ev where 2: "grant_and_resume ?p = Some (p', ev)"
    "ext_inv (ext_list p')" "waiters_on_held (ext_list p')"
    "waiting (ext_list p') + mset (lk_replies ev) = waiting (ext_list ?p)" by blast
  let ?ev = "map (\<lambda>l. UnwindLk (lk_frame l) (-1) EAGAIN (user_flock l))
          (filter (\<lambda>l. fd_num l = fd_to_fdnum fd \<and> blocked l) (ext_list p)) @ ev"
  have "waiting (ext_list p') + mset (lk_replies ?ev) = waiting (ext_list p)"
    using 2(4) waiting_delete_fd [of "fd_to_fdnum fd" "ext_list p"]
    by (simp add: ac_simps) (metis (no_types, lifting) add.commute union_assoc)
  then show thesis using that [of p' ?ev] 2 by (simp add: delete_locks_of_fd_alt)
qed

lemma pl_flush_ok:
  assumes inv: "ext_inv (ext_list p)"
  obtains p' ev where "pl_flush p rt fd = Some (p', ev)" "ext_inv (ext_list p')"
    "waiters_on_held (ext_list p')"
    "waiting (ext_list p') + mset (lk_replies ev) = waiting (ext_list p)"
    "rt_lk_owner rt \<noteq> [] \<Longrightarrow> held_kept (delete_locks_of_owner (ext_list p) (rt_client rt) (rt_lk_owner rt)) (ext_list p')"
    "rt_lk_owner rt \<noteq> [] \<Longrightarrow> gained_waiting (delete_locks_of_owner (ext_list p) (rt_client rt) (rt_lk_owner rt)) (ext_list p')"
proof (cases "rt_lk_owner rt = []")
  case True
  obtain p' ev where "delete_locks_of_fd p fd = Some (p', ev)" "ext_inv (ext_list p')"
    "waiters_on_held (ext_list p')"
    "waiting (ext_list p') + mset (lk_replies ev) = waiting (ext_list p)"
    using delete_locks_of_fd_ok [OF inv, of fd] by blast
  then show thesis using that [of p' "ev @ [WindFlush (frame_id rt)]"] True
    by (simp add: pl_flush_def)
next
  case False
  let ?p = "p\<lparr>ext_list := delete_locks_of_owner (ext_list p) (rt_client rt) (rt_lk_owner rt)\<rparr>"
  have "ext_inv (ext_list ?p)" using ext_inv_filter [OF inv] by (simp add: delete_locks_of_owner_def)
  from grant_and_resume_ok [OF this] obtain p' ev where 2: "grant_and_resume ?p = Some (p', ev)"
    "ext_inv (ext_list p')" "waiters_on_held (ext_list p')"
    "waiting (ext_list p') + mset (lk_replies ev) = waiting (ext_list ?p)"
    "held_kept (ext_list ?p) (ext_list p')" "gained_waiting (ext_list ?p) (ext_list p')" by blast
  then show thesis using that [of p' "ev @ [WindFlush (frame_id rt)]"] False
    by (simp add: pl_flush_alt waiting_delete_owner)
qed

end
