(* ===== verification/Locks_Posix_Props.thy ===== *)
theory Locks_Posix_Props
  imports Locks_Posix_Grant
begin

text \<open>
  The properties of record locks over every reachable state of an inode's lock list, with an
  example for each.
\<close>


section \<open>Reachable lock states\<close>

text \<open>The states of one inode's record locks under any sequence of the operations that
  change them, each started when the last has finished.\<close>

inductive lk_reachable :: "pl_inode \<Rightarrow> bool" where
  lk_init: "ext_list p = [] \<Longrightarrow> lk_reachable p"
| lk_setlk: "lk_reachable p \<Longrightarrow> lk_request lock \<Longrightarrow> pl_setlk p lock can_block = Some (ret, p', ev) \<Longrightarrow>
    lk_reachable p'"
| lk_flush: "lk_reachable p \<Longrightarrow> pl_flush p rt fd = Some (p', ev) \<Longrightarrow> lk_reachable p'"
| lk_release: "lk_reachable p \<Longrightarrow> delete_locks_of_fd p fd = Some (p', ev) \<Longrightarrow> lk_reachable p'"
| lk_rw: "lk_reachable p \<Longrightarrow> pl_rw fop priv_mandatory p rt fd o_nonblock offset len = (p', ev) \<Longrightarrow>
    lk_reachable p'"

lemma pl_rw_ext: "pl_rw fop m p rt fd nb off len = (p', ev) \<Longrightarrow> ext_list p' = ext_list p"
  by (auto simp: pl_rw_def Let_def split: if_splits)

lemma lk_reachable_inv: "lk_reachable p \<Longrightarrow> ext_inv (ext_list p) \<and> waiters_on_held (ext_list p)"
proof (induction rule: lk_reachable.induct)
  case (lk_init p)
  then show ?case by (simp add: ext_inv_def excl_def waiters_on_held_def)
next
  case (lk_setlk p lock can_block ret p' ev)
  then show ?case using pl_setlk_ok [of p lock can_block] by (metis option.inject prod.inject)
next
  case (lk_flush p rt fd p' ev)
  then show ?case using pl_flush_ok [of p rt fd] by (metis option.inject prod.inject)
next
  case (lk_release p fd p' ev)
  then show ?case using delete_locks_of_fd_ok [of p fd] by (metis option.inject prod.inject)
next
  case (lk_rw p fop priv_mandatory rt fd o_nonblock offset len p' ev)
  then show ?case using pl_rw_ext by simp
qed

lemmas lk_reachable_ext_inv = lk_reachable_inv [THEN conjunct1]

text \<open>A lock request of client \<open>c\<close> (owner byte \<open>c\<close>, descriptor 7, frame \<open>100 + c\<close>) for the
  examples.\<close>

definition sample_lock :: "nat \<Rightarrow> lk_type \<Rightarrow> int \<Rightarrow> int \<Rightarrow> posix_lock" where
  "sample_lock c t s e = zero_lock\<lparr>fl_type := t, fl_start := s, fl_end := e, client := c,
     owner := [of_nat c], lk_fd := 7, fd_num := 7, lk_frame := 100 + c,
     user_flock := zero_flock\<lparr>l_type := t, l_start := s, l_len := e - s + 1\<rparr>\<rparr>"

lemma sample_lock_fields [simp]:
  "fl_type (sample_lock c t s e) = t" "fl_start (sample_lock c t s e) = s"
  "fl_end (sample_lock c t s e) = e" "blocked (sample_lock c t s e) = False"
  "client (sample_lock c t s e) = c" "owner (sample_lock c t s e) = [of_nat c]"
  "fd_num (sample_lock c t s e) = 7" "lk_frame (sample_lock c t s e) = 100 + c"
  "lk_key (sample_lock c t s e) = Holder c [of_nat c]"
  "covers (sample_lock c t s e) b \<longleftrightarrow> s \<le> b \<and> b \<le> e"
  "lk_valid (sample_lock c t s e) \<longleftrightarrow> s \<le> e"
  by (simp_all add: sample_lock_def zero_lock_def lk_key_def covers_def lk_valid_def)

lemma sample_request:
  "c \<noteq> 0 \<Longrightarrow> 0 \<le> s \<Longrightarrow> s \<le> e \<Longrightarrow> e < LLONG_MAX \<Longrightarrow> lk_request (sample_lock c t s e)"
  by (simp add: lk_request_def sample_lock_def zero_lock_def)

definition sample_state :: pl_inode where
  "sample_state = pl_inode_new\<lparr>ext_list := [sample_lock 1 F_WRLCK 0 9]\<rparr>"

lemma sample_reachable: "lk_reachable sample_state"
proof (rule lk_setlk)
  show "lk_reachable pl_inode_new" by (rule lk_init) (simp add: pl_inode_new_def)
  show "lk_request (sample_lock 1 F_WRLCK 0 9)" by (rule sample_request) simp_all
  show "pl_setlk pl_inode_new (sample_lock 1 F_WRLCK 0 9) False = Some (0, sample_state, [])"
    by code_simp
qed

definition waiting_state :: pl_inode where
  "waiting_state = pl_inode_new\<lparr>ext_list :=
     [sample_lock 1 F_WRLCK 0 9, (sample_lock 2 F_RDLCK 5 20)\<lparr>blocked := True\<rparr>]\<rparr>"

lemma waiting_reachable: "lk_reachable waiting_state"
proof (rule lk_setlk [OF sample_reachable])
  show "lk_request (sample_lock 2 F_RDLCK 5 20)" by (rule sample_request) simp_all
  show "pl_setlk sample_state (sample_lock 2 F_RDLCK 5 20) True = Some (-1, waiting_state, [])"
    by code_simp
qed

section \<open>Properties\<close>





text \<open>C18: No lost wake-up on a free range: in every reachable state a request still waiting
  overlaps a lock that is held, so some later unlock, flush or release will look at it
  again.\<close>

theorem lk_waiter_overlaps_held:
  assumes "lk_reachable p" "l \<in> set (ext_list p)" "blocked l"
  shows "\<exists>x \<in> set (ext_list p). \<not> blocked x \<and> locks_overlap x l"
proof -
  have "ext_wf (ext_list p)" "on_held_range (ext_list p) l"
    using lk_reachable_inv assms by (auto simp: ext_inv_def waiters_on_held_def)
  then show ?thesis using on_held_range_iff assms(2) by (auto simp: ext_wf_def)
qed

theorem lk_waiter_overlaps_held_witness:
  "\<exists>x \<in> set (ext_list waiting_state). \<not> blocked x \<and>
     locks_overlap x ((sample_lock 2 F_RDLCK 5 20)\<lparr>blocked := True\<rparr>)"
  by (rule lk_waiter_overlaps_held [OF waiting_reachable]) (simp_all add: waiting_state_def)

text \<open>C19: Setting a lock always returns, with 0 or -1, and no lock request is lost or
  answered twice: the frames waiting before, plus the caller's when its call blocks, are
  exactly the frames still waiting and the frames replied to.\<close>

theorem pl_setlk_accounting:
  assumes "lk_reachable p" "lk_request lock"
  shows "\<exists>ret p' ev. pl_setlk p lock can_block = Some (ret, p', ev) \<and> (ret = 0 \<or> ret = -1) \<and>
    waiting (ext_list p') + mset (lk_replies ev) =
      waiting (ext_list p) + (if ret = -1 \<and> can_block then {#lk_frame lock#} else {#})"
  using pl_setlk_ok [OF lk_reachable_ext_inv [OF assms(1)] assms(2), of can_block] by metis

theorem pl_setlk_accounting_witness:
  "\<exists>ret p' ev. pl_setlk sample_state (sample_lock 2 F_RDLCK 5 20) True = Some (ret, p', ev) \<and>
    (ret = 0 \<or> ret = -1) \<and> waiting (ext_list p') + mset (lk_replies ev) =
      waiting (ext_list sample_state) +
        (if ret = -1 \<and> True then {#lk_frame (sample_lock 2 F_RDLCK 5 20)#} else {#})"
  by (rule pl_setlk_accounting [OF sample_reachable]) (simp add: sample_request)

text \<open>C20: When pl_setlk reports success the caller has the lock in the state it leaves: after
  a write lock every byte of the range is write-locked by the caller and by no one
  else, after a read lock every byte is held by the caller and write-locked by no one else.\<close>

theorem pl_setlk_granted:
  assumes "lk_reachable p" "lk_request lock" "pl_setlk p lock can_block = Some (0, p', ev)"
    and "covers lock b"
  shows "(fl_type lock = F_WRLCK \<longrightarrow> cov (ext_list p') (lk_key lock) b = {F_WRLCK} \<and>
            (\<forall>k. k \<noteq> lk_key lock \<longrightarrow> cov (ext_list p') k b = {})) \<and>
    (fl_type lock = F_RDLCK \<longrightarrow> cov (ext_list p') (lk_key lock) b \<noteq> {} \<and>
            (\<forall>k. k \<noteq> lk_key lock \<longrightarrow> F_WRLCK \<notin> cov (ext_list p') k b))"
proof -
  obtain L1 L2 where s: "cov_step L1 lock L2" "held_kept L2 (ext_list p')" "ext_inv (ext_list p')"
    using pl_setlk_ok [OF lk_reachable_ext_inv [OF assms(1)] assms(2), of can_block] assms(3)
    by (metis option.inject prod.inject)
  have st: "held_in (fl_type lock) (cov L1 (lk_key lock) b) (cov L2 (lk_key lock) b)"
    using cov_step_own [OF s(1), of b] assms(4) by (simp add: held_step_def)
  have kept: "cov L2 (lk_key lock) b \<noteq> {} \<Longrightarrow>
      held_out (cov L2 (lk_key lock) b) (cov (ext_list p') (lk_key lock) b)"
    using s(2) unfolding held_kept_def by blast
  have ex: "excl (ext_list p')" using s(3) by (simp add: ext_inv_def)
  show ?thesis
  proof (cases "fl_type lock")
    case F_WRLCK
    then have "cov (ext_list p') (lk_key lock) b = {F_WRLCK}"
      using st kept by (auto simp: held_out_def)
    then show ?thesis using F_WRLCK exclD [OF ex, of "lk_key lock" b] by simp
  next
    case F_RDLCK
    then have "cov (ext_list p') (lk_key lock) b \<noteq> {}" using st kept by (auto simp: held_out_def)
    then show ?thesis using F_RDLCK exclD [OF ex, of _ b "lk_key lock"] by auto
  qed simp
qed

theorem pl_setlk_granted_witness:
  "cov (ext_list sample_state) (lk_key (sample_lock 1 F_WRLCK 0 9)) 3 = {F_WRLCK}"
proof -
  have r: "lk_reachable pl_inode_new" by (rule lk_init) (simp add: pl_inode_new_def)
  have s: "pl_setlk pl_inode_new (sample_lock 1 F_WRLCK 0 9) False = Some (0, sample_state, [])"
    by code_simp
  show ?thesis
    using pl_setlk_granted [OF r _ s, of 3] by (simp add: sample_request)
qed

text \<open>C21: A request is refused or made to wait only because of a conflict: when pl_setlk
  returns -1 some byte of the range is held by another owner, with a write lock if the
  request is for a read lock; an unlock never fails.\<close>

theorem pl_setlk_refused:
  assumes "lk_reachable p" "lk_request lock" "pl_setlk p lock can_block = Some (ret, p', ev)"
    and "ret \<noteq> 0"
  shows "fl_type lock \<noteq> F_UNLCK \<and> (\<exists>k b. k \<noteq> lk_key lock \<and> covers lock b \<and>
    (if fl_type lock = F_WRLCK then cov (ext_list p) k b \<noteq> {}
     else F_WRLCK \<in> cov (ext_list p) k b))"
proof -
  have inv: "ext_inv (ext_list p)" using assms(1) by (rule lk_reachable_ext_inv)
  have n: "fl_type lock \<noteq> F_UNLCK" "\<not> is_lock_grantable (ext_list p) lock"
    using pl_setlk_ok [OF inv assms(2), of can_block] assms(3,4)
    by (metis option.inject prod.inject)+
  have v: "ext_wf (ext_list p)" "lk_valid lock"
    using inv assms(2) by (auto simp: ext_inv_def lk_request_def lk_valid_def)
  from n(2) show ?thesis unfolding grantable_bytes [OF v] using n(1)
    by (cases "fl_type lock") auto
qed

theorem pl_setlk_refused_witness:
  "fl_type (sample_lock 2 F_RDLCK 5 20) \<noteq> F_UNLCK \<and>
   (\<exists>k b. k \<noteq> lk_key (sample_lock 2 F_RDLCK 5 20) \<and> covers (sample_lock 2 F_RDLCK 5 20) b \<and>
    (if fl_type (sample_lock 2 F_RDLCK 5 20) = F_WRLCK then cov (ext_list sample_state) k b \<noteq> {}
     else F_WRLCK \<in> cov (ext_list sample_state) k b))"
proof (rule pl_setlk_refused [OF sample_reachable])
  show "lk_request (sample_lock 2 F_RDLCK 5 20)" by (rule sample_request) simp_all
  show "pl_setlk sample_state (sample_lock 2 F_RDLCK 5 20) True = Some (-1, waiting_state, [])"
    by code_simp
qed simp


text \<open>C23: A lock query answers truthfully: for a read or write request it returns F_UNLCK exactly when
  the request could be granted now, and otherwise a held lock of another owner that overlaps the
  request, one of the two being a write lock.\<close>

theorem pl_getlk_correct:
  assumes "ext_wf L" "fl_type lock \<noteq> F_UNLCK"
  shows "if is_lock_grantable L lock then pl_getlk L lock = lock\<lparr>fl_type := F_UNLCK\<rparr>
    else pl_getlk L lock \<in> set L \<and> \<not> blocked (pl_getlk L lock) \<and>
      locks_overlap (pl_getlk L lock) lock \<and> \<not> same_owner (pl_getlk L lock) lock \<and>
      (fl_type (pl_getlk L lock) = F_WRLCK \<or> fl_type lock = F_WRLCK) \<and>
      fl_type (pl_getlk L lock) \<noteq> F_UNLCK"
proof (cases "first_conflicting_overlap L lock")
  case None
  then have "is_lock_grantable L lock"
    by (auto simp: first_conflicting_overlap_def find_None_iff is_lock_grantable_iff locks_overlap_sym)
  then show ?thesis using None by (simp add: pl_getlk_def)
next
  case (Some c)
  then have c: "c \<in> set L" "\<not> blocked c" "locks_overlap c lock" "\<not> same_owner c lock"
      "fl_type c = F_WRLCK \<or> fl_type lock = F_WRLCK"
    by (auto simp: first_conflicting_overlap_def dest: find_SomeD)
  moreover have "\<not> is_lock_grantable L lock"
    using c assms(2) locks_overlap_sym by (auto simp: is_lock_grantable_iff)
  moreover have "fl_type c \<noteq> F_UNLCK" using c(1) assms(1) by (simp add: ext_wf_def)
  ultimately show ?thesis using Some by (simp add: pl_getlk_def)
qed

theorem pl_getlk_correct_witness:
  "pl_getlk [sample_lock 1 F_WRLCK 0 9] (sample_lock 2 F_RDLCK 5 20) = sample_lock 1 F_WRLCK 0 9"
  using pl_getlk_correct [of "[sample_lock 1 F_WRLCK 0 9]" "sample_lock 2 F_RDLCK 5 20"]
  by (simp add: locks_overlap_def same_owner_def split: if_splits)

text \<open>C22: A flush by a lock owner always completes, winds the flush to the child once, and
  releases that owner's locks: a byte the owner still holds afterwards was one it was
  waiting for. Locks of the other owners are kept, exclusion holds, and no waiting request
  is dropped.\<close>

theorem pl_flush_releases:
  assumes "lk_reachable p" "rt_lk_owner rt \<noteq> []"
  shows "\<exists>p' ev. pl_flush p rt fd = Some (p', ev @ [WindFlush (frame_id rt)]) \<and>
    WindFlush (frame_id rt) \<notin> set ev \<and> lk_reachable p' \<and>
    waiting (ext_list p') + mset (lk_replies ev) = waiting (ext_list p) \<and>
    (\<forall>b. cov (ext_list p') (Holder (rt_client rt) (rt_lk_owner rt)) b \<noteq> {} \<longrightarrow>
       (\<exists>l \<in> set (ext_list p). blocked l \<and> covers l b \<and>
          lk_key l = Holder (rt_client rt) (rt_lk_owner rt))) \<and>
    (\<forall>k b. k \<noteq> Holder (rt_client rt) (rt_lk_owner rt) \<longrightarrow> cov (ext_list p) k b \<noteq> {} \<longrightarrow>
       cov (ext_list p') k b \<noteq> {} \<and> cov (ext_list p') k b \<subseteq> cov (ext_list p) k b)"
proof -
  let ?me = "Holder (rt_client rt) (rt_lk_owner rt)"
  let ?D = "delete_locks_of_owner (ext_list p) (rt_client rt) (rt_lk_owner rt)"
  let ?p = "p\<lparr>ext_list := ?D\<rparr>"
  have "ext_inv (ext_list ?p)"
    using ext_inv_filter [OF lk_reachable_ext_inv [OF assms(1)]] by (simp add: delete_locks_of_owner_def)
  from grant_and_resume_ok [OF this] obtain p' ev where g: "grant_and_resume ?p = Some (p', ev)"
    "waiting (ext_list p') + mset (lk_replies ev) = waiting (ext_list ?p)"
    "held_kept (ext_list ?p) (ext_list p')" "gained_waiting (ext_list ?p) (ext_list p')" by blast
  have f: "pl_flush p rt fd = Some (p', ev @ [WindFlush (frame_id rt)])"
    using g(1) assms(2) by (simp add: pl_flush_alt)
  have once: "WindFlush (frame_id rt) \<notin> set ev"
    using g(1) by (auto simp: grant_and_resume_def grant_blocked_locks_def do_blocked_rw_def Let_def
        unwind_granted_def bind_eq_Some_conv)
  have own: "\<exists>l \<in> set (ext_list p). blocked l \<and> covers l b \<and> lk_key l = ?me"
    if "cov (ext_list p') ?me b \<noteq> {}" for b
  proof -
    have "cov (ext_list p') ?me b \<subseteq> fl_type ` {l \<in> set ?D. blocked l \<and> lk_key l = ?me \<and> covers l b}"
      using g(4) [unfolded gained_waiting_def, rule_format, of ?me b] by (simp add: cov_delete_owner)
    with that have "{l \<in> set ?D. blocked l \<and> lk_key l = ?me \<and> covers l b} \<noteq> {}" by blast
    then show ?thesis by (auto simp: delete_locks_of_owner_def)
  qed
  have other: "cov (ext_list p') k b \<noteq> {} \<and> cov (ext_list p') k b \<subseteq> cov (ext_list p) k b"
    if "k \<noteq> ?me" "cov (ext_list p) k b \<noteq> {}" for k b
    using g(3) [unfolded held_kept_def, rule_format, of k b k] that
    by (auto simp: cov_delete_owner held_out_def)
  show ?thesis
    using f once own other g(2) lk_flush [OF assms(1) f] by (auto simp: waiting_delete_owner)
qed

definition sample_root :: "addr \<Rightarrow> gf_lkowner \<Rightarrow> call_root" where
  "sample_root c own = \<lparr>frame_id = 200, rt_client = c, rt_pid = 0, rt_lk_owner = own, rt_uid = 0,
     rt_gid = 0, rt_groups = []\<rparr>"

theorem pl_flush_releases_witness:
  "\<exists>p' ev. pl_flush waiting_state (sample_root 1 [1]) 7 = Some (p', ev @ [WindFlush 200]) \<and>
     (\<forall>b. cov (ext_list p') (Holder 1 [1]) b = {}) \<and> lk_reachable p'"
  using pl_flush_releases [OF waiting_reachable, of "sample_root 1 [1]" 7]
  by (auto simp: sample_root_def waiting_state_def lk_key_def)

text \<open>Releasing the locks of a descriptor always completes, answers every request that was
  waiting through it with EAGAIN (in queue order, before any grant), loses no other
  request, and leaves a state in which exclusion holds.\<close>

theorem delete_locks_of_fd_correct:
  assumes "lk_reachable p"
  shows "\<exists>p' ev. delete_locks_of_fd p fd = Some (p',
      map (\<lambda>l. UnwindLk (lk_frame l) (-1) EAGAIN (user_flock l))
        (filter (\<lambda>l. fd_num l = fd_to_fdnum fd \<and> blocked l) (ext_list p)) @ ev) \<and>
    lk_reachable p' \<and>
    waiting (ext_list p') + mset (lk_replies ev) =
      waiting (filter (\<lambda>l. fd_num l \<noteq> fd_to_fdnum fd) (ext_list p))"
proof -
  let ?p = "p\<lparr>ext_list := filter (\<lambda>l. fd_num l \<noteq> fd_to_fdnum fd) (ext_list p)\<rparr>"
  have "ext_inv (ext_list ?p)" using ext_inv_filter [OF lk_reachable_ext_inv [OF assms]] by simp
  from grant_and_resume_ok [OF this] obtain p' ev where g: "grant_and_resume ?p = Some (p', ev)"
    "waiting (ext_list p') + mset (lk_replies ev) = waiting (ext_list ?p)" by blast
  then have "delete_locks_of_fd p fd = Some (p',
      map (\<lambda>l. UnwindLk (lk_frame l) (-1) EAGAIN (user_flock l))
        (filter (\<lambda>l. fd_num l = fd_to_fdnum fd \<and> blocked l) (ext_list p)) @ ev)"
    by (simp add: delete_locks_of_fd_alt)
  with g(2) lk_release [OF assms this] show ?thesis by auto
qed

theorem delete_locks_of_fd_correct_witness:
  "\<exists>p' ev. delete_locks_of_fd waiting_state 7 = Some (p',
      UnwindLk 102 (-1) EAGAIN (user_flock (sample_lock 2 F_RDLCK 5 20)) # ev) \<and> lk_reachable p'"
  using delete_locks_of_fd_correct [OF waiting_reachable, of 7]
  by (auto simp: waiting_state_def fd_to_fdnum_def)

text \<open>Turning a flock into a lock and back is the identity on start, length, type, process
  and owner, for every flock that passes the checks of pl_lk and whose end does not
  overflow; a length that reaches the largest offset is reported as 0, "to the end".\<close>

theorem flock_round_trip:
  assumes "0 \<le> l_start fl" "0 \<le> l_len fl" "l_start fl + l_len fl - 1 \<le> LLONG_MAX"
    and "new_posix_lock fl cl pid own fd = Some lock"
  shows "posix_lock_to_flock lock fl = fl\<lparr>l_pid := pid, l_owner := own,
    l_len := (if l_start fl + l_len fl - 1 = LLONG_MAX then 0 else l_len fl)\<rparr>"
  using assms by (cases fl) (auto simp: new_posix_lock_def posix_lock_to_flock_def split: if_splits)

theorem flock_round_trip_witness:
  "posix_lock_to_flock (the (new_posix_lock (zero_flock\<lparr>l_start := 5, l_len := 10\<rparr>) 1 42 [1] 7))
     (zero_flock\<lparr>l_start := 5, l_len := 10\<rparr>) =
   zero_flock\<lparr>l_start := 5, l_len := 10, l_pid := 42, l_owner := [1]\<rparr>"
  using flock_round_trip [of "zero_flock\<lparr>l_start := 5, l_len := 10\<rparr>" 1 42 "[1]" 7
      "the (new_posix_lock (zero_flock\<lparr>l_start := 5, l_len := 10\<rparr>) 1 42 [1] 7)"]
  by (simp add: zero_flock_def new_posix_lock_def)

text \<open>When mandatory locking keeps an I/O request out: another owner's lock, granted or
  waiting, overlaps it, and it is a write lock if the request is a read.\<close>

definition rw_conflict :: "posix_lock list \<Rightarrow> posix_lock \<Rightarrow> rw_fop \<Rightarrow> bool" where
  "rw_conflict L region fop \<longleftrightarrow> (\<exists>l \<in> set L. locks_overlap l region \<and> \<not> same_owner l region \<and>
     (fop = GF_FOP_READ \<longrightarrow> fl_type l = F_WRLCK))"

lemma rw_allowable_iff: "rw_allowable L region fop \<longleftrightarrow> \<not> rw_conflict L region fop"
  by (induction L) (cases fop; auto simp: rw_conflict_def)+

abbreviation resume_of :: "pl_rw_req \<Rightarrow> pl_event" where
  "resume_of rw \<equiv> ResumeStub (stub_fop rw) (stub_frame rw)"



text \<open>A reader's request meeting another owner's read lock is appended as it is, so the
  reader's own write lock further along its range survives the downgrade: after owner 1, holding a write lock on
  20-30, asks for a read lock on 5-25 while owner 2 reads 0-10, bytes 20-25 are still
  write-locked and a second reader of byte 22 is refused.\<close>

theorem merge_stops_at_foreign_reader:
  "insert_and_merge [sample_lock 2 F_RDLCK 0 10, sample_lock 1 F_WRLCK 20 30]
     (sample_lock 1 F_RDLCK 5 25) =
     Some [sample_lock 2 F_RDLCK 0 10, sample_lock 1 F_WRLCK 20 30, sample_lock 1 F_RDLCK 5 25] \<and>
   insert_and_merge [sample_lock 1 F_WRLCK 20 30, sample_lock 2 F_RDLCK 0 10]
     (sample_lock 1 F_RDLCK 5 25) =
     Some [sample_lock 2 F_RDLCK 0 10, set_user_flock ((sample_lock 1 F_WRLCK 26 30)
        \<lparr>lk_fd := NULL, lk_frame := NULL, user_flock := zero_flock\<rparr>),
        set_user_flock (sample_lock 1 F_RDLCK 5 25)] \<and>
   \<not> is_lock_grantable [sample_lock 2 F_RDLCK 0 10, sample_lock 1 F_WRLCK 20 30,
        sample_lock 1 F_RDLCK 5 25] (sample_lock 3 F_RDLCK 22 22)"
  by (intro conjI) code_simp+

text \<open>A waiting reader is not granted while another reader holds any byte of its range,
  although the two are compatible: the retry looks for any overlap, not for a conflict.\<close>

theorem compatible_reader_stays_blocked:
  "let L = [sample_lock 1 F_RDLCK 0 9, (sample_lock 2 F_RDLCK 5 20)\<lparr>blocked := True\<rparr>] in
   is_lock_grantable L (sample_lock 2 F_RDLCK 5 20) \<and> grant_blocked_locks_int L = Some (L, [])"
  by code_simp

end
