(* ===== verification/Wait_Queue.thy ===== *)
theory Wait_Queue
  imports GF_Prelude
begin

text \<open>
  The contract shared by the two kinds of domain locks (inode locks and entry locks).  A domain
  has a list of held locks and a queue of waiting ones.  A lock is admitted when no held lock
  blocks it and either no waiting lock has precedence over it or its owner already
  has a lock in the domain; otherwise it waits at the end of the queue.  After a release the
  whole queue is emptied and each waiter is tried again in order.  The locale fixes the
  admission test and the retry loop of a component and derives what the queue
  guarantees; the components interpret it on their own definitions.
\<close>

section \<open>Interface\<close>

locale wait_queue =
  fixes blocks :: "'l \<Rightarrow> 'l \<Rightarrow> bool" \<comment> \<open>a held lock (second) keeps a new one (first) out\<close>
    and ahead :: "'l \<Rightarrow> 'l \<Rightarrow> bool" \<comment> \<open>a waiting lock (second) has precedence\<close>
    and same :: "'l \<Rightarrow> 'l \<Rightarrow> bool" \<comment> \<open>same owner\<close>
    and held_as :: "'l \<Rightarrow> 'l" \<comment> \<open>the object as it stands in the list of held locks\<close>
    and admit :: "'l list \<Rightarrow> 'l list \<Rightarrow> 'l \<Rightarrow> bool"
    and retry :: "'l list \<Rightarrow> 'l list \<Rightarrow> 'l list \<Rightarrow> 'l list \<Rightarrow> 'l list \<times> 'l list \<times> 'l list"
  assumes admit_iff: "admit G B l \<longleftrightarrow> \<not> (\<exists>g \<in> set G. blocks l g) \<and>
      (\<not> (\<exists>b \<in> set B. ahead l b) \<or> (\<exists>x \<in> set G \<union> set B. same x l))"
    and retry_Nil: "retry G B [] gr = (G, B, gr)"
    and retry_Cons: "retry G B (l # ls) gr =
      (if admit G B l then retry (held_as l # G) B ls (held_as l # gr) else retry G (B @ [l]) ls gr)"
    and blocks_sym: "blocks x y = blocks y x"
    and blocks_held: "blocks x (held_as y) = blocks x y"
begin

text \<open>No held lock blocks another.\<close>

definition compatible :: "'l list \<Rightarrow> bool" where
  "compatible G \<longleftrightarrow> sorted_wrt (\<lambda>x y. \<not> blocks x y) G"

text \<open>Every waiter waits for a reason: a held lock blocks it, or a waiter before it in the
  queue has precedence.\<close>

definition queue_ok :: "'l list \<Rightarrow> 'l list \<Rightarrow> bool" where
  "queue_ok G B \<longleftrightarrow> (\<forall>i < length B. (\<exists>g \<in> set G. blocks (B ! i) g) \<or> (\<exists>j < i. ahead (B ! i) (B ! j)))"

lemma queue_ok_Nil [simp]: "queue_ok G []"
  by (simp add: queue_ok_def)

lemma queue_ok_mono: "queue_ok G B \<Longrightarrow> set G \<subseteq> set G' \<Longrightarrow> queue_ok G' B"
  by (fastforce simp: queue_ok_def)

lemma queue_ok_snoc:
  assumes "queue_ok G B" "\<not> admit G B l"
  shows "queue_ok G (B @ [l])"
  unfolding queue_ok_def
proof (intro allI impI)
  fix i assume i: "i < length (B @ [l])"
  show "(\<exists>g \<in> set G. blocks ((B @ [l]) ! i) g) \<or> (\<exists>j < i. ahead ((B @ [l]) ! i) ((B @ [l]) ! j))"
  proof (cases "i < length B")
    case True
    then have "(\<exists>g \<in> set G. blocks (B ! i) g) \<or> (\<exists>j < i. ahead (B ! i) (B ! j))"
      using assms(1) by (simp add: queue_ok_def)
    moreover have "(B @ [l]) ! j = B ! j" if "j \<le> i" for j using that True by (simp add: nth_append)
    ultimately show ?thesis by (metis less_imp_le order_refl)
  next
    case False
    then have "i = length B" using i by simp
    then show ?thesis using assms(2) by (auto simp: admit_iff nth_append in_set_conv_nth)
  qed
qed

lemma queue_ok_admit: "queue_ok G B \<Longrightarrow> queue_ok (held_as l # G) B"
  by (erule queue_ok_mono) auto

lemma queue_head_blocked:
  "queue_ok G (b # B) \<Longrightarrow> \<exists>g \<in> set G. blocks b g"
  unfolding queue_ok_def by (metis length_Cons nat.distinct(1) not_less0 nth_Cons_0 zero_less_Suc)

lemma compatible_admit: "compatible G \<Longrightarrow> admit G B l \<Longrightarrow> compatible (held_as l # G)"
  by (auto simp: compatible_def admit_iff blocks_sym [of "held_as l"] blocks_held blocks_sym [of _ l])

lemma retry_inv:
  assumes "compatible G" "queue_ok G B" "retry G B ls gr = (G', B', gr')"
  shows "compatible G' \<and> queue_ok G' B'"
  using assms
  by (induction ls arbitrary: G B gr)
    (auto simp: retry_Nil retry_Cons intro: compatible_admit queue_ok_admit queue_ok_snoc split: if_splits)

text \<open>Changes of the objects that conflicts do not look at.\<close>

lemma compatible_map: "(\<And>x y. blocks (f x) (f y) = blocks x y) \<Longrightarrow> compatible (map f G) = compatible G"
  by (simp add: compatible_def sorted_wrt_map)

lemma queue_ok_map:
  assumes "\<And>x y. blocks (f x) (f y) = blocks x y" "\<And>x y. ahead (f x) (f y) = ahead x y"
  shows "queue_ok (map f G) (map f B) = queue_ok G B"
proof -
  have "(\<exists>j < i. ahead (map f B ! i) (map f B ! j)) \<longleftrightarrow> (\<exists>j < i. ahead (B ! i) (B ! j))"
    if "i < length B" for i
    using that assms(2) by (metis nth_map order.strict_trans)
  then show ?thesis using assms(1) by (simp add: queue_ok_def)
qed

lemma compatible_filter: "compatible G \<Longrightarrow> compatible (filter P G)"
  by (simp add: compatible_def sorted_wrt_filter)

text \<open>No waiter is lost or duplicated, and the queue keeps its order.\<close>

lemma retry_account:
  "retry G B ls gr = (G', B', gr') \<Longrightarrow>
     \<exists>adm. mset ls + mset B = mset adm + mset B' \<and> gr' = rev (map held_as adm) @ gr \<and>
       G' = rev (map held_as adm) @ G"
proof (induction ls arbitrary: G B gr)
  case Nil
  then show ?case by (auto simp: retry_Nil intro: exI [of _ "[]"])
next
  case (Cons l ls)
  show ?case
  proof (cases "admit G B l")
    case True
    then have "retry (held_as l # G) B ls (held_as l # gr) = (G', B', gr')"
      using Cons.prems by (simp add: retry_Cons)
    from Cons.IH [OF this] obtain adm where "mset ls + mset B = mset adm + mset B'"
      "gr' = rev (map held_as adm) @ held_as l # gr" "G' = rev (map held_as adm) @ held_as l # G"
      by blast
    then show ?thesis by (intro exI [of _ "l # adm"]) auto
  next
    case False
    then have "retry G (B @ [l]) ls gr = (G', B', gr')"
      using Cons.prems by (simp add: retry_Cons)
    from Cons.IH [OF this] obtain adm where "mset ls + mset (B @ [l]) = mset adm + mset B'"
      "gr' = rev (map held_as adm) @ gr" "G' = rev (map held_as adm) @ G" by blast
    then show ?thesis by (intro exI [of _ adm]) auto
  qed
qed

text \<open>The head of the queue is admitted as soon as no held lock blocks it.\<close>

lemma retry_head:
  assumes "\<not> (\<exists>g \<in> set G. blocks l g)" "retry G [] (l # ls) gr = (G', B', gr')"
  shows "held_as l \<in> set gr'"
proof -
  have "admit G [] l" using assms(1) by (simp add: admit_iff)
  then have "retry (held_as l # G) [] ls (held_as l # gr) = (G', B', gr')"
    using assms(2) by (simp add: retry_Cons)
  then show ?thesis using retry_account [of "held_as l # G"] by fastforce
qed

end

section \<open>Counted objects\<close>

text \<open>The elements are objects with an identity and a reference count.  Being held adds a
  reference, which \<open>settle\<close> drops once the owner has been answered.\<close>

locale counted_queue = wait_queue blocks ahead same held_as admit retry
  for blocks :: "'l \<Rightarrow> 'l \<Rightarrow> bool" and ahead :: "'l \<Rightarrow> 'l \<Rightarrow> bool" and same :: "'l \<Rightarrow> 'l \<Rightarrow> bool"
    and held_as :: "'l \<Rightarrow> 'l" and admit :: "'l list \<Rightarrow> 'l list \<Rightarrow> 'l \<Rightarrow> bool"
    and retry :: "'l list \<Rightarrow> 'l list \<Rightarrow> 'l list \<Rightarrow> 'l list \<Rightarrow> 'l list \<times> 'l list \<times> 'l list" +
  fixes ident :: "'l \<Rightarrow> addr"
    and refs :: "'l \<Rightarrow> int"
    and settle :: "addr set \<Rightarrow> 'l \<Rightarrow> 'l"
  assumes ident_held: "ident (held_as l) = ident l"
    and ident_settle: "ident (settle I l) = ident l"
    and refs_held: "refs (held_as l) = refs l + 1"
    and refs_settle: "refs (settle I l) = refs l - (if ident l \<in> I then 1 else 0)"
    and settle_out: "ident l \<notin> I \<Longrightarrow> settle I l = l"
    and blocks_settle: "blocks (settle I x) (settle I y) = blocks x y"
    and ahead_settle: "ahead (settle I x) (settle I y) = ahead x y"
begin

definition counted :: "'l list \<Rightarrow> 'l list \<Rightarrow> bool" where
  "counted G B \<longleftrightarrow> compatible G \<and> (\<forall>l \<in> set (G @ B). refs l = 1) \<and> distinct (map ident (G @ B))"

lemma settle_others: "ident ` set xs \<inter> I = {} \<Longrightarrow> map (settle I) xs = xs"
  by (rule map_idI) (use settle_out in blast)

lemma counted_admit:
  assumes "counted G B" "queue_ok G B" "admit G B l" "refs l = 1" "ident l \<notin> ident ` set (G @ B)"
  shows "counted (settle {ident l} (held_as l) # G) B"
    "queue_ok (settle {ident l} (held_as l) # G) B"
proof -
  let ?s = "settle {ident l}"
  have "ident ` set G \<inter> {ident l} = {}" "ident ` set B \<inter> {ident l} = {}" using assms(5) by force+
  then have same: "map ?s G = G" "map ?s B = B" by (simp_all add: settle_others)
  have "compatible (map ?s (held_as l # G))"
    using compatible_admit [OF _ assms(3)] assms(1)
    by (simp add: compatible_map blocks_settle counted_def del: list.map)
  moreover have "queue_ok (map ?s (held_as l # G)) (map ?s B)"
    using queue_ok_admit [OF assms(2)] by (simp add: queue_ok_map blocks_settle ahead_settle del: list.map)
  ultimately show "counted (?s (held_as l) # G) B" "queue_ok (?s (held_as l) # G) B"
    using assms same by (auto simp: counted_def ident_held ident_settle refs_held refs_settle)
qed

lemma counted_wait:
  "counted G B \<Longrightarrow> refs l = 1 \<Longrightarrow> ident l \<notin> ident ` set (G @ B) \<Longrightarrow> counted G (B @ [l])"
  by (auto simp: counted_def)

lemma counted_delete:
  assumes "counted G B"
  shows "counted (filter P G) B"
proof -
  have "set (filter P G) \<subseteq> set G" by simp
  then have "distinct (map ident (filter P G @ B))"
    using assms by (fastforce simp: counted_def distinct_map_filter)
  then show ?thesis using assms by (auto simp: counted_def compatible_filter)
qed

text \<open>The retry of the whole queue, with the admitted objects settled afterwards.\<close>

lemma retry_counted:
  assumes cnt: "counted G B" and r: "retry G [] B [] = (G', B', gr)"
  obtains adm where "gr = rev (map held_as adm)" "mset B = mset adm + mset B'"
    "map ident G' = map ident (rev adm @ G)"
    "distinct (map ident gr)" "\<forall>l \<in> set (G' @ B'). ident l \<in> ident ` set gr \<longrightarrow> refs l \<noteq> 1"
    "map (settle (ident ` set gr)) B' = B'"
    "counted (map (settle (ident ` set gr)) G') B'" "queue_ok (map (settle (ident ` set gr)) G') B'"
proof -
  from retry_account [OF r] obtain adm where
    acc: "mset B = mset adm + mset B'" "gr = rev (map held_as adm)" "G' = gr @ G" by auto
  have inv: "compatible G'" "queue_ok G' B'" using retry_inv [OF _ _ r] cnt by (auto simp: counted_def)
  have elems: "set B = set adm \<union> set B'" using acc(1) by (metis set_mset_mset set_mset_union)
  have ids: "map ident gr = map ident (rev adm)" by (simp add: acc(2) rev_map ident_held)
  have "mset (map ident (gr @ G @ B')) = mset (map ident (G @ B))"
    using acc(1) ids by (simp add: comp_def)
  then have dist: "distinct (map ident (gr @ G @ B'))"
    using cnt by (metis counted_def mset_eq_imp_distinct_iff)
  let ?I = "ident ` set gr"
  have out: "ident ` set G \<inter> ?I = {}" "ident ` set B' \<inter> ?I = {}" using dist by auto
  have ref2: "refs l = 2" if "l \<in> set gr" for l
    using that acc(2) elems cnt by (auto simp: refs_held counted_def)
  have B': "map (settle ?I) B' = B'" by (rule settle_others [OF out(2)])
  have ref1: "refs (settle ?I l) = 1" if "l \<in> set G'" for l
    using that ref2 out(1) cnt acc(3) by (auto simp: refs_settle counted_def)
  have "compatible (map (settle ?I) G')" using inv(1) by (simp add: compatible_map blocks_settle)
  moreover have "\<forall>l \<in> set (map (settle ?I) G' @ B'). refs l = 1"
    using ref1 elems cnt by (auto simp: counted_def)
  moreover have "distinct (map ident (map (settle ?I) G' @ B'))"
    using dist acc(3) by (simp add: ident_settle comp_def)
  ultimately have "counted (map (settle ?I) G') B'" unfolding counted_def by blast
  moreover have "queue_ok (map (settle ?I) G') B'"
    using inv(2) B' queue_ok_map [of "settle ?I" G' B'] by (simp add: blocks_settle ahead_settle)
  moreover have "\<forall>l \<in> set (G' @ B'). ident l \<in> ?I \<longrightarrow> refs l \<noteq> 1"
    using ref2 out acc(3) by auto
  ultimately show thesis using that [of adm] acc dist ids B' by simp
qed

end

end
