(* ===== verification/Locks_Inodelk.thy ===== *)
theory Locks_Inodelk
  imports Locks_Types Wait_Queue
begin

text \<open>
  Inode locks: xlators/features/locks/src/inodelk.c.  A domain holds the granted locks in
  \<open>inodelk_list\<close> and the waiting ones in \<open>blocked_inodelks\<close>.  A lock object is reached from a
  list and, for a moment, from local variables and the list of granted objects;
  \<open>il_ref\<close> counts these.  The object is updated through its identity wherever it is linked, and
  a \<open>FreeInodelk\<close> event records that its count reached zero.
\<close>

section \<open>Definitions\<close>

subsection \<open>Objects\<close>

definition pl_inodelk_ref :: "pl_inode_lock \<Rightarrow> pl_inode_lock" where
  "pl_inodelk_ref l = l\<lparr>il_ref := il_ref l + 1\<rparr>"

text \<open>Changing the object with a given identity wherever it is linked.\<close>

definition upd_inodelk :: "addr \<Rightarrow> (pl_inode_lock \<Rightarrow> pl_inode_lock) \<Rightarrow> pl_dom \<Rightarrow> pl_dom" where
  "upd_inodelk i f dm = dm\<lparr>
     inodelk_list := map (\<lambda>l. if il_id l = i then f l else l) (inodelk_list dm),
     blocked_inodelks := map (\<lambda>l. if il_id l = i then f l else l) (blocked_inodelks dm)\<rparr>"

definition delete_inode_lock :: "addr \<Rightarrow> pl_dom \<Rightarrow> pl_dom" where
  "delete_inode_lock i dm = dm\<lparr>inodelk_list := filter (\<lambda>l. il_id l \<noteq> i) (inodelk_list dm)\<rparr>"

text \<open>__pl_inodelk_unref, on an object that is linked nowhere and on one that may be linked;
  freeing a linked object takes it out of the model's lists.\<close>

definition pl_inodelk_unref :: "pl_inode_lock \<Rightarrow> pl_event list" where
  "pl_inodelk_unref l = (if il_ref l - 1 = 0 then [FreeInodelk (il_id l)] else [])"

definition pl_inodelk_unref_id :: "addr \<Rightarrow> pl_dom \<Rightarrow> pl_dom \<times> pl_event list" where
  "pl_inodelk_unref_id i dm =
     (let d = upd_inodelk i (\<lambda>l. l\<lparr>il_ref := il_ref l - 1\<rparr>) dm;
          gone = (\<lambda>l. il_id l = i \<and> il_ref l = 0)
      in (d\<lparr>inodelk_list := filter (\<lambda>l. \<not> gone l) (inodelk_list d),
            blocked_inodelks := filter (\<lambda>l. \<not> gone l) (blocked_inodelks d)\<rparr>,
          if \<exists>l \<in> set (inodelk_list d @ blocked_inodelks d). gone l then [FreeInodelk i] else []))"

subsection \<open>Conflicts\<close>

definition inodelk_type_conflict :: "pl_inode_lock \<Rightarrow> pl_inode_lock \<Rightarrow> bool" where
  "inodelk_type_conflict l1 l2 \<longleftrightarrow> il_type l2 = F_WRLCK \<or> il_type l1 = F_WRLCK"

definition inodelk_overlap :: "pl_inode_lock \<Rightarrow> pl_inode_lock \<Rightarrow> bool" where
  "inodelk_overlap l1 l2 \<longleftrightarrow> il_end l1 \<ge> il_start l2 \<and> il_end l2 \<ge> il_start l1"

definition same_inodelk_owner :: "pl_inode_lock \<Rightarrow> pl_inode_lock \<Rightarrow> bool" where
  "same_inodelk_owner l1 l2 \<longleftrightarrow>
     is_same_lkowner (il_owner l1) (il_owner l2) \<and> il_client l1 = il_client l2"

definition inodelk_conflict :: "pl_inode_lock \<Rightarrow> pl_inode_lock \<Rightarrow> bool" where
  "inodelk_conflict l1 l2 \<longleftrightarrow> inodelk_overlap l1 l2 \<and> inodelk_type_conflict l1 l2"

text \<open>The first granted lock that keeps \<open>lock\<close> out; despite its name the C function returns
  the conflicting lock.\<close>

definition inodelk_grantable :: "pl_dom \<Rightarrow> pl_inode_lock \<Rightarrow> pl_inode_lock option" where
  "inodelk_grantable dm lock =
     find (\<lambda>l. inodelk_conflict lock l \<and> \<not> same_inodelk_owner lock l) (inodelk_list dm)"

definition blocked_lock_conflict :: "pl_dom \<Rightarrow> pl_inode_lock \<Rightarrow> pl_inode_lock option" where
  "blocked_lock_conflict dm lock = find (\<lambda>l. inodelk_conflict lock l) (blocked_inodelks dm)"

definition inodelk_owner_has_lock :: "pl_dom \<Rightarrow> pl_inode_lock \<Rightarrow> bool" where
  "inodelk_owner_has_lock dm newlock \<longleftrightarrow>
     (\<exists>l \<in> set (inodelk_list dm). same_inodelk_owner l newlock) \<or>
     (\<exists>l \<in> set (blocked_inodelks dm). same_inodelk_owner l newlock)"

subsection \<open>Locking and unlocking in a domain\<close>

definition lock_inodelk :: "pl_dom \<Rightarrow> pl_inode_lock \<Rightarrow> bool \<Rightarrow> int \<times> pl_dom" where
  "lock_inodelk dm lock can_block =
     (let block = (- EAGAIN, if can_block
                     then dm\<lparr>blocked_inodelks := list_add_tail lock (blocked_inodelks dm)\<rparr>
                     else dm)
      in if inodelk_grantable dm lock \<noteq> None then block
         else if blocked_lock_conflict dm lock \<noteq> None \<and> \<not> inodelk_owner_has_lock dm lock
         then block
         else (0, dm\<lparr>inodelk_list := list_add (pl_inodelk_ref lock) (inodelk_list dm)\<rparr>))"

definition inodelks_equal :: "pl_inode_lock \<Rightarrow> pl_inode_lock \<Rightarrow> bool" where
  "inodelks_equal l1 l2 \<longleftrightarrow> il_start l1 = il_start l2 \<and> il_end l1 = il_end l2"

definition find_matching_inodelk :: "pl_inode_lock \<Rightarrow> pl_dom \<Rightarrow> pl_inode_lock option" where
  "find_matching_inodelk lock dm =
     find (\<lambda>l. inodelks_equal l lock \<and> same_inodelk_owner l lock) (inodelk_list dm)"

definition inode_unlock_lock :: "pl_inode_lock \<Rightarrow> pl_dom \<Rightarrow> pl_inode_lock option \<times> pl_dom" where
  "inode_unlock_lock lock dm =
     (case find_matching_inodelk lock dm of
        None \<Rightarrow> (None, dm)
      | Some conf \<Rightarrow> (Some conf, delete_inode_lock (il_id conf) dm))"

subsection \<open>Granting waiting locks\<close>

fun grant_inodelk_loop ::
  "pl_dom \<Rightarrow> pl_inode_lock list \<Rightarrow> pl_inode_lock list \<Rightarrow> pl_dom \<times> pl_inode_lock list" where
  "grant_inodelk_loop dm [] granted = (dm, granted)"
| "grant_inodelk_loop dm (bl # bls) granted =
     (case lock_inodelk dm bl True of (bl_ret, dom') \<Rightarrow>
        grant_inodelk_loop dom' bls
          (if bl_ret = 0 then list_add (pl_inodelk_ref bl) granted else granted))"

definition grant_blocked_inode_locks_int :: "pl_dom \<Rightarrow> pl_dom \<times> pl_inode_lock list" where
  "grant_blocked_inode_locks_int dm =
     grant_inodelk_loop (dm\<lparr>blocked_inodelks := []\<rparr>) (blocked_inodelks dm) []"

text \<open>The last loop of grant_blocked_inode_locks: the objects on the granted list lose their
  frame, answered just before, and the reference the list held.\<close>

fun release_granted :: "pl_inode_lock list \<Rightarrow> pl_dom \<Rightarrow> pl_dom \<times> pl_event list" where
  "release_granted [] dm = (dm, [])"
| "release_granted (l # ls) dm =
     (case pl_inodelk_unref_id (il_id l) (upd_inodelk (il_id l) (\<lambda>x. x\<lparr>il_frame := NULL\<rparr>) dm) of
        (dom1, ev1) \<Rightarrow> (case release_granted ls dom1 of (dom2, ev2) \<Rightarrow> (dom2, ev1 @ ev2)))"

definition grant_blocked_inode_locks :: "pl_dom \<Rightarrow> pl_dom \<times> pl_event list" where
  "grant_blocked_inode_locks dm =
     (case grant_blocked_inode_locks_int dm of (dom1, granted) \<Rightarrow>
      case release_granted granted dom1 of (dom2, ev) \<Rightarrow>
        (dom2, map (\<lambda>l. UnwindInodelk (il_frame l) 0 0) granted @ ev))"

subsection \<open>The request\<close>

definition pl_inode_setlk ::
  "lockers \<Rightarrow> addr \<Rightarrow> pl_inode \<Rightarrow> pl_inode_lock \<Rightarrow> bool \<Rightarrow> pl_dom \<Rightarrow>
   int \<times> lockers \<times> pl_inode \<times> pl_event list" where
  "pl_inode_setlk ctxs ino p0 lock can_block dm =
     (let p = p0\<lparr>inode_refs := inode_refs p0 + 1\<rparr>; c = il_client lock in
      if il_type lock \<noteq> F_UNLCK then
        (case lock_inodelk dm lock can_block of (ret, dom1) \<Rightarrow>
         case (if ret = 0 then
                 pl_inodelk_unref_id (il_id lock)
                   (upd_inodelk (il_id lock) (\<lambda>x. x\<lparr>il_frame := NULL\<rparr>) dom1)
               else if can_block then (dom1, [])
               else (dom1, pl_inodelk_unref lock)) of (dom2, ev) \<Rightarrow>
           (ret,
            (if c \<noteq> NULL \<and> (ret = 0 \<or> can_block)
             then ctxs(c := list_add_tail (ino, il_id lock) (ctxs c)) else ctxs),
            (set_domain p dom2)\<lparr>inode_refs :=
               (if ret = - EAGAIN \<and> \<not> can_block then inode_refs p - 1 else inode_refs p)\<rparr>,
            ev))
      else
        (case inode_unlock_lock lock dm of
           (None, dom1) \<Rightarrow>
             (- EINVAL, ctxs, (set_domain p dom1)\<lparr>inode_refs := inode_refs p - 1\<rparr>,
              pl_inodelk_unref lock)
         | (Some retlock, dom1) \<Rightarrow>
             (case grant_blocked_inode_locks dom1 of (dom2, ev) \<Rightarrow>
               (0,
                ctxs(il_client retlock :=
                  filter (\<lambda>x. x \<noteq> (ino, il_id retlock)) (ctxs (il_client retlock))),
                (set_domain p dom2)\<lparr>inode_refs := inode_refs p - 1 - 1\<rparr>,
                pl_inodelk_unref retlock @ pl_inodelk_unref lock @ ev))))"

definition new_inode_lock ::
  "addr \<Rightarrow> gf_flock \<Rightarrow> call_root \<Rightarrow> string \<Rightarrow> string option \<Rightarrow> pl_inode_lock" where
  "new_inode_lock i flock rt volume conn_id = \<lparr>
     il_id = i,
     il_ref = 1,
     il_type = l_type flock,
     il_start = l_start flock,
     il_end = (if l_len flock = 0 then LLONG_MAX else off_wrap (l_start flock + l_len flock - 1)),
     il_volume = volume,
     il_user_flock = zero_flock,
     il_frame = frame_id rt,
     il_client = rt_client rt,
     il_owner = rt_lk_owner rt,
     il_client_pid = rt_pid rt,
     il_connection_id = conn_id\<rparr>"

text \<open>strrchr: the suffix that starts at the last occurrence of the character.\<close>

fun strrchr :: "string \<Rightarrow> char \<Rightarrow> string option" where
  "strrchr [] c = None"
| "strrchr (x # xs) c =
     (case strrchr xs c of Some r \<Rightarrow> Some r | None \<Rightarrow> if x = c then Some (x # xs) else None)"

text \<open>\<open>None\<close> is a result left NULL: the volume is used as it is.\<close>

definition pl_convert_volume :: "string \<Rightarrow> string option" where
  "pl_convert_volume volume =
     (if strrchr volume CHR '':'' = Some '':metadata'' then None
      else Some (volume @ '':metadata''))"

definition pl_convert_volume_for_special_range :: "gf_flock \<Rightarrow> string \<Rightarrow> string option" where
  "pl_convert_volume_for_special_range flock volume =
     (if l_start flock = LLONG_MAX - 1 \<and> l_len flock = 0 then pl_convert_volume volume else None)"

text \<open>pl_common_inodelk, the body of pl_inodelk and pl_finodelk.  \<open>newid\<close> is the address the
  allocator returns for the request.\<close>

definition pl_common_inodelk ::
  "lockers \<Rightarrow> addr \<Rightarrow> pl_inode \<Rightarrow> call_root \<Rightarrow> string \<Rightarrow> lk_cmd \<Rightarrow> gf_flock \<Rightarrow> string option \<Rightarrow> addr \<Rightarrow>
   lockers \<times> pl_inode \<times> pl_event list" where
  "pl_common_inodelk ctxs ino p rt volume cmd flock conn_id newid =
     (if l_start flock < 0 \<or> l_len flock < 0 then
        (ctxs, p, [UnwindInodelk (frame_id rt) (-1) EINVAL])
      else
        (let vol = (case pl_convert_volume_for_special_range flock volume of
                      Some res \<Rightarrow> res | None \<Rightarrow> volume) in
         case get_domain p vol of (dm, p1) \<Rightarrow>
           (let reqlock = new_inode_lock newid flock rt (domain dm) conn_id;
                can_block = (cmd = F_SETLKW)
            in if cmd = F_SETLKW \<or> cmd = F_SETLK then
                 (case pl_inode_setlk ctxs ino p1 (reqlock\<lparr>il_user_flock := flock\<rparr>) can_block dm of
                    (ret, ctxs', p2, ev) \<Rightarrow>
                      if ret < 0 then
                        if can_block \<and> l_type flock \<noteq> F_UNLCK then (ctxs', p2, ev)
                        else (ctxs', p2, ev @ [UnwindInodelk (frame_id rt) (-1) (- ret)])
                      else (ctxs', p2, ev @ [UnwindInodelk (frame_id rt) 0 0]))
               else (ctxs, p1, [UnwindInodelk (frame_id rt) (-1) ENOTSUP]))))"

subsection \<open>Counting\<close>

definition get_inodelk_dom_count :: "pl_dom \<Rightarrow> nat" where
  "get_inodelk_dom_count dm = length (inodelk_list dm) + length (blocked_inodelks dm)"

definition get_inodelk_count :: "pl_inode \<Rightarrow> string option \<Rightarrow> nat" where
  "get_inodelk_count p domname =
     (case domname of
        Some n \<Rightarrow> (case find (\<lambda>d. domain d = n) (dom_list p) of
                     Some d \<Rightarrow> get_inodelk_dom_count d | None \<Rightarrow> 0)
      | None \<Rightarrow> sum_list (map get_inodelk_dom_count (dom_list p)))"

subsection \<open>Client disconnect\<close>

text \<open>The first loop of pl_inodelk_client_cleanup: each lock object of the client is unlinked
  from its inode, from the granted list if it is linked there and from the waiting list
  otherwise; the two lists returned are \<open>released\<close> and \<open>unwind\<close>.\<close>

definition find_inodelk :: "pl_inode \<Rightarrow> addr \<Rightarrow> pl_inode_lock option" where
  "find_inodelk p i = find (\<lambda>l. il_id l = i)
     (concat (map (\<lambda>d. inodelk_list d @ blocked_inodelks d) (dom_list p)))"

definition inodelk_is_granted :: "pl_inode \<Rightarrow> addr \<Rightarrow> bool" where
  "inodelk_is_granted p i \<longleftrightarrow> (\<exists>d \<in> set (dom_list p). \<exists>l \<in> set (inodelk_list d). il_id l = i)"

definition unlink_inodelk :: "pl_inode \<Rightarrow> addr \<Rightarrow> pl_inode" where
  "unlink_inodelk p i = p\<lparr>dom_list := map (\<lambda>d.
     if inodelk_is_granted p i then delete_inode_lock i d
     else d\<lparr>blocked_inodelks := filter (\<lambda>l. il_id l \<noteq> i) (blocked_inodelks d)\<rparr>) (dom_list p)\<rparr>"

fun inodelk_cleanup_unlink ::
  "(addr \<Rightarrow> pl_inode) \<Rightarrow> (addr \<times> addr) list \<Rightarrow>
   (addr \<Rightarrow> pl_inode) \<times> (addr \<times> pl_inode_lock) list \<times> (addr \<times> pl_inode_lock) list" where
  "inodelk_cleanup_unlink inodes [] = (inodes, [], [])"
| "inodelk_cleanup_unlink inodes ((ino, i) # ls) =
     (case find_inodelk (inodes ino) i of
        None \<Rightarrow> inodelk_cleanup_unlink inodes ls
      | Some l \<Rightarrow>
          (case inodelk_cleanup_unlink (inodes(ino := unlink_inodelk (inodes ino) i)) ls of
             (inodes', released, unwind) \<Rightarrow>
               if inodelk_is_granted (inodes ino) i then (inodes', (ino, l) # released, unwind)
               else (inodes', released, (ino, l) # unwind)))"

text \<open>The last loop: retry the waiters of the domain, drop the object and the inode
  reference it held.\<close>

fun inodelk_cleanup_release ::
  "(addr \<Rightarrow> pl_inode) \<Rightarrow> (addr \<times> pl_inode_lock) list \<Rightarrow> (addr \<Rightarrow> pl_inode) \<times> pl_event list" where
  "inodelk_cleanup_release inodes [] = (inodes, [])"
| "inodelk_cleanup_release inodes ((ino, l) # ls) =
     (case get_domain (inodes ino) (il_volume l) of (dm, p1) \<Rightarrow>
      case grant_blocked_inode_locks dm of (dom1, ev1) \<Rightarrow>
        (let p2 = (set_domain p1 dom1)\<lparr>inode_refs := inode_refs p1 - 1\<rparr> in
         case inodelk_cleanup_release (inodes(ino := p2)) ls of
           (inodes', ev2) \<Rightarrow> (inodes', ev1 @ pl_inodelk_unref l @ ev2)))"

definition pl_inodelk_client_cleanup ::
  "(addr \<Rightarrow> pl_inode) \<Rightarrow> lockers \<Rightarrow> addr \<Rightarrow> (addr \<Rightarrow> pl_inode) \<times> lockers \<times> pl_event list" where
  "pl_inodelk_client_cleanup inodes ctxs c =
     (case inodelk_cleanup_unlink inodes (ctxs c) of (inodes1, released, unwind) \<Rightarrow>
        (let ev1 = map (\<lambda>(ino, l). UnwindInodelk (il_frame l) (-1) EAGAIN)
                     (filter (\<lambda>(ino, l). il_frame l \<noteq> NULL) unwind)
         in case inodelk_cleanup_release inodes1 (released @ unwind) of
              (inodes2, ev2) \<Rightarrow> (inodes2, ctxs(c := []), ev1 @ ev2)))"

end
