(* ===== verification/Locks_Inodelk_Props.thy ===== *)
theory Locks_Inodelk_Props
  imports Locks_Inodelk
begin

text \<open>
  Correctness of inode locks: the domain operations implement the waiting-queue contract, every
  request keeps the domains' invariant and the reference counts, and the replies account
  for every frame.
\<close>

section \<open>The queue contract\<close>

definition il_dom :: "pl_inode_lock list \<Rightarrow> pl_inode_lock list \<Rightarrow> pl_dom" where
  "il_dom G B = (allocate_domain '''')\<lparr>inodelk_list := G, blocked_inodelks := B\<rparr>"

definition il_blocks :: "pl_inode_lock \<Rightarrow> pl_inode_lock \<Rightarrow> bool" where
  "il_blocks x y \<longleftrightarrow> inodelk_conflict x y \<and> \<not> same_inodelk_owner x y"

definition il_admit :: "pl_inode_lock list \<Rightarrow> pl_inode_lock list \<Rightarrow> pl_inode_lock \<Rightarrow> bool" where
  "il_admit G B l \<longleftrightarrow> fst (lock_inodelk (il_dom G B) l True) = 0"

definition il_retry ::
  "pl_inode_lock list \<Rightarrow> pl_inode_lock list \<Rightarrow> pl_inode_lock list \<Rightarrow> pl_inode_lock list \<Rightarrow>
   pl_inode_lock list \<times> pl_inode_lock list \<times> pl_inode_lock list" where
  "il_retry G B ls gr = (case grant_inodelk_loop (il_dom G B) ls gr of
     (d, gr') \<Rightarrow> (inodelk_list d, blocked_inodelks d, gr'))"

lemmas inodelk_conflict_defs =
  inodelk_conflict_def inodelk_overlap_def inodelk_type_conflict_def same_inodelk_owner_def

lemma il_admit_iff:
  "il_admit G B l \<longleftrightarrow> \<not> (\<exists>g \<in> set G. il_blocks l g) \<and>
     (\<not> (\<exists>b \<in> set B. inodelk_conflict l b) \<or> (\<exists>x \<in> set G \<union> set B. same_inodelk_owner x l))"
  unfolding il_admit_def lock_inodelk_def Let_def inodelk_grantable_def blocked_lock_conflict_def
    inodelk_owner_has_lock_def
  by (auto simp: find_None_iff il_dom_def il_blocks_def)

lemma lock_inodelk_eq:
  "lock_inodelk d l can_block =
     (if il_admit (inodelk_list d) (blocked_inodelks d) l
      then (0, d\<lparr>inodelk_list := pl_inodelk_ref l # inodelk_list d\<rparr>)
      else (- EAGAIN, if can_block then d\<lparr>blocked_inodelks := blocked_inodelks d @ [l]\<rparr> else d))"
  unfolding il_admit_def lock_inodelk_def Let_def inodelk_grantable_def blocked_lock_conflict_def
    inodelk_owner_has_lock_def
  by (simp add: il_dom_def list_add_def list_add_tail_def)

lemma grant_inodelk_loop_dom:
  "grant_inodelk_loop d ls gr =
     (case grant_inodelk_loop (il_dom (inodelk_list d) (blocked_inodelks d)) ls gr of
        (e, gr') \<Rightarrow> (d\<lparr>inodelk_list := inodelk_list e, blocked_inodelks := blocked_inodelks e\<rparr>, gr'))"
proof (induction ls arbitrary: d gr)
  case Nil
  then show ?case by (simp add: il_dom_def)
next
  case (Cons l ls)
  let ?d1 = "d\<lparr>inodelk_list := pl_inodelk_ref l # inodelk_list d\<rparr>"
  let ?d2 = "d\<lparr>blocked_inodelks := blocked_inodelks d @ [l]\<rparr>"
  show ?case
    using Cons.IH [of ?d1 "list_add (pl_inodelk_ref l) gr"] Cons.IH [of ?d2 gr]
    by (simp add: lock_inodelk_eq il_dom_def allocate_domain_def list_add_def split: prod.splits)
qed

lemma grant_inodelk_loop_eq:
  "grant_inodelk_loop d ls gr =
     (case il_retry (inodelk_list d) (blocked_inodelks d) ls gr of
        (G, B, gr') \<Rightarrow> (d\<lparr>inodelk_list := G, blocked_inodelks := B\<rparr>, gr'))"
  by (subst grant_inodelk_loop_dom) (simp add: il_retry_def split: prod.splits)

interpretation ilq: wait_queue il_blocks inodelk_conflict same_inodelk_owner pl_inodelk_ref
  il_admit il_retry
proof
  fix G B :: "pl_inode_lock list" and l ls gr
  show "il_retry G B (l # ls) gr =
     (if il_admit G B l then il_retry (pl_inodelk_ref l # G) B ls (pl_inodelk_ref l # gr)
      else il_retry G (B @ [l]) ls gr)"
    by (simp add: il_retry_def lock_inodelk_eq il_dom_def allocate_domain_def list_add_def)
  show "il_retry G B [] gr = (G, B, gr)" by (simp add: il_retry_def il_dom_def)
qed (fact il_admit_iff, auto simp: il_blocks_def inodelk_conflict_defs pl_inodelk_ref_def)

section \<open>Objects\<close>

text \<open>An object on the granted list when its frame has been answered and the extra reference
  dropped.\<close>

definition il_settle :: "addr set \<Rightarrow> pl_inode_lock \<Rightarrow> pl_inode_lock" where
  "il_settle I l = (if il_id l \<in> I then l\<lparr>il_frame := NULL, il_ref := il_ref l - 1\<rparr> else l)"

interpretation ilc: counted_queue il_blocks inodelk_conflict same_inodelk_owner pl_inodelk_ref
  il_admit il_retry il_id il_ref il_settle
  by unfold_locales
    (auto simp: il_settle_def pl_inodelk_ref_def il_blocks_def inodelk_conflict_defs)

lemma pl_inodelk_unref_id_keeps:
  assumes "\<forall>l \<in> set (inodelk_list d @ blocked_inodelks d). il_id l = i \<longrightarrow> il_ref l \<noteq> 1"
  shows "pl_inodelk_unref_id i (upd_inodelk i (\<lambda>x. x\<lparr>il_frame := NULL\<rparr>) d) =
    (d\<lparr>inodelk_list := map (il_settle {i}) (inodelk_list d),
       blocked_inodelks := map (il_settle {i}) (blocked_inodelks d)\<rparr>, [])"
proof -
  have m: "map (\<lambda>l. if il_id l = i then l\<lparr>il_ref := il_ref l - 1\<rparr> else l)
      (map (\<lambda>l. if il_id l = i then l\<lparr>il_frame := NULL\<rparr> else l) xs) = map (il_settle {i}) xs" for xs
    by (simp add: il_settle_def)
  have k: "il_id (il_settle {i} l) = i \<longrightarrow> il_ref (il_settle {i} l) \<noteq> 0"
    if "l \<in> set (inodelk_list d) \<or> l \<in> set (blocked_inodelks d)" for l
    using assms that by (auto simp: il_settle_def)
  have f: "filter (\<lambda>l. \<not> (il_id l = i \<and> il_ref l = 0)) (map (il_settle {i}) (inodelk_list d)) =
        map (il_settle {i}) (inodelk_list d)"
     "filter (\<lambda>l. \<not> (il_id l = i \<and> il_ref l = 0)) (map (il_settle {i}) (blocked_inodelks d)) =
        map (il_settle {i}) (blocked_inodelks d)"
    using k by (auto simp: filter_id_conv)
  have n: "\<not> (\<exists>l \<in> set (map (il_settle {i}) (inodelk_list d) @ map (il_settle {i}) (blocked_inodelks d)).
      il_id l = i \<and> il_ref l = 0)"
    using k by (simp add: ball_Un)
  show ?thesis unfolding pl_inodelk_unref_id_def Let_def upd_inodelk_def
    using m f n by simp
qed

lemma release_granted_eq:
  assumes "distinct (map il_id gr)"
    and "\<forall>l \<in> set (inodelk_list d @ blocked_inodelks d). il_id l \<in> il_id ` set gr \<longrightarrow> il_ref l \<noteq> 1"
  shows "release_granted gr d =
    (d\<lparr>inodelk_list := map (il_settle (il_id ` set gr)) (inodelk_list d),
       blocked_inodelks := map (il_settle (il_id ` set gr)) (blocked_inodelks d)\<rparr>, [])"
  using assms
proof (induction gr arbitrary: d)
  case Nil
  then show ?case by (simp add: il_settle_def)
next
  case (Cons g gr)
  let ?d = "d\<lparr>inodelk_list := map (il_settle {il_id g}) (inodelk_list d),
       blocked_inodelks := map (il_settle {il_id g}) (blocked_inodelks d)\<rparr>"
  have 1: "pl_inodelk_unref_id (il_id g) (upd_inodelk (il_id g) (\<lambda>x. x\<lparr>il_frame := NULL\<rparr>) d) = (?d, [])"
    by (rule pl_inodelk_unref_id_keeps) (use Cons.prems in auto)
  have 2: "il_settle (il_id ` set gr) (il_settle {il_id g} l) = il_settle (il_id ` set (g # gr)) l" for l
    using Cons.prems(1) by (auto simp: il_settle_def)
  have "release_granted gr ?d =
    (?d\<lparr>inodelk_list := map (il_settle (il_id ` set gr)) (inodelk_list ?d),
       blocked_inodelks := map (il_settle (il_id ` set gr)) (blocked_inodelks ?d)\<rparr>, [])"
    by (rule Cons.IH) (use Cons.prems in \<open>auto simp: il_settle_def\<close>)
  then show ?case using 1 2 by (simp add: comp_def)
qed

section \<open>Invariant of a domain\<close>

text \<open>\<open>il_dom_pre\<close> is everything but the reason each waiter has to wait, which the retry
  restores.\<close>

definition il_dom_pre :: "pl_dom \<Rightarrow> bool" where
  "il_dom_pre d \<longleftrightarrow> ilc.counted (inodelk_list d) (blocked_inodelks d)"

definition il_dom_ok :: "pl_dom \<Rightarrow> bool" where
  "il_dom_ok d \<longleftrightarrow> il_dom_pre d \<and> ilq.queue_ok (inodelk_list d) (blocked_inodelks d)"

text \<open>The retry after a release, on a domain that lacks at most the reasons for waiting: the
  invariant holds again, the entry locks and the name are untouched, the admitted waiters
  are answered with success, and each waiter is admitted or still queued.\<close>

lemma grant_blocked_inode_locks_ok:
  assumes pre: "il_dom_pre d"
  obtains d' adm where
    "grant_blocked_inode_locks d = (d', map (\<lambda>l. UnwindInodelk (il_frame l) 0 0) (rev adm))"
    "il_dom_ok d'" "domain d' = domain d" "entrylk_list d' = entrylk_list d"
    "blocked_entrylks d' = blocked_entrylks d"
    "mset (blocked_inodelks d) = mset adm + mset (blocked_inodelks d')"
    "map il_id (inodelk_list d') = map il_id (rev adm @ inodelk_list d)"
proof -
  obtain G' B' gr where r: "il_retry (inodelk_list d) [] (blocked_inodelks d) [] = (G', B', gr)"
    by (metis prod_cases3)
  from ilc.retry_counted [OF pre [unfolded il_dom_pre_def] r] obtain adm where
    R: "gr = rev (map pl_inodelk_ref adm)" "mset (blocked_inodelks d) = mset adm + mset B'"
    "map il_id G' = map il_id (rev adm @ inodelk_list d)" "distinct (map il_id gr)"
    "\<forall>l \<in> set (G' @ B'). il_id l \<in> il_id ` set gr \<longrightarrow> il_ref l \<noteq> 1"
    "map (il_settle (il_id ` set gr)) B' = B'"
    "ilc.counted (map (il_settle (il_id ` set gr)) G') B'"
    "ilq.queue_ok (map (il_settle (il_id ` set gr)) G') B'" by blast
  let ?d' = "d\<lparr>inodelk_list := map (il_settle (il_id ` set gr)) G', blocked_inodelks := B'\<rparr>"
  have "grant_blocked_inode_locks d = (?d', map (\<lambda>l. UnwindInodelk (il_frame l) 0 0) (rev adm))"
    using r release_granted_eq [OF R(4), of "d\<lparr>inodelk_list := G', blocked_inodelks := B'\<rparr>"] R(5,6)
    by (simp add: grant_blocked_inode_locks_def grant_blocked_inode_locks_int_def
        grant_inodelk_loop_eq R(1) rev_map pl_inodelk_ref_def)
  then show thesis
    by (rule that) (use R in \<open>simp_all add: il_dom_ok_def il_dom_pre_def comp_def ilc.ident_settle\<close>)
qed

section \<open>Requests\<close>

text \<open>The frames replied to and the objects freed by a list of events.\<close>

fun il_replies :: "pl_event list \<Rightarrow> addr list" where
  "il_replies [] = []"
| "il_replies (UnwindInodelk fr r e # evs) = fr # il_replies evs"
| "il_replies (_ # evs) = il_replies evs"

fun il_freed :: "pl_event list \<Rightarrow> addr list" where
  "il_freed [] = []"
| "il_freed (FreeInodelk i # evs) = i # il_freed evs"
| "il_freed (_ # evs) = il_freed evs"

lemma il_replies_append [simp]: "il_replies (xs @ ys) = il_replies xs @ il_replies ys"
  by (induction xs rule: il_replies.induct) auto

lemma il_freed_append [simp]: "il_freed (xs @ ys) = il_freed xs @ il_freed ys"
  by (induction xs rule: il_freed.induct) auto

lemma il_events_granted [simp]:
  "il_replies (map (\<lambda>l. UnwindInodelk (il_frame l) r e) ls) = map il_frame ls"
  "il_freed (map (\<lambda>l. UnwindInodelk (il_frame l) r e) ls) = []"
  by (induction ls) auto

lemma il_events_unref [simp]:
  "il_replies (pl_inodelk_unref l) = []"
  "il_ref l = 1 \<Longrightarrow> il_freed (pl_inodelk_unref l) = [il_id l]"
  by (auto simp: pl_inodelk_unref_def)

definition il_objs :: "pl_dom \<Rightarrow> addr multiset" where
  "il_objs d = mset (map il_id (inodelk_list d @ blocked_inodelks d))"

definition il_frames :: "pl_dom \<Rightarrow> addr multiset" where
  "il_frames d = mset (map il_frame (blocked_inodelks d))"

text \<open>What one request does to its domain \<open>d\<close>.\<close>

definition il_request_post ::
  "pl_dom \<Rightarrow> pl_inode_lock \<Rightarrow> bool \<Rightarrow> int \<Rightarrow> pl_dom \<Rightarrow> pl_event list \<Rightarrow> bool" where
  "il_request_post d lock can_block ret d' ev \<longleftrightarrow>
     il_dom_ok d' \<and> domain d' = domain d \<and> entrylk_list d' = entrylk_list d \<and>
     blocked_entrylks d' = blocked_entrylks d \<and>
     il_frames d + (if ret < 0 \<and> can_block \<and> il_type lock \<noteq> F_UNLCK then {#il_frame lock#} else {#}) =
       il_frames d' + mset (il_replies ev) \<and>
     il_objs d + {#il_id lock#} = il_objs d' + mset (il_freed ev)"

text \<open>The lock part of pl_inode_setlk on the domain.\<close>

lemma lock_inodelk_request:
  assumes ok: "il_dom_ok d" and fresh: "il_id lock \<notin># il_objs d" and ref: "il_ref lock = 1"
    and ty: "il_type lock \<noteq> F_UNLCK"
    and l: "lock_inodelk d lock can_block = (ret, d1)"
    and u: "(if ret = 0 then pl_inodelk_unref_id (il_id lock)
                   (upd_inodelk (il_id lock) (\<lambda>x. x\<lparr>il_frame := NULL\<rparr>) d1)
             else if can_block then (d1, []) else (d1, pl_inodelk_unref lock)) = (d2, ev)"
  shows "il_request_post d lock can_block ret d2 ev \<and> (ret = 0 \<or> ret = - EAGAIN) \<and>
    dom_locks d2 = (if ret = 0 \<or> can_block then dom_locks d + 1 else dom_locks d)"
proof (cases "il_admit (inodelk_list d) (blocked_inodelks d) lock")
  case True
  let ?o = "il_settle {il_id lock} (pl_inodelk_ref lock)"
  have d1: "ret = 0" "d1 = d\<lparr>inodelk_list := pl_inodelk_ref lock # inodelk_list d\<rparr>"
    using l True by (auto simp: lock_inodelk_eq)
  have "pl_inodelk_unref_id (il_id lock) (upd_inodelk (il_id lock) (\<lambda>x. x\<lparr>il_frame := NULL\<rparr>) d1) =
    (d1\<lparr>inodelk_list := map (il_settle {il_id lock}) (inodelk_list d1),
       blocked_inodelks := map (il_settle {il_id lock}) (blocked_inodelks d1)\<rparr>, [])"
    by (rule pl_inodelk_unref_id_keeps)
      (use fresh ref in \<open>auto simp: d1(2) pl_inodelk_ref_def il_objs_def image_iff\<close>)
  moreover have "map (il_settle {il_id lock}) (inodelk_list d) = inodelk_list d"
      "map (il_settle {il_id lock}) (blocked_inodelks d) = blocked_inodelks d"
    by (rule ilc.settle_others; use fresh in \<open>force simp: il_objs_def\<close>)+
  ultimately have d2: "d2 = d\<lparr>inodelk_list := ?o # inodelk_list d\<rparr>" "ev = []"
    using u by (simp_all add: d1)
  have "il_dom_ok d2"
    using ilc.counted_admit [OF _ _ True ref] ok fresh
    by (simp add: d2 il_dom_ok_def il_dom_pre_def il_objs_def image_Un)
  then show ?thesis using d1(1)
    by (simp add: d2 il_request_post_def il_frames_def il_objs_def dom_locks_def
        ilc.ident_settle ilc.ident_held)
next
  case False
  then have d1: "ret = - EAGAIN"
      "d1 = (if can_block then d\<lparr>blocked_inodelks := blocked_inodelks d @ [lock]\<rparr> else d)"
    using l by (auto simp: lock_inodelk_eq)
  have "il_dom_ok (d\<lparr>blocked_inodelks := blocked_inodelks d @ [lock]\<rparr>)"
    using ok ilq.queue_ok_snoc [OF _ False] ilc.counted_wait [OF _ ref] fresh
    by (simp add: il_dom_ok_def il_dom_pre_def il_objs_def image_Un)
  then show ?thesis using u d1 ok ty ref
    by (auto simp: il_request_post_def il_frames_def il_objs_def dom_locks_def)
qed

lemma inode_unlock_lock_eq:
  assumes "il_dom_ok d" "find_matching_inodelk lock d = Some r"
  shows "inode_unlock_lock lock d = (Some r, delete_inode_lock (il_id r) d)"
    "il_dom_pre (delete_inode_lock (il_id r) d)" "il_ref r = 1"
    "mset (inodelk_list d) = mset (inodelk_list (delete_inode_lock (il_id r) d)) + {#r#}"
proof -
  have r: "r \<in> set (inodelk_list d)"
    using assms(2) by (auto simp: find_matching_inodelk_def dest: find_SomeD)
  have cnt: "ilc.counted (inodelk_list d) (blocked_inodelks d)"
    using assms(1) by (simp add: il_dom_ok_def il_dom_pre_def)
  then have dist: "distinct (map il_id (inodelk_list d))" by (simp add: ilc.counted_def)
  show "inode_unlock_lock lock d = (Some r, delete_inode_lock (il_id r) d)"
    using assms(2) by (simp add: inode_unlock_lock_def)
  show "il_ref r = 1" using r cnt by (simp add: ilc.counted_def)
  show "il_dom_pre (delete_inode_lock (il_id r) d)"
    using ilc.counted_delete [OF cnt] by (simp add: il_dom_pre_def delete_inode_lock_def)
  show "mset (inodelk_list d) = mset (inodelk_list (delete_inode_lock (il_id r) d)) + {#r#}"
    using mset_filter_key [OF r dist] by (simp add: delete_inode_lock_def)
qed

lemma dom_locks_objs:
  "dom_locks d = size (il_objs d) + length (entrylk_list d) + length (blocked_entrylks d)"
  by (simp add: dom_locks_def il_objs_def)

text \<open>A request on domain \<open>d\<close> of an inode keeps the domain's invariant, accounts for the frames
  and objects, and changes the inode's reference count by the change in the number of
  locks.\<close>

lemma pl_inode_setlk_ok:
  assumes ok: "il_dom_ok d" and fresh: "il_id lock \<notin># il_objs d" and ref: "il_ref lock = 1"
    and din: "doms_distinct p" "d \<in> set (dom_list p)"
  obtains ret ctxs' d' ev where
    "pl_inode_setlk ctxs ino p lock can_block d = (ret, ctxs', (set_domain p d')\<lparr>inode_refs :=
        inode_refs p + int (dom_locks d') - int (dom_locks d)\<rparr>, ev)"
    "il_request_post d lock can_block ret d' ev"
    "ret = 0 \<or> ret = - EAGAIN \<and> il_type lock \<noteq> F_UNLCK \<or> ret = - EINVAL \<and> il_type lock = F_UNLCK"
proof (cases "il_type lock = F_UNLCK")
  case False
  obtain ret d1 where l: "lock_inodelk d lock can_block = (ret, d1)" by fastforce
  obtain d2 ev where u: "(if ret = 0 then pl_inodelk_unref_id (il_id lock)
                   (upd_inodelk (il_id lock) (\<lambda>x. x\<lparr>il_frame := NULL\<rparr>) d1)
             else if can_block then (d1, []) else (d1, pl_inodelk_unref lock)) = (d2, ev)" by fastforce
  note R = lock_inodelk_request [OF ok fresh ref False l u]
  let ?ctxs = "if il_client lock \<noteq> NULL \<and> (ret = 0 \<or> can_block)
             then ctxs(il_client lock := list_add_tail (ino, il_id lock) (ctxs (il_client lock))) else ctxs"
  have refs: "inode_refs p + int (dom_locks d2) - int (dom_locks d) =
      (if ret = - EAGAIN \<and> \<not> can_block then inode_refs p + 1 - 1 else inode_refs p + 1)"
    using R by (cases "ret = 0"; cases can_block) auto
  have "pl_inode_setlk ctxs ino p lock can_block d = (ret, ?ctxs, (set_domain p d2)\<lparr>inode_refs :=
        inode_refs p + int (dom_locks d2) - int (dom_locks d)\<rparr>, ev)"
    using False by (simp add: refs pl_inode_setlk_def l u Let_def set_domain_def)
  then show thesis using that R False by blast
next
  case True
  show thesis
  proof (cases "find_matching_inodelk lock d")
    case None
    then have "inode_unlock_lock lock d = (None, d)" by (simp add: inode_unlock_lock_def)
    then have "pl_inode_setlk ctxs ino p lock can_block d = (- EINVAL, ctxs, (set_domain p d)\<lparr>inode_refs :=
        inode_refs p + int (dom_locks d) - int (dom_locks d)\<rparr>, pl_inodelk_unref lock)"
      using True by (simp add: pl_inode_setlk_def Let_def set_domain_def)
    moreover have "il_request_post d lock can_block (- EINVAL) d (pl_inodelk_unref lock)"
      using ok ref True by (simp add: il_request_post_def)
    ultimately show thesis using that True by blast
  next
    case (Some r)
    note U = inode_unlock_lock_eq [OF ok Some]
    let ?d1 = "delete_inode_lock (il_id r) d"
    obtain d' adm where g: "grant_blocked_inode_locks ?d1 =
        (d', map (\<lambda>l. UnwindInodelk (il_frame l) 0 0) (rev adm))"
      "il_dom_ok d'" "domain d' = domain ?d1" "entrylk_list d' = entrylk_list ?d1"
      "blocked_entrylks d' = blocked_entrylks ?d1"
      "mset (blocked_inodelks ?d1) = mset adm + mset (blocked_inodelks d')"
      "map il_id (inodelk_list d') = map il_id (rev adm @ inodelk_list ?d1)"
      using grant_blocked_inode_locks_ok [OF U(2)] by metis
    have k: "domain ?d1 = domain d" "entrylk_list ?d1 = entrylk_list d"
      "blocked_entrylks ?d1 = blocked_entrylks d" "blocked_inodelks ?d1 = blocked_inodelks d"
      by (simp_all add: delete_inode_lock_def)
    have objs: "il_objs d = il_objs d' + {#il_id r#}"
      using g(6,7) U(4) k by (simp add: il_objs_def)
    then have cnt: "int (dom_locks d) = int (dom_locks d') + 1"
      using g(4,5) k by (simp add: dom_locks_objs)
    have fr: "il_frames d = il_frames d' + mset (map il_frame (rev adm))"
      using g(6) k by (simp add: il_frames_def)
    let ?ev = "pl_inodelk_unref r @ pl_inodelk_unref lock @
        map (\<lambda>l. UnwindInodelk (il_frame l) 0 0) (rev adm)"
    have "pl_inode_setlk ctxs ino p lock can_block d =
       (0, ctxs(il_client r := filter (\<lambda>x. x \<noteq> (ino, il_id r)) (ctxs (il_client r))),
        (set_domain p d')\<lparr>inode_refs := inode_refs p + int (dom_locks d') - int (dom_locks d)\<rparr>, ?ev)"
      using True cnt by (simp add: pl_inode_setlk_def Let_def U(1) g(1) set_domain_def)
    moreover have "il_request_post d lock can_block 0 d' ?ev"
      unfolding il_request_post_def using g(2-5) k objs fr ref U(3) by simp
    ultimately show thesis using that by blast
  qed
qed

section \<open>Invariant of the inode\<close>

definition il_waiting :: "pl_inode \<Rightarrow> addr multiset" where
  "il_waiting p = sum_list (map il_frames (dom_list p))"

definition il_objects :: "pl_inode \<Rightarrow> addr multiset" where
  "il_objects p = sum_list (map il_objs (dom_list p))"

definition il_inode_ok :: "pl_inode \<Rightarrow> bool" where
  "il_inode_ok p \<longleftrightarrow> doms_distinct p \<and> (\<forall>d \<in> set (dom_list p). il_dom_ok d) \<and>
     inode_refs p = int (inode_locks p)"

lemma empty_domain_ok [simp]:
  "il_dom_ok (allocate_domain v)" "il_frames (allocate_domain v) = {#}"
  "il_objs (allocate_domain v) = {#}" "dom_locks (allocate_domain v) = 0"
  by (simp_all add: allocate_domain_def il_dom_ok_def il_dom_pre_def ilc.counted_def ilq.compatible_def il_frames_def
      il_objs_def dom_locks_def)

lemma get_domain_il:
  assumes "il_inode_ok p" "get_domain p v = (d, p1)"
  shows "il_inode_ok p1" "il_waiting p1 = il_waiting p" "il_objects p1 = il_objects p"
    "inode_locks p1 = inode_locks p" "inode_refs p1 = inode_refs p"
    "d \<in> set (dom_list p1)" "il_dom_ok d" "doms_distinct p1"
proof -
  show t: "il_waiting p1 = il_waiting p" "il_objects p1 = il_objects p" "inode_locks p1 = inode_locks p"
    by (simp_all add: il_waiting_def il_objects_def inode_locks_def sum_get_domain [OF assms(2)])
  show f: "inode_refs p1 = inode_refs p" by (rule get_domain_fields [OF assms(2)])
  show "d \<in> set (dom_list p1)" using assms(2) by (rule get_domain_in_list)
  moreover show dd: "doms_distinct p1"
    using assms get_domain_distinct by (auto simp: il_inode_ok_def)
  moreover have "\<forall>e \<in> set (dom_list p1). il_dom_ok e"
    using get_domain_cases [OF assms(2)] assms(1) unfolding il_inode_ok_def
    by (metis empty_domain_ok(1))
  ultimately show "il_inode_ok p1" "il_dom_ok d" using t f assms(1) by (auto simp: il_inode_ok_def)
qed

lemma il_objs_domain: "d \<in> set (dom_list p) \<Longrightarrow> il_objs d \<subseteq># il_objects p"
  unfolding il_objects_def by (rule mset_le_sum_list)

text \<open>Replacing the domain of a request.\<close>

lemma il_request_inode:
  assumes ok: "il_inode_ok p" and d: "d \<in> set (dom_list p)"
    and post: "il_request_post d lock can_block ret d' ev"
  defines "p' \<equiv> (set_domain p d')\<lparr>inode_refs := inode_refs p + int (dom_locks d') - int (dom_locks d)\<rparr>"
  shows "il_inode_ok p'"
    "il_waiting p + (if ret < 0 \<and> can_block \<and> il_type lock \<noteq> F_UNLCK then {#il_frame lock#} else {#}) =
       il_waiting p' + mset (il_replies ev)"
    "il_objects p + {#il_id lock#} = il_objects p' + mset (il_freed ev)"
proof -
  have dd: "doms_distinct p" using ok by (simp add: il_inode_ok_def)
  have P: "il_dom_ok d'" "domain d' = domain d"
    "il_frames d + (if ret < 0 \<and> can_block \<and> il_type lock \<noteq> F_UNLCK then {#il_frame lock#} else {#}) =
       il_frames d' + mset (il_replies ev)"
    "il_objs d + {#il_id lock#} = il_objs d' + mset (il_freed ev)"
    using post by (auto simp: il_request_post_def)
  have l: "dom_list p' = dom_list (set_domain p d')" by (simp add: p'_def)
  note S = sum_set_domain [OF dd d P(2), folded l]
  have "inode_locks p' + dom_locks d = inode_locks p + dom_locks d'"
    using S [of dom_locks] by (simp add: inode_locks_def)
  then have "inode_refs p' = int (inode_locks p')"
    using ok by (simp add: p'_def il_inode_ok_def)
  moreover have "doms_distinct p'"
    using set_domain_distinct [OF dd, of d'] by (simp add: p'_def doms_distinct_def)
  moreover have "\<forall>e \<in> set (dom_list p'). il_dom_ok e"
    using P(1) ok set_domain_in [of _ p d'] unfolding l il_inode_ok_def by metis
  ultimately show "il_inode_ok p'" by (simp add: il_inode_ok_def)
  let ?w = "if ret < 0 \<and> can_block \<and> il_type lock \<noteq> F_UNLCK then {#il_frame lock#} else {#}"
  show "il_waiting p + ?w = il_waiting p' + mset (il_replies ev)"
    unfolding il_waiting_def by (rule mset_balance [OF S [of il_frames] P(3)])
  show "il_objects p + {#il_id lock#} = il_objects p' + mset (il_freed ev)"
    unfolding il_objects_def by (rule mset_balance [OF S [of il_objs] P(4)])
qed

text \<open>A request answers its frame or leaves it waiting; the request object ends on a list or
  is freed, except that an unsupported command leaves it allocated.\<close>

definition il_alloc :: "lk_cmd \<Rightarrow> gf_flock \<Rightarrow> addr \<Rightarrow> addr multiset" where
  "il_alloc cmd flock newid =
     (if (cmd = F_SETLK \<or> cmd = F_SETLKW) \<and> 0 \<le> l_start flock \<and> 0 \<le> l_len flock then {#newid#} else {#})"

lemma pl_common_inodelk_ok:
  assumes ok: "il_inode_ok p" and fresh: "newid \<notin># il_objects p"
    and step: "pl_common_inodelk ctxs ino p rt volume cmd flock conn_id newid = (ctxs', p', ev)"
  shows "il_inode_ok p' \<and> il_waiting p + {#frame_id rt#} = il_waiting p' + mset (il_replies ev) \<and>
    il_objects p + il_alloc cmd flock newid = il_objects p' + mset (il_freed ev) \<and> entrylks_kept p p'"
proof (cases "l_start flock < 0 \<or> l_len flock < 0")
  case True
  then show ?thesis using step ok by (auto simp: pl_common_inodelk_def il_alloc_def)
next
  case False
  let ?vol = "case pl_convert_volume_for_special_range flock volume of Some res \<Rightarrow> res | None \<Rightarrow> volume"
  obtain d p1 where g: "get_domain p ?vol = (d, p1)" by fastforce
  note G = get_domain_il [OF ok g]
  let ?lk = "(new_inode_lock newid flock rt (domain d) conn_id)\<lparr>il_user_flock := flock\<rparr>"
  have lk: "il_id ?lk = newid" "il_ref ?lk = 1" "il_frame ?lk = frame_id rt" "il_type ?lk = l_type flock"
    by (simp_all add: new_inode_lock_def)
  show ?thesis
  proof (cases "cmd = F_SETLKW \<or> cmd = F_SETLK")
    case True
    have fr: "il_id ?lk \<notin># il_objs d"
      using fresh G(3) il_objs_domain [OF G(6)] lk(1) by (metis mset_subset_eqD)
    obtain ret c d' ev0 where s: "pl_inode_setlk ctxs ino p1 ?lk (cmd = F_SETLKW) d =
        (ret, c, (set_domain p1 d')\<lparr>inode_refs := inode_refs p1 + int (dom_locks d') - int (dom_locks d)\<rparr>, ev0)"
      "il_request_post d ?lk (cmd = F_SETLKW) ret d' ev0"
      "ret = 0 \<or> ret = - EAGAIN \<and> il_type ?lk \<noteq> F_UNLCK \<or> ret = - EINVAL \<and> il_type ?lk = F_UNLCK"
      using pl_inode_setlk_ok [OF G(7) fr lk(2) G(8) G(6)] by blast
    let ?p = "(set_domain p1 d')\<lparr>inode_refs := inode_refs p1 + int (dom_locks d') - int (dom_locks d)\<rparr>"
    note I = il_request_inode [OF G(1,6) s(2)]
    have r: "p' = ?p \<and> ev = ev0 @ (if ret < 0 \<and> cmd = F_SETLKW \<and> l_type flock \<noteq> F_UNLCK then []
        else [UnwindInodelk (frame_id rt) (if ret < 0 then -1 else 0) (if ret < 0 then - ret else 0)])"
      using step False True g s(1) by (auto simp: pl_common_inodelk_def Let_def split: if_splits)
    have "il_alloc cmd flock newid = {#newid#}" using True False by (auto simp: il_alloc_def)
    moreover have "entrylks_kept p p'"
      using set_domain_kept(1) [OF g] s(2) r by (simp add: il_request_post_def)
    ultimately show ?thesis using I G(2,3) r lk s(3)
      by (cases "ret < 0 \<and> cmd = F_SETLKW \<and> l_type flock \<noteq> F_UNLCK") auto
  next
    case unsup: False
    then have "p' = p1" "ev = [UnwindInodelk (frame_id rt) (-1) ENOTSUP]"
      using step False g by (auto simp: pl_common_inodelk_def Let_def)
    moreover have "il_alloc cmd flock newid = {#}" using unsup by (auto simp: il_alloc_def)
    ultimately show ?thesis using G get_domain_kept(1) [OF g] by simp
  qed
qed

end
