(* ===== verification/Locks_Entrylk.thy ===== *)
theory Locks_Entrylk
  imports Locks_Types Wait_Queue
begin

text \<open>
  Entry locks: xlators/features/locks/src/entrylk.c.  A lock names an entry of a directory, or
  all of them when its basename is NULL (\<open>None\<close>).  Objects, reference counts and the two lists
  of a domain are treated as for inode locks.
\<close>

section \<open>Definitions\<close>

subsection \<open>Objects\<close>

definition pl_entrylk_ref :: "pl_entry_lock \<Rightarrow> pl_entry_lock" where
  "pl_entrylk_ref l = l\<lparr>el_ref := el_ref l + 1\<rparr>"

definition upd_entrylk :: "addr \<Rightarrow> (pl_entry_lock \<Rightarrow> pl_entry_lock) \<Rightarrow> pl_dom \<Rightarrow> pl_dom" where
  "upd_entrylk i f dm = dm\<lparr>
     entrylk_list := map (\<lambda>l. if el_id l = i then f l else l) (entrylk_list dm),
     blocked_entrylks := map (\<lambda>l. if el_id l = i then f l else l) (blocked_entrylks dm)\<rparr>"

definition pl_entrylk_unref :: "pl_entry_lock \<Rightarrow> pl_event list" where
  "pl_entrylk_unref l = (if el_ref l - 1 = 0 then [FreeEntrylk (el_id l)] else [])"

definition pl_entrylk_unref_id :: "addr \<Rightarrow> pl_dom \<Rightarrow> pl_dom \<times> pl_event list" where
  "pl_entrylk_unref_id i dm =
     (let d = upd_entrylk i (\<lambda>l. l\<lparr>el_ref := el_ref l - 1\<rparr>) dm;
          gone = (\<lambda>l. el_id l = i \<and> el_ref l = 0)
      in (d\<lparr>entrylk_list := filter (\<lambda>l. \<not> gone l) (entrylk_list d),
            blocked_entrylks := filter (\<lambda>l. \<not> gone l) (blocked_entrylks d)\<rparr>,
          if \<exists>l \<in> set (entrylk_list d @ blocked_entrylks d). gone l then [FreeEntrylk i] else []))"

definition new_entrylk_lock ::
  "addr \<Rightarrow> string option \<Rightarrow> entrylk_type \<Rightarrow> string \<Rightarrow> call_root \<Rightarrow> string option \<Rightarrow> pl_entry_lock" where
  "new_entrylk_lock i basename type vol rt conn_id = \<lparr>
     el_id = i,
     el_ref = 1,
     el_frame = frame_id rt,
     el_volume = vol,
     el_basename = basename,
     el_type = type,
     el_client = rt_client rt,
     el_owner = rt_lk_owner rt,
     el_client_pid = rt_pid rt,
     el_connection_id = conn_id\<rparr>"

subsection \<open>Conflicts\<close>

definition all_names :: "string option \<Rightarrow> bool" where
  "all_names basename \<longleftrightarrow> basename = None"

definition names_conflict :: "string option \<Rightarrow> string option \<Rightarrow> bool" where
  "names_conflict n1 n2 \<longleftrightarrow> all_names n1 \<or> all_names n2 \<or> n1 = n2"

definition same_entrylk_owner :: "pl_entry_lock \<Rightarrow> pl_entry_lock \<Rightarrow> bool" where
  "same_entrylk_owner l1 l2 \<longleftrightarrow>
     is_same_lkowner (el_owner l1) (el_owner l2) \<and> el_client l1 = el_client l2"

definition entrylk_grantable :: "pl_dom \<Rightarrow> pl_entry_lock \<Rightarrow> pl_entry_lock option" where
  "entrylk_grantable dm lock =
     find (\<lambda>tmp. names_conflict (el_basename tmp) (el_basename lock)) (entrylk_list dm)"

text \<open>The C function returns the request itself, not the waiting lock it conflicts with; its
  caller only tests for NULL.\<close>

definition blocked_entrylk_conflict :: "pl_dom \<Rightarrow> pl_entry_lock \<Rightarrow> pl_entry_lock option" where
  "blocked_entrylk_conflict dm lock =
     (if \<exists>tmp \<in> set (blocked_entrylks dm). names_conflict (el_basename tmp) (el_basename lock)
      then Some lock else None)"

definition entrylk_owner_has_lock :: "pl_dom \<Rightarrow> pl_entry_lock \<Rightarrow> bool" where
  "entrylk_owner_has_lock dm newlock \<longleftrightarrow>
     (\<exists>l \<in> set (entrylk_list dm). same_entrylk_owner l newlock) \<or>
     (\<exists>l \<in> set (blocked_entrylks dm). same_entrylk_owner l newlock)"

definition names_equal :: "string option \<Rightarrow> string option \<Rightarrow> bool" where
  "names_equal n1 n2 \<longleftrightarrow> (n1 = None \<and> n2 = None) \<or> (n1 \<noteq> None \<and> n2 \<noteq> None \<and> n1 = n2)"

text \<open>__find_most_matching_lock: the last lock on exactly that name, or else the last one on
  the whole directory.\<close>

definition find_most_matching_lock :: "pl_dom \<Rightarrow> string option \<Rightarrow> pl_entry_lock option" where
  "find_most_matching_lock dm basename =
     (case fold (\<lambda>lock (al, exact).
             if all_names (el_basename lock) then (Some lock, exact)
             else if names_equal (el_basename lock) basename then (al, Some lock)
             else (al, exact)) (entrylk_list dm) (None, None) of
        (al, exact) \<Rightarrow> (if exact \<noteq> None then exact else al))"

subsection \<open>Locking and unlocking in a domain\<close>

definition lock_entrylk :: "pl_dom \<Rightarrow> pl_entry_lock \<Rightarrow> bool \<Rightarrow> int \<times> pl_dom" where
  "lock_entrylk dm lock nonblock =
     (let block = (- EAGAIN, if nonblock then dm
                     else dm\<lparr>blocked_entrylks := list_add_tail lock (blocked_entrylks dm)\<rparr>)
      in if entrylk_grantable dm lock \<noteq> None then block
         else if blocked_entrylk_conflict dm lock \<noteq> None \<and> \<not> entrylk_owner_has_lock dm lock
         then block
         else (0, dm\<lparr>entrylk_list := list_add (pl_entrylk_ref lock) (entrylk_list dm)\<rparr>))"

definition unlock_entrylk :: "pl_dom \<Rightarrow> pl_entry_lock \<Rightarrow> pl_entry_lock option \<times> pl_dom" where
  "unlock_entrylk dm lock =
     (case find_most_matching_lock dm (el_basename lock) of
        None \<Rightarrow> (None, dm)
      | Some tmp \<Rightarrow>
          if names_equal (el_basename tmp) (el_basename lock) \<and> el_type tmp = el_type lock
          then (Some tmp, dm\<lparr>entrylk_list := filter (\<lambda>l. el_id l \<noteq> el_id tmp) (entrylk_list dm)\<rparr>)
          else (None, dm))"

definition check_entrylk_on_basename :: "pl_inode \<Rightarrow> string option \<Rightarrow> bool" where
  "check_entrylk_on_basename p basename \<longleftrightarrow>
     (\<exists>dm \<in> set (dom_list p). case find_most_matching_lock dm basename of
        None \<Rightarrow> False | Some conf \<Rightarrow> el_basename conf \<noteq> None)"

subsection \<open>Granting waiting locks\<close>

fun grant_entrylk_loop ::
  "pl_dom \<Rightarrow> pl_entry_lock list \<Rightarrow> pl_entry_lock list \<Rightarrow> pl_dom \<times> pl_entry_lock list" where
  "grant_entrylk_loop dm [] granted = (dm, granted)"
| "grant_entrylk_loop dm (bl # bls) granted =
     (case lock_entrylk dm bl False of (bl_ret, dm') \<Rightarrow>
        grant_entrylk_loop dm' bls
          (if bl_ret = 0 then list_add (pl_entrylk_ref bl) granted else granted))"

definition grant_blocked_entry_locks_int :: "pl_dom \<Rightarrow> pl_dom \<times> pl_entry_lock list" where
  "grant_blocked_entry_locks_int dm =
     grant_entrylk_loop (dm\<lparr>blocked_entrylks := []\<rparr>) (blocked_entrylks dm) []"

fun release_granted_entry :: "pl_entry_lock list \<Rightarrow> pl_dom \<Rightarrow> pl_dom \<times> pl_event list" where
  "release_granted_entry [] dm = (dm, [])"
| "release_granted_entry (l # ls) dm =
     (case pl_entrylk_unref_id (el_id l) (upd_entrylk (el_id l) (\<lambda>x. x\<lparr>el_frame := NULL\<rparr>) dm) of
        (dom1, ev1) \<Rightarrow> (case release_granted_entry ls dom1 of (dom2, ev2) \<Rightarrow> (dom2, ev1 @ ev2)))"

definition grant_blocked_entry_locks :: "pl_dom \<Rightarrow> pl_dom \<times> pl_event list" where
  "grant_blocked_entry_locks dm =
     (case grant_blocked_entry_locks_int dm of (dom1, granted) \<Rightarrow>
      case release_granted_entry granted dom1 of (dom2, ev) \<Rightarrow>
        (dom2, map (\<lambda>l. UnwindEntrylk (el_frame l) 0 0) granted @ ev))"

subsection \<open>The request\<close>

text \<open>The three commands of pl_common_entrylk.  \<open>p\<close> is the inode with the extra reference the
  function takes first.\<close>

definition entrylk_lock ::
  "lockers \<Rightarrow> addr \<Rightarrow> pl_inode \<Rightarrow> pl_entry_lock \<Rightarrow> bool \<Rightarrow> pl_dom \<Rightarrow> lockers \<times> pl_inode \<times> pl_event list" where
  "entrylk_lock ctxs ino p reqlock nonblock dm =
     (let c = el_client reqlock in
      case lock_entrylk dm reqlock nonblock of (ret, dom1) \<Rightarrow>
      case (if ret = - EAGAIN \<and> \<not> nonblock then (dom1, [])
            else if ret = 0 then
              pl_entrylk_unref_id (el_id reqlock)
                (upd_entrylk (el_id reqlock) (\<lambda>x. x\<lparr>el_frame := NULL\<rparr>) dom1)
            else (dom1, pl_entrylk_unref reqlock)) of (dom2, ev) \<Rightarrow>
        ((if c \<noteq> NULL \<and> (ret = 0 \<or> \<not> nonblock)
          then ctxs(c := list_add (ino, el_id reqlock) (ctxs c)) else ctxs),
         (set_domain p dom2)\<lparr>inode_refs :=
            (if ret = - EAGAIN \<and> nonblock then inode_refs p - 1 else inode_refs p)\<rparr>,
         ev @ (if ret = - EAGAIN \<and> \<not> nonblock then []
               else [UnwindEntrylk (el_frame reqlock) (if ret = 0 then 0 else -1) (- ret)])))"

definition entrylk_unlock ::
  "lockers \<Rightarrow> addr \<Rightarrow> pl_inode \<Rightarrow> pl_entry_lock \<Rightarrow> pl_dom \<Rightarrow> lockers \<times> pl_inode \<times> pl_event list" where
  "entrylk_unlock ctxs ino p reqlock dm =
     (case unlock_entrylk dm reqlock of
        (None, dom1) \<Rightarrow>
          (case grant_blocked_entry_locks dom1 of (dom2, ev) \<Rightarrow>
            (ctxs, (set_domain p dom2)\<lparr>inode_refs := inode_refs p - 1\<rparr>,
             pl_entrylk_unref reqlock @ ev @ [UnwindEntrylk (el_frame reqlock) (-1) EINVAL]))
      | (Some unlocked, dom1) \<Rightarrow>
          (case grant_blocked_entry_locks dom1 of (dom2, ev) \<Rightarrow>
            (ctxs(el_client unlocked :=
               filter (\<lambda>x. x \<noteq> (ino, el_id unlocked)) (ctxs (el_client unlocked))),
             (set_domain p dom2)\<lparr>inode_refs := inode_refs p - 1 - 1\<rparr>,
             pl_entrylk_unref unlocked @ pl_entrylk_unref reqlock @ ev @
               [UnwindEntrylk (el_frame reqlock) 0 0])))"

definition pl_common_entrylk ::
  "lockers \<Rightarrow> addr \<Rightarrow> pl_inode \<Rightarrow> call_root \<Rightarrow> string \<Rightarrow> string option \<Rightarrow> entrylk_cmd \<Rightarrow> entrylk_type \<Rightarrow>
   string option \<Rightarrow> addr \<Rightarrow> lockers \<times> pl_inode \<times> pl_event list" where
  "pl_common_entrylk ctxs ino p0 rt volume basename cmd type conn_id newid =
     (case get_domain p0 volume of (dm, p1) \<Rightarrow>
        (let reqlock = new_entrylk_lock newid basename type (domain dm) rt conn_id;
             p = p1\<lparr>inode_refs := inode_refs p1 + 1\<rparr>
         in case cmd of
              ENTRYLK_LOCK_NB \<Rightarrow> entrylk_lock ctxs ino p reqlock True dm
            | ENTRYLK_LOCK \<Rightarrow> entrylk_lock ctxs ino p reqlock False dm
            | ENTRYLK_UNLOCK \<Rightarrow> entrylk_unlock ctxs ino p reqlock dm
            | ENTRYLK_other \<Rightarrow> (ctxs, p\<lparr>inode_refs := inode_refs p - 1\<rparr>,
                [UnwindEntrylk (frame_id rt) (-1) 0])))"

subsection \<open>Counting\<close>

definition get_entrylk_count :: "pl_inode \<Rightarrow> nat" where
  "get_entrylk_count p =
     sum_list (map (\<lambda>dm. length (entrylk_list dm) + length (blocked_entrylks dm)) (dom_list p))"

subsection \<open>Client disconnect\<close>

definition find_entrylk :: "pl_inode \<Rightarrow> addr \<Rightarrow> pl_entry_lock option" where
  "find_entrylk p i = find (\<lambda>l. el_id l = i)
     (concat (map (\<lambda>d. entrylk_list d @ blocked_entrylks d) (dom_list p)))"

definition entrylk_is_granted :: "pl_inode \<Rightarrow> addr \<Rightarrow> bool" where
  "entrylk_is_granted p i \<longleftrightarrow> (\<exists>d \<in> set (dom_list p). \<exists>l \<in> set (entrylk_list d). el_id l = i)"

definition unlink_entrylk :: "pl_inode \<Rightarrow> addr \<Rightarrow> pl_inode" where
  "unlink_entrylk p i = p\<lparr>dom_list := map (\<lambda>d.
     if entrylk_is_granted p i
     then d\<lparr>entrylk_list := filter (\<lambda>l. el_id l \<noteq> i) (entrylk_list d)\<rparr>
     else d\<lparr>blocked_entrylks := filter (\<lambda>l. el_id l \<noteq> i) (blocked_entrylks d)\<rparr>) (dom_list p)\<rparr>"

fun entrylk_cleanup_unlink ::
  "(addr \<Rightarrow> pl_inode) \<Rightarrow> (addr \<times> addr) list \<Rightarrow>
   (addr \<Rightarrow> pl_inode) \<times> (addr \<times> pl_entry_lock) list \<times> (addr \<times> pl_entry_lock) list" where
  "entrylk_cleanup_unlink inodes [] = (inodes, [], [])"
| "entrylk_cleanup_unlink inodes ((ino, i) # ls) =
     (case find_entrylk (inodes ino) i of
        None \<Rightarrow> entrylk_cleanup_unlink inodes ls
      | Some l \<Rightarrow>
          (case entrylk_cleanup_unlink (inodes(ino := unlink_entrylk (inodes ino) i)) ls of
             (inodes', released, unwind) \<Rightarrow>
               if entrylk_is_granted (inodes ino) i then (inodes', (ino, l) # released, unwind)
               else (inodes', released, (ino, l) # unwind)))"

fun entrylk_cleanup_release ::
  "(addr \<Rightarrow> pl_inode) \<Rightarrow> (addr \<times> pl_entry_lock) list \<Rightarrow> (addr \<Rightarrow> pl_inode) \<times> pl_event list" where
  "entrylk_cleanup_release inodes [] = (inodes, [])"
| "entrylk_cleanup_release inodes ((ino, l) # ls) =
     (case get_domain (inodes ino) (el_volume l) of (dm, p1) \<Rightarrow>
      case grant_blocked_entry_locks dm of (dom1, ev1) \<Rightarrow>
        (let p2 = (set_domain p1 dom1)\<lparr>inode_refs := inode_refs p1 - 1\<rparr> in
         case entrylk_cleanup_release (inodes(ino := p2)) ls of
           (inodes', ev2) \<Rightarrow> (inodes', ev1 @ pl_entrylk_unref l @ ev2)))"

definition pl_entrylk_client_cleanup ::
  "(addr \<Rightarrow> pl_inode) \<Rightarrow> lockers \<Rightarrow> addr \<Rightarrow> (addr \<Rightarrow> pl_inode) \<times> lockers \<times> pl_event list" where
  "pl_entrylk_client_cleanup inodes ctxs c =
     (case entrylk_cleanup_unlink inodes (ctxs c) of (inodes1, released, unwind) \<Rightarrow>
        (let ev1 = map (\<lambda>(ino, l). UnwindEntrylk (el_frame l) (-1) EAGAIN)
                     (filter (\<lambda>(ino, l). el_frame l \<noteq> NULL) unwind)
         in case entrylk_cleanup_release inodes1 (released @ unwind) of
              (inodes2, ev2) \<Rightarrow> (inodes2, ctxs(c := []), ev1 @ ev2)))"

end
