(* ===== verification/Locks_Entrylk_Props.thy ===== *)
theory Locks_Entrylk_Props
  imports Locks_Entrylk
begin

text \<open>
  Correctness of entry locks: the domain operations implement the waiting-queue contract, every
  request keeps the domains' invariant and the reference counts, and the replies account
  for every frame.
\<close>

section \<open>The queue contract\<close>

definition el_dom :: "pl_entry_lock list \<Rightarrow> pl_entry_lock list \<Rightarrow> pl_dom" where
  "el_dom G B = (allocate_domain '''')\<lparr>entrylk_list := G, blocked_entrylks := B\<rparr>"

text \<open>Whatever its type and owner, a lock on a conflicting name keeps a request out.\<close>

definition el_conflict :: "pl_entry_lock \<Rightarrow> pl_entry_lock \<Rightarrow> bool" where
  "el_conflict x y \<longleftrightarrow> names_conflict (el_basename y) (el_basename x)"

definition el_admit :: "pl_entry_lock list \<Rightarrow> pl_entry_lock list \<Rightarrow> pl_entry_lock \<Rightarrow> bool" where
  "el_admit G B l \<longleftrightarrow> fst (lock_entrylk (el_dom G B) l False) = 0"

definition el_retry ::
  "pl_entry_lock list \<Rightarrow> pl_entry_lock list \<Rightarrow> pl_entry_lock list \<Rightarrow> pl_entry_lock list \<Rightarrow>
   pl_entry_lock list \<times> pl_entry_lock list \<times> pl_entry_lock list" where
  "el_retry G B ls gr = (case grant_entrylk_loop (el_dom G B) ls gr of
     (d, gr') \<Rightarrow> (entrylk_list d, blocked_entrylks d, gr'))"

lemmas entrylk_conflict_defs =
  el_conflict_def names_conflict_def all_names_def same_entrylk_owner_def

lemma el_admit_iff:
  "el_admit G B l \<longleftrightarrow> \<not> (\<exists>g \<in> set G. el_conflict l g) \<and>
     (\<not> (\<exists>b \<in> set B. el_conflict l b) \<or> (\<exists>x \<in> set G \<union> set B. same_entrylk_owner x l))"
  unfolding el_admit_def lock_entrylk_def Let_def entrylk_grantable_def blocked_entrylk_conflict_def
    entrylk_owner_has_lock_def
  by (auto simp: find_None_iff el_dom_def el_conflict_def)

lemma lock_entrylk_eq:
  "lock_entrylk d l nonblock =
     (if el_admit (entrylk_list d) (blocked_entrylks d) l
      then (0, d\<lparr>entrylk_list := pl_entrylk_ref l # entrylk_list d\<rparr>)
      else (- EAGAIN, if nonblock then d else d\<lparr>blocked_entrylks := blocked_entrylks d @ [l]\<rparr>))"
  unfolding el_admit_def lock_entrylk_def Let_def entrylk_grantable_def blocked_entrylk_conflict_def
    entrylk_owner_has_lock_def
  by (simp add: el_dom_def list_add_def list_add_tail_def)

lemma grant_entrylk_loop_dom:
  "grant_entrylk_loop d ls gr =
     (case grant_entrylk_loop (el_dom (entrylk_list d) (blocked_entrylks d)) ls gr of
        (e, gr') \<Rightarrow> (d\<lparr>entrylk_list := entrylk_list e, blocked_entrylks := blocked_entrylks e\<rparr>, gr'))"
proof (induction ls arbitrary: d gr)
  case Nil
  then show ?case by (simp add: el_dom_def)
next
  case (Cons l ls)
  let ?d1 = "d\<lparr>entrylk_list := pl_entrylk_ref l # entrylk_list d\<rparr>"
  let ?d2 = "d\<lparr>blocked_entrylks := blocked_entrylks d @ [l]\<rparr>"
  show ?case
    using Cons.IH [of ?d1 "list_add (pl_entrylk_ref l) gr"] Cons.IH [of ?d2 gr]
    by (simp add: lock_entrylk_eq el_dom_def allocate_domain_def list_add_def split: prod.splits)
qed

lemma grant_entrylk_loop_eq:
  "grant_entrylk_loop d ls gr =
     (case el_retry (entrylk_list d) (blocked_entrylks d) ls gr of
        (G, B, gr') \<Rightarrow> (d\<lparr>entrylk_list := G, blocked_entrylks := B\<rparr>, gr'))"
  by (subst grant_entrylk_loop_dom) (simp add: el_retry_def split: prod.splits)

interpretation elq: wait_queue el_conflict el_conflict same_entrylk_owner pl_entrylk_ref
  el_admit el_retry
proof
  fix G B :: "pl_entry_lock list" and l ls gr
  show "el_retry G B (l # ls) gr =
     (if el_admit G B l then el_retry (pl_entrylk_ref l # G) B ls (pl_entrylk_ref l # gr)
      else el_retry G (B @ [l]) ls gr)"
    by (simp add: el_retry_def lock_entrylk_eq el_dom_def allocate_domain_def list_add_def)
  show "el_retry G B [] gr = (G, B, gr)" by (simp add: el_retry_def el_dom_def)
qed (fact el_admit_iff, auto simp: entrylk_conflict_defs pl_entrylk_ref_def)

section \<open>Objects\<close>

text \<open>An object on the granted list when its frame has been answered and the extra reference
  dropped.\<close>

definition el_settle :: "addr set \<Rightarrow> pl_entry_lock \<Rightarrow> pl_entry_lock" where
  "el_settle I l = (if el_id l \<in> I then l\<lparr>el_frame := NULL, el_ref := el_ref l - 1\<rparr> else l)"

interpretation elc: counted_queue el_conflict el_conflict same_entrylk_owner pl_entrylk_ref
  el_admit el_retry el_id el_ref el_settle
  by unfold_locales
    (auto simp: el_settle_def pl_entrylk_ref_def entrylk_conflict_defs)

lemma pl_entrylk_unref_id_keeps:
  assumes "\<forall>l \<in> set (entrylk_list d @ blocked_entrylks d). el_id l = i \<longrightarrow> el_ref l \<noteq> 1"
  shows "pl_entrylk_unref_id i (upd_entrylk i (\<lambda>x. x\<lparr>el_frame := NULL\<rparr>) d) =
    (d\<lparr>entrylk_list := map (el_settle {i}) (entrylk_list d),
       blocked_entrylks := map (el_settle {i}) (blocked_entrylks d)\<rparr>, [])"
proof -
  have m: "map (\<lambda>l. if el_id l = i then l\<lparr>el_ref := el_ref l - 1\<rparr> else l)
      (map (\<lambda>l. if el_id l = i then l\<lparr>el_frame := NULL\<rparr> else l) xs) = map (el_settle {i}) xs" for xs
    by (simp add: el_settle_def)
  have k: "el_id (el_settle {i} l) = i \<longrightarrow> el_ref (el_settle {i} l) \<noteq> 0"
    if "l \<in> set (entrylk_list d) \<or> l \<in> set (blocked_entrylks d)" for l
    using assms that by (auto simp: el_settle_def)
  have f: "filter (\<lambda>l. \<not> (el_id l = i \<and> el_ref l = 0)) (map (el_settle {i}) (entrylk_list d)) =
        map (el_settle {i}) (entrylk_list d)"
     "filter (\<lambda>l. \<not> (el_id l = i \<and> el_ref l = 0)) (map (el_settle {i}) (blocked_entrylks d)) =
        map (el_settle {i}) (blocked_entrylks d)"
    using k by (auto simp: filter_id_conv)
  have n: "\<not> (\<exists>l \<in> set (map (el_settle {i}) (entrylk_list d) @ map (el_settle {i}) (blocked_entrylks d)).
      el_id l = i \<and> el_ref l = 0)"
    using k by (simp add: ball_Un)
  show ?thesis unfolding pl_entrylk_unref_id_def Let_def upd_entrylk_def
    using m f n by simp
qed

lemma release_granted_entry_eq:
  assumes "distinct (map el_id gr)"
    and "\<forall>l \<in> set (entrylk_list d @ blocked_entrylks d). el_id l \<in> el_id ` set gr \<longrightarrow> el_ref l \<noteq> 1"
  shows "release_granted_entry gr d =
    (d\<lparr>entrylk_list := map (el_settle (el_id ` set gr)) (entrylk_list d),
       blocked_entrylks := map (el_settle (el_id ` set gr)) (blocked_entrylks d)\<rparr>, [])"
  using assms
proof (induction gr arbitrary: d)
  case Nil
  then show ?case by (simp add: el_settle_def)
next
  case (Cons g gr)
  let ?d = "d\<lparr>entrylk_list := map (el_settle {el_id g}) (entrylk_list d),
       blocked_entrylks := map (el_settle {el_id g}) (blocked_entrylks d)\<rparr>"
  have 1: "pl_entrylk_unref_id (el_id g) (upd_entrylk (el_id g) (\<lambda>x. x\<lparr>el_frame := NULL\<rparr>) d) = (?d, [])"
    by (rule pl_entrylk_unref_id_keeps) (use Cons.prems in auto)
  have 2: "el_settle (el_id ` set gr) (el_settle {el_id g} l) = el_settle (el_id ` set (g # gr)) l" for l
    using Cons.prems(1) by (auto simp: el_settle_def)
  have "release_granted_entry gr ?d =
    (?d\<lparr>entrylk_list := map (el_settle (el_id ` set gr)) (entrylk_list ?d),
       blocked_entrylks := map (el_settle (el_id ` set gr)) (blocked_entrylks ?d)\<rparr>, [])"
    by (rule Cons.IH) (use Cons.prems in \<open>auto simp: el_settle_def\<close>)
  then show ?case using 1 2 by (simp add: comp_def)
qed

section \<open>Invariant of a domain\<close>

text \<open>\<open>el_dom_pre\<close> is everything but the reason each waiter has to wait, which the retry
  restores.\<close>

definition el_dom_pre :: "pl_dom \<Rightarrow> bool" where
  "el_dom_pre d \<longleftrightarrow> elc.counted (entrylk_list d) (blocked_entrylks d)"

definition el_dom_ok :: "pl_dom \<Rightarrow> bool" where
  "el_dom_ok d \<longleftrightarrow> el_dom_pre d \<and> elq.queue_ok (entrylk_list d) (blocked_entrylks d)"

text \<open>The retry after a release, on a domain that lacks at most the reasons for waiting: the
  invariant holds again, the inode locks and the name are untouched, the admitted waiters
  are answered with success, and each waiter is admitted or still queued.\<close>

lemma grant_blocked_entry_locks_ok:
  assumes pre: "el_dom_pre d"
  obtains d' adm where
    "grant_blocked_entry_locks d = (d', map (\<lambda>l. UnwindEntrylk (el_frame l) 0 0) (rev adm))"
    "el_dom_ok d'" "domain d' = domain d" "inodelk_list d' = inodelk_list d"
    "blocked_inodelks d' = blocked_inodelks d"
    "mset (blocked_entrylks d) = mset adm + mset (blocked_entrylks d')"
    "map el_id (entrylk_list d') = map el_id (rev adm @ entrylk_list d)"
proof -
  obtain G' B' gr where r: "el_retry (entrylk_list d) [] (blocked_entrylks d) [] = (G', B', gr)"
    by (metis prod_cases3)
  from elc.retry_counted [OF pre [unfolded el_dom_pre_def] r] obtain adm where
    R: "gr = rev (map pl_entrylk_ref adm)" "mset (blocked_entrylks d) = mset adm + mset B'"
    "map el_id G' = map el_id (rev adm @ entrylk_list d)" "distinct (map el_id gr)"
    "\<forall>l \<in> set (G' @ B'). el_id l \<in> el_id ` set gr \<longrightarrow> el_ref l \<noteq> 1"
    "map (el_settle (el_id ` set gr)) B' = B'"
    "elc.counted (map (el_settle (el_id ` set gr)) G') B'"
    "elq.queue_ok (map (el_settle (el_id ` set gr)) G') B'" by blast
  let ?d' = "d\<lparr>entrylk_list := map (el_settle (el_id ` set gr)) G', blocked_entrylks := B'\<rparr>"
  have "grant_blocked_entry_locks d = (?d', map (\<lambda>l. UnwindEntrylk (el_frame l) 0 0) (rev adm))"
    using r release_granted_entry_eq [OF R(4), of "d\<lparr>entrylk_list := G', blocked_entrylks := B'\<rparr>"] R(5,6)
    by (simp add: grant_blocked_entry_locks_def grant_blocked_entry_locks_int_def
        grant_entrylk_loop_eq R(1) rev_map pl_entrylk_ref_def)
  then show thesis
    by (rule that) (use R in \<open>simp_all add: el_dom_ok_def el_dom_pre_def comp_def elc.ident_settle\<close>)
qed

section \<open>Requests\<close>

text \<open>The frames replied to and the objects freed by a list of events.\<close>

fun el_replies :: "pl_event list \<Rightarrow> addr list" where
  "el_replies [] = []"
| "el_replies (UnwindEntrylk fr r e # evs) = fr # el_replies evs"
| "el_replies (_ # evs) = el_replies evs"

fun el_freed :: "pl_event list \<Rightarrow> addr list" where
  "el_freed [] = []"
| "el_freed (FreeEntrylk i # evs) = i # el_freed evs"
| "el_freed (_ # evs) = el_freed evs"

lemma el_replies_append [simp]: "el_replies (xs @ ys) = el_replies xs @ el_replies ys"
  by (induction xs rule: el_replies.induct) auto

lemma el_freed_append [simp]: "el_freed (xs @ ys) = el_freed xs @ el_freed ys"
  by (induction xs rule: el_freed.induct) auto

lemma el_events_granted [simp]:
  "el_replies (map (\<lambda>l. UnwindEntrylk (el_frame l) r e) ls) = map el_frame ls"
  "el_freed (map (\<lambda>l. UnwindEntrylk (el_frame l) r e) ls) = []"
  by (induction ls) auto

lemma el_events_unref [simp]:
  "el_replies (pl_entrylk_unref l) = []"
  "el_ref l = 1 \<Longrightarrow> el_freed (pl_entrylk_unref l) = [el_id l]"
  by (auto simp: pl_entrylk_unref_def)

definition el_objs :: "pl_dom \<Rightarrow> addr multiset" where
  "el_objs d = mset (map el_id (entrylk_list d @ blocked_entrylks d))"

definition el_frames :: "pl_dom \<Rightarrow> addr multiset" where
  "el_frames d = mset (map el_frame (blocked_entrylks d))"

text \<open>What one request, with the frame \<open>fr\<close>, does to its domain \<open>d\<close>; the events include the
  reply to it.\<close>

definition el_request_post ::
  "pl_dom \<Rightarrow> pl_entry_lock \<Rightarrow> pl_dom \<Rightarrow> pl_event list \<Rightarrow> bool" where
  "el_request_post d lock d' ev \<longleftrightarrow>
     el_dom_ok d' \<and> domain d' = domain d \<and> inodelk_list d' = inodelk_list d \<and>
     blocked_inodelks d' = blocked_inodelks d \<and>
     el_frames d + {#el_frame lock#} = el_frames d' + mset (el_replies ev) \<and>
     el_objs d + {#el_id lock#} = el_objs d' + mset (el_freed ev)"

lemma el_dom_locks_objs:
  "dom_locks d = size (el_objs d) + length (inodelk_list d) + length (blocked_inodelks d)"
  by (simp add: dom_locks_def el_objs_def)

text \<open>Locking: the domain after the call and the number of locks in it.\<close>

lemma entrylk_lock_ok:
  assumes ok: "el_dom_ok d" and fresh: "el_id lock \<notin># el_objs d" and ref: "el_ref lock = 1"
  obtains ctxs' d' ev where
    "entrylk_lock ctxs ino p lock nonblock d = (ctxs', (set_domain p d')\<lparr>inode_refs :=
        inode_refs p - 1 + int (dom_locks d') - int (dom_locks d)\<rparr>, ev)"
    "el_request_post d lock d' ev"
proof (cases "el_admit (entrylk_list d) (blocked_entrylks d) lock")
  case True
  let ?o = "el_settle {el_id lock} (pl_entrylk_ref lock)"
  let ?d1 = "d\<lparr>entrylk_list := pl_entrylk_ref lock # entrylk_list d\<rparr>"
  let ?d2 = "d\<lparr>entrylk_list := ?o # entrylk_list d\<rparr>"
  have "pl_entrylk_unref_id (el_id lock) (upd_entrylk (el_id lock) (\<lambda>x. x\<lparr>el_frame := NULL\<rparr>) ?d1) =
    (?d1\<lparr>entrylk_list := map (el_settle {el_id lock}) (entrylk_list ?d1),
       blocked_entrylks := map (el_settle {el_id lock}) (blocked_entrylks ?d1)\<rparr>, [])"
    by (rule pl_entrylk_unref_id_keeps)
      (use fresh ref in \<open>auto simp: pl_entrylk_ref_def el_objs_def image_iff\<close>)
  moreover have "map (el_settle {el_id lock}) (entrylk_list d) = entrylk_list d"
      "map (el_settle {el_id lock}) (blocked_entrylks d) = blocked_entrylks d"
    by (rule elc.settle_others; use fresh in \<open>force simp: el_objs_def\<close>)+
  ultimately have u: "pl_entrylk_unref_id (el_id lock)
      (upd_entrylk (el_id lock) (\<lambda>x. x\<lparr>el_frame := NULL\<rparr>) ?d1) = (?d2, [])" by simp
  have "el_dom_ok ?d2"
    using elc.counted_admit [OF _ _ True ref] ok fresh
    by (simp add: el_dom_ok_def el_dom_pre_def el_objs_def image_Un)
  then have "el_request_post d lock ?d2 [UnwindEntrylk (el_frame lock) 0 0]"
    by (simp add: el_request_post_def el_frames_def el_objs_def elc.ident_settle elc.ident_held)
  then show thesis
    by (rule that [rotated])
      (use True u in \<open>simp add: entrylk_lock_def lock_entrylk_eq Let_def set_domain_def dom_locks_def\<close>)
next
  case False
  let ?b = "d\<lparr>blocked_entrylks := blocked_entrylks d @ [lock]\<rparr>"
  show thesis
  proof (cases nonblock)
    case True
    have "el_request_post d lock d (pl_entrylk_unref lock @ [UnwindEntrylk (el_frame lock) (-1) EAGAIN])"
      using ok ref by (simp add: el_request_post_def)
    then show thesis
      by (rule that [rotated])
        (use True False in \<open>simp add: entrylk_lock_def lock_entrylk_eq Let_def set_domain_def\<close>)
  next
    case nb: False
    have "el_dom_ok ?b"
      using ok elq.queue_ok_snoc [OF _ False] elc.counted_wait [OF _ ref] fresh
      by (simp add: el_dom_ok_def el_dom_pre_def el_objs_def image_Un)
    then have "el_request_post d lock ?b []"
      by (simp add: el_request_post_def el_frames_def el_objs_def)
    then show thesis
      by (rule that [rotated])
        (use nb False in \<open>simp add: entrylk_lock_def lock_entrylk_eq Let_def set_domain_def dom_locks_def\<close>)
  qed
qed

section \<open>Unlocking\<close>

lemma find_most_matching_fold:
  assumes "fold (\<lambda>lock (al, exact).
             if all_names (el_basename lock) then (Some lock, exact)
             else if names_equal (el_basename lock) n then (al, Some lock)
             else (al, exact)) xs (a, e) = (a', e')"
  shows "(a' = a \<or> (\<exists>x \<in> set xs. a' = Some x \<and> el_basename x = None)) \<and>
    (e' = e \<or> (\<exists>x \<in> set xs. e' = Some x \<and> el_basename x = n \<and> n \<noteq> None))"
  using assms
proof (induction xs arbitrary: a e)
  case (Cons x xs)
  let ?a = "if all_names (el_basename x) then Some x else a"
  let ?e = "if \<not> all_names (el_basename x) \<and> names_equal (el_basename x) n then Some x else e"
  have "(a' = ?a \<or> (\<exists>x \<in> set xs. a' = Some x \<and> el_basename x = None)) \<and>
    (e' = ?e \<or> (\<exists>x \<in> set xs. e' = Some x \<and> el_basename x = n \<and> n \<noteq> None))"
    by (rule Cons.IH) (use Cons.prems in \<open>auto split: if_splits\<close>)
  then show ?case by (auto simp: all_names_def names_equal_def split: if_splits)
qed simp

lemma find_most_matching_SomeD:
  assumes "find_most_matching_lock d n = Some r"
  shows "r \<in> set (entrylk_list d)"
proof -
  obtain a' e' where f: "fold (\<lambda>lock (al, exact).
             if all_names (el_basename lock) then (Some lock, exact)
             else if names_equal (el_basename lock) n then (al, Some lock)
             else (al, exact)) (entrylk_list d) (None, None) = (a', e')" by fastforce
  then have "Some r = a' \<or> Some r = e'" using assms by (auto simp: find_most_matching_lock_def split: if_splits)
  then show ?thesis using find_most_matching_fold [OF f] by auto
qed

lemma unlock_entrylk_cases:
  assumes "unlock_entrylk d lock = (r, d1)"
  shows "(case r of None \<Rightarrow> d1 = d
    | Some u \<Rightarrow> u \<in> set (entrylk_list d) \<and> el_basename u = el_basename lock \<and> el_type u = el_type lock \<and>
        d1 = d\<lparr>entrylk_list := filter (\<lambda>l. el_id l \<noteq> el_id u) (entrylk_list d)\<rparr>)"
  using assms find_most_matching_SomeD
  by (auto simp: unlock_entrylk_def names_equal_def split: option.splits if_splits)

lemma entrylk_unlock_ok:
  assumes ok: "el_dom_ok d" and ref: "el_ref lock = 1"
  obtains ctxs' d' ev where
    "entrylk_unlock ctxs ino p lock d = (ctxs', (set_domain p d')\<lparr>inode_refs :=
        inode_refs p - 1 + int (dom_locks d') - int (dom_locks d)\<rparr>, ev)"
    "el_request_post d lock d' ev"
proof -
  obtain r d1 where u: "unlock_entrylk d lock = (r, d1)" by fastforce
  note C = unlock_entrylk_cases [OF u]
  let ?gone = "case r of None \<Rightarrow> {#} | Some x \<Rightarrow> {#x#}"
  have cnt: "elc.counted (entrylk_list d) (blocked_entrylks d)"
    using ok by (simp add: el_dom_ok_def el_dom_pre_def)
  then have dist: "distinct (map el_id (entrylk_list d))" by (simp add: elc.counted_def)
  have pre: "el_dom_pre d1"
    using C elc.counted_delete [OF cnt] cnt by (auto simp: el_dom_pre_def split: option.splits)
  have G: "mset (entrylk_list d) = mset (entrylk_list d1) + ?gone"
    using C mset_filter_key [OF _ dist] by (auto split: option.splits)
  have k: "domain d1 = domain d" "inodelk_list d1 = inodelk_list d"
      "blocked_inodelks d1 = blocked_inodelks d" "blocked_entrylks d1 = blocked_entrylks d"
    using C by (auto split: option.splits)
  obtain d' adm where g: "grant_blocked_entry_locks d1 =
        (d', map (\<lambda>l. UnwindEntrylk (el_frame l) 0 0) (rev adm))"
      "el_dom_ok d'" "domain d' = domain d1" "inodelk_list d' = inodelk_list d1"
      "blocked_inodelks d' = blocked_inodelks d1"
      "mset (blocked_entrylks d1) = mset adm + mset (blocked_entrylks d')"
      "map el_id (entrylk_list d') = map el_id (rev adm @ entrylk_list d1)"
    using grant_blocked_entry_locks_ok [OF pre] by metis
  have objs: "el_objs d = el_objs d' + image_mset el_id ?gone"
    using g(6,7) G k by (simp add: el_objs_def)
  then have cntl: "int (dom_locks d) = int (dom_locks d') + (if r = None then 0 else 1)"
    using g(4,5) k by (auto simp: el_dom_locks_objs split: option.splits)
  have fr: "el_frames d = el_frames d' + mset (map el_frame (rev adm))"
    using g(6) k by (simp add: el_frames_def)
  have ref1: "el_ref x = 1" if "r = Some x" for x
    using that C cnt by (auto simp: elc.counted_def)
  let ?ev = "(case r of None \<Rightarrow> [] | Some x \<Rightarrow> pl_entrylk_unref x) @ pl_entrylk_unref lock @
      map (\<lambda>l. UnwindEntrylk (el_frame l) 0 0) (rev adm) @
      [UnwindEntrylk (el_frame lock) (if r = None then -1 else 0) (if r = None then EINVAL else 0)]"
  let ?c = "case r of None \<Rightarrow> ctxs | Some x \<Rightarrow>
      ctxs(el_client x := filter (\<lambda>y. y \<noteq> (ino, el_id x)) (ctxs (el_client x)))"
  have "entrylk_unlock ctxs ino p lock d = (?c, (set_domain p d')\<lparr>inode_refs :=
        inode_refs p - 1 + int (dom_locks d') - int (dom_locks d)\<rparr>, ?ev)"
    using cntl g(1) by (cases r) (simp_all add: entrylk_unlock_def u set_domain_def)
  moreover have "el_request_post d lock d' ?ev"
    using g(2-5) k objs fr ref ref1 by (cases r) (simp_all add: el_request_post_def)
  ultimately show thesis using that by blast
qed

section \<open>Invariant of the inode\<close>

definition el_waiting :: "pl_inode \<Rightarrow> addr multiset" where
  "el_waiting p = sum_list (map el_frames (dom_list p))"

definition el_objects :: "pl_inode \<Rightarrow> addr multiset" where
  "el_objects p = sum_list (map el_objs (dom_list p))"

definition el_inode_ok :: "pl_inode \<Rightarrow> bool" where
  "el_inode_ok p \<longleftrightarrow> doms_distinct p \<and> (\<forall>d \<in> set (dom_list p). el_dom_ok d) \<and>
     inode_refs p = int (inode_locks p)"

lemma el_empty_domain_ok [simp]:
  "el_dom_ok (allocate_domain v)" "el_frames (allocate_domain v) = {#}"
  "el_objs (allocate_domain v) = {#}" "dom_locks (allocate_domain v) = 0"
  by (simp_all add: allocate_domain_def el_dom_ok_def el_dom_pre_def elc.counted_def elq.compatible_def
      el_frames_def el_objs_def dom_locks_def)

lemma get_domain_el:
  assumes "el_inode_ok p" "get_domain p v = (d, p1)"
  shows "el_inode_ok p1" "el_waiting p1 = el_waiting p" "el_objects p1 = el_objects p"
    "d \<in> set (dom_list p1)" "el_dom_ok d"
proof -
  show t: "el_waiting p1 = el_waiting p" "el_objects p1 = el_objects p"
    by (simp_all add: el_waiting_def el_objects_def sum_get_domain [OF assms(2)])
  have "inode_locks p1 = inode_locks p" by (simp add: inode_locks_def sum_get_domain [OF assms(2)])
  moreover have "inode_refs p1 = inode_refs p" by (rule get_domain_fields [OF assms(2)])
  moreover have "doms_distinct p1"
    using assms get_domain_distinct by (auto simp: el_inode_ok_def)
  moreover have "\<forall>e \<in> set (dom_list p1). el_dom_ok e"
    using get_domain_cases [OF assms(2)] assms(1) unfolding el_inode_ok_def
    by (metis el_empty_domain_ok(1))
  moreover show "d \<in> set (dom_list p1)" using assms(2) by (rule get_domain_in_list)
  ultimately show "el_inode_ok p1" "el_dom_ok d" using assms(1) by (auto simp: el_inode_ok_def)
qed

lemma el_request_inode:
  assumes ok: "el_inode_ok p" and d: "d \<in> set (dom_list p)"
    and post: "el_request_post d lock d' ev"
  defines "p' \<equiv> (set_domain p d')\<lparr>inode_refs := inode_refs p + int (dom_locks d') - int (dom_locks d)\<rparr>"
  shows "el_inode_ok p'"
    "el_waiting p + {#el_frame lock#} = el_waiting p' + mset (el_replies ev)"
    "el_objects p + {#el_id lock#} = el_objects p' + mset (el_freed ev)"
proof -
  have dd: "doms_distinct p" using ok by (simp add: el_inode_ok_def)
  have P: "el_dom_ok d'" "domain d' = domain d"
    "el_frames d + {#el_frame lock#} = el_frames d' + mset (el_replies ev)"
    "el_objs d + {#el_id lock#} = el_objs d' + mset (el_freed ev)"
    using post by (auto simp: el_request_post_def)
  have l: "dom_list p' = dom_list (set_domain p d')" by (simp add: p'_def)
  note S = sum_set_domain [OF dd d P(2), folded l]
  have "inode_locks p' + dom_locks d = inode_locks p + dom_locks d'"
    using S [of dom_locks] by (simp add: inode_locks_def)
  then have "inode_refs p' = int (inode_locks p')"
    using ok by (simp add: p'_def el_inode_ok_def)
  moreover have "doms_distinct p'"
    using set_domain_distinct [OF dd, of d'] by (simp add: p'_def doms_distinct_def)
  moreover have "\<forall>e \<in> set (dom_list p'). el_dom_ok e"
    using P(1) ok set_domain_in [of _ p d'] unfolding l el_inode_ok_def by metis
  ultimately show "el_inode_ok p'" by (simp add: el_inode_ok_def)
  show "el_waiting p + {#el_frame lock#} = el_waiting p' + mset (el_replies ev)"
    unfolding el_waiting_def by (rule mset_balance [OF S [of el_frames] P(3)])
  show "el_objects p + {#el_id lock#} = el_objects p' + mset (el_freed ev)"
    unfolding el_objects_def by (rule mset_balance [OF S [of el_objs] P(4)])
qed

lemma pl_common_entrylk_ok:
  assumes ok: "el_inode_ok p" and fresh: "newid \<notin># el_objects p"
    and step: "pl_common_entrylk ctxs ino p rt volume basename cmd type conn_id newid = (ctxs', p', ev)"
  shows "el_inode_ok p' \<and> el_waiting p + {#frame_id rt#} = el_waiting p' + mset (el_replies ev) \<and>
    el_objects p + (if cmd = ENTRYLK_other then {#} else {#newid#}) = el_objects p' + mset (el_freed ev) \<and>
    inodelks_kept p p'"
proof -
  obtain d p1 where g: "get_domain p volume = (d, p1)" by fastforce
  note G = get_domain_el [OF ok g]
  let ?lk = "new_entrylk_lock newid basename type (domain d) rt conn_id"
  let ?q = "p1\<lparr>inode_refs := inode_refs p1 + 1\<rparr>"
  have lk: "el_id ?lk = newid" "el_ref ?lk = 1" "el_frame ?lk = frame_id rt"
    by (simp_all add: new_entrylk_lock_def)
  have "el_objs d \<subseteq># el_objects p1" unfolding el_objects_def by (rule mset_le_sum_list [OF G(4)])
  then have fr: "el_id ?lk \<notin># el_objs d" using fresh G(3) lk(1) by (metis mset_subset_eqD)
  show ?thesis
  proof (cases "cmd = ENTRYLK_other")
    case True
    then have "p' = p1" "ev = [UnwindEntrylk (frame_id rt) (-1) 0]"
      using step g by (auto simp: pl_common_entrylk_def Let_def)
    then show ?thesis using True G get_domain_kept(2) [OF g] by simp
  next
    case False
    have "(ctxs', p', ev) = (if cmd = ENTRYLK_UNLOCK then entrylk_unlock ctxs ino ?q ?lk d
        else entrylk_lock ctxs ino ?q ?lk (cmd = ENTRYLK_LOCK_NB) d)"
      using step g False by (cases cmd) (simp_all add: pl_common_entrylk_def Let_def)
    moreover have "\<exists>c d2 e. (if cmd = ENTRYLK_UNLOCK then entrylk_unlock ctxs ino ?q ?lk d
        else entrylk_lock ctxs ino ?q ?lk (cmd = ENTRYLK_LOCK_NB) d) = (c, (set_domain ?q d2)\<lparr>inode_refs :=
          inode_refs ?q - 1 + int (dom_locks d2) - int (dom_locks d)\<rparr>, e) \<and> el_request_post d ?lk d2 e"
      by (rule entrylk_lock_ok [OF G(5) fr lk(2), of ctxs ino ?q "cmd = ENTRYLK_LOCK_NB"],
          rule entrylk_unlock_ok [OF G(5) lk(2), of ctxs ino ?q]) auto
    then obtain c d2 e where "(if cmd = ENTRYLK_UNLOCK then entrylk_unlock ctxs ino ?q ?lk d
        else entrylk_lock ctxs ino ?q ?lk (cmd = ENTRYLK_LOCK_NB) d) = (c, (set_domain ?q d2)\<lparr>inode_refs :=
          inode_refs ?q - 1 + int (dom_locks d2) - int (dom_locks d)\<rparr>, e)" "el_request_post d ?lk d2 e"
      by blast
    moreover have "(set_domain ?q d2)\<lparr>inode_refs := inode_refs ?q - 1 + int (dom_locks d2) - int (dom_locks d)\<rparr> =
        (set_domain p1 d2)\<lparr>inode_refs := inode_refs p1 + int (dom_locks d2) - int (dom_locks d)\<rparr>"
      by (simp add: set_domain_def)
    ultimately have r: "p' = (set_domain p1 d2)\<lparr>inode_refs := inode_refs p1 + int (dom_locks d2) - int (dom_locks d)\<rparr>"
        "el_request_post d ?lk d2 ev" by auto
    have "inodelks_kept p p'"
      using set_domain_kept(2) [OF g] r by (simp add: el_request_post_def)
    then show ?thesis
      using el_request_inode [OF G(1,4) r(2)] r(1) lk G(2,3) False by simp
  qed
qed

end
