(* ===== verification/Locks_Domain_Props.thy ===== *)
theory Locks_Domain_Props
  imports Locks_Inodelk_Props Locks_Entrylk_Props
begin

text \<open>
  The properties of the two kinds of domain locks over every state of an inode that calls of
  both kinds can reach, with an example for each.
\<close>

section \<open>Reachable states\<close>

text \<open>The lock state of one inode under any sequence of inode-lock and entry-lock calls.  The
  allocator returns an address not in use by a lock of the same kind.\<close>

inductive dl_reachable :: "lockers \<Rightarrow> lockers \<Rightarrow> pl_inode \<Rightarrow> bool" where
  dl_init: "dom_list p = [] \<Longrightarrow> inode_refs p = 0 \<Longrightarrow> dl_reachable ic ec p"
| dl_inodelk: "dl_reachable ic ec p \<Longrightarrow> newid \<notin># il_objects p \<Longrightarrow>
    pl_common_inodelk ic ino p rt volume cmd flock conn_id newid = (ic', p', ev) \<Longrightarrow>
    dl_reachable ic' ec p'"
| dl_entrylk: "dl_reachable ic ec p \<Longrightarrow> newid \<notin># el_objects p \<Longrightarrow>
    pl_common_entrylk ec ino p rt volume basename ecmd type conn_id newid = (ec', p', ev) \<Longrightarrow>
    dl_reachable ic ec' p'"

lemma il_dom_ok_kept:
  assumes "\<forall>d \<in> set (dom_list p). il_dom_ok d" "inodelks_kept p p'"
  shows "\<forall>d \<in> set (dom_list p'). il_dom_ok d"
proof
  fix d assume d: "d \<in> set (dom_list p')"
  have "il_dom_ok d" if "inodelk_list d = inodelk_list e" "blocked_inodelks d = blocked_inodelks e" "il_dom_ok e" for e
    using that by (simp add: il_dom_ok_def il_dom_pre_def)
  moreover have "il_dom_ok d" if "inodelk_list d = []" "blocked_inodelks d = []"
    using that by (simp add: il_dom_ok_def il_dom_pre_def ilc.counted_def ilq.compatible_def)
  ultimately show "il_dom_ok d" using assms d unfolding inodelks_kept_def by metis
qed

lemma el_dom_ok_kept:
  assumes "\<forall>d \<in> set (dom_list p). el_dom_ok d" "entrylks_kept p p'"
  shows "\<forall>d \<in> set (dom_list p'). el_dom_ok d"
proof
  fix d assume d: "d \<in> set (dom_list p')"
  have "el_dom_ok d" if "entrylk_list d = entrylk_list e" "blocked_entrylks d = blocked_entrylks e" "el_dom_ok e" for e
    using that by (simp add: el_dom_ok_def el_dom_pre_def)
  moreover have "el_dom_ok d" if "entrylk_list d = []" "blocked_entrylks d = []"
    using that by (simp add: el_dom_ok_def el_dom_pre_def elc.counted_def elq.compatible_def)
  ultimately show "el_dom_ok d" using assms d unfolding entrylks_kept_def by metis
qed

lemma dl_reachable_ok: "dl_reachable ic ec p \<Longrightarrow> il_inode_ok p \<and> el_inode_ok p"
proof (induction rule: dl_reachable.induct)
  case (dl_init p ic ec)
  then show ?case by (simp add: il_inode_ok_def el_inode_ok_def doms_distinct_def inode_locks_def)
next
  case (dl_inodelk ic ec p newid ino rt volume cmd flock conn_id ic' p' ev)
  then have i: "il_inode_ok p'" "entrylks_kept p p'" using pl_common_inodelk_ok by blast+
  then have "\<forall>d \<in> set (dom_list p'). el_dom_ok d"
    using el_dom_ok_kept dl_inodelk.IH by (auto simp: el_inode_ok_def)
  then show ?case using i(1) by (simp add: il_inode_ok_def el_inode_ok_def)
next
  case (dl_entrylk ic ec p newid ino rt volume basename ecmd type conn_id ec' p' ev)
  then have e: "el_inode_ok p'" "inodelks_kept p p'" using pl_common_entrylk_ok by blast+
  then have "\<forall>d \<in> set (dom_list p'). il_dom_ok d"
    using il_dom_ok_kept dl_entrylk.IH by (auto simp: il_inode_ok_def)
  then show ?case using e(1) by (simp add: il_inode_ok_def el_inode_ok_def)
qed

lemma dl_reachable_dom:
  "dl_reachable ic ec p \<Longrightarrow> d \<in> set (dom_list p) \<Longrightarrow> il_dom_ok d \<and> el_dom_ok d"
  using dl_reachable_ok by (auto simp: il_inode_ok_def el_inode_ok_def)

lemmas dl_reachable_il = dl_reachable_ok [THEN conjunct1]
lemmas dl_reachable_el = dl_reachable_ok [THEN conjunct2]

abbreviation no_lockers :: lockers where "no_lockers \<equiv> \<lambda>_. []"

text \<open>Sample calls: client \<open>c\<close> asks for a lock on bytes 0 to 9 of domain "d".\<close>

definition il_sample_root :: "nat \<Rightarrow> call_root" where
  "il_sample_root c = \<lparr>frame_id = 100 + c, rt_client = c, rt_pid = 0, rt_lk_owner = [of_nat c],
     rt_uid = 0, rt_gid = 0, rt_groups = []\<rparr>"

definition il_sample_id :: "lockers \<times> pl_inode \<times> pl_event list \<Rightarrow> nat \<Rightarrow> nat \<Rightarrow> lk_cmd \<Rightarrow>
    lk_type \<Rightarrow> lockers \<times> pl_inode \<times> pl_event list" where
  "il_sample_id s c newid cmd ty = (case s of (ctxs, p, ev) \<Rightarrow>
     pl_common_inodelk ctxs 1 p (il_sample_root c) ''d'' cmd
       (zero_flock\<lparr>l_type := ty, l_len := 10\<rparr>) None newid)"

definition il_sample :: "lockers \<times> pl_inode \<times> pl_event list \<Rightarrow> nat \<Rightarrow> lk_cmd \<Rightarrow> lk_type \<Rightarrow>
    lockers \<times> pl_inode \<times> pl_event list" where
  "il_sample s c = il_sample_id s c (1000 + c)"

definition il_held :: "lockers \<times> pl_inode \<times> pl_event list" where
  "il_held = il_sample (\<lambda>_. [], pl_inode_new, []) 1 F_SETLK F_WRLCK"

definition il_waited :: "lockers \<times> pl_inode \<times> pl_event list" where
  "il_waited = il_sample il_held 2 F_SETLKW F_WRLCK"

lemma il_objects_code [simp]: "il_objects p = mset (concat (map (\<lambda>d. map il_id (inodelk_list d @ blocked_inodelks d)) (dom_list p)))"
proof -
  have "sum_list (map il_objs ds) = mset (concat (map (\<lambda>d. map il_id (inodelk_list d @ blocked_inodelks d)) ds))" for ds
    by (induction ds) (auto simp: il_objs_def)
  then show ?thesis by (simp add: il_objects_def)
qed

lemma il_sample_id_reachable:
  assumes "dl_reachable (fst s) no_lockers (fst (snd s))"
    "newid \<notin> set (concat (map (\<lambda>d. map il_id (inodelk_list d @ blocked_inodelks d)) (dom_list (fst (snd s)))))"
  shows "dl_reachable (fst (il_sample_id s c newid cmd ty)) no_lockers
    (fst (snd (il_sample_id s c newid cmd ty)))"
proof -
  obtain ctxs p ev where s: "s = (ctxs, p, ev)" by (cases s)
  obtain ctxs' p' ev' where r: "il_sample_id s c newid cmd ty = (ctxs', p', ev')" by (metis prod_cases3)
  show ?thesis using assms r
    by (auto simp: s il_sample_id_def intro!: dl_inodelk [of ctxs no_lockers p newid])
qed

lemmas il_sample_reachable = il_sample_id_reachable [where newid = "1000 + c" and c = c for c,
  folded il_sample_def]

text \<open>A conflict of two inode locks, in bytes.\<close>

lemma il_blocks_byte:
  assumes "b \<in> {il_start x .. il_end x}" "b \<in> {il_start y .. il_end y}" "il_type x = F_WRLCK"
  shows "il_blocks x y \<longleftrightarrow> \<not> (il_owner x = il_owner y \<and> il_client x = il_client y)"
  using assms by (auto simp: il_blocks_def inodelk_conflict_def inodelk_overlap_def
      inodelk_type_conflict_def same_inodelk_owner_def)

lemma inodelk_conflict_byte:
  assumes "il_start x \<le> il_end x" "il_start y \<le> il_end y" "inodelk_conflict x y"
  shows "\<exists>b. b \<in> {il_start y .. il_end y} \<inter> {il_start x .. il_end x} \<and>
    (il_type y = F_WRLCK \<or> il_type x = F_WRLCK)"
  using assms by (intro exI [of _ "max (il_start x) (il_start y)"])
    (auto simp: inodelk_conflict_def inodelk_overlap_def inodelk_type_conflict_def)

lemma il_held_reachable: "dl_reachable (fst il_held) no_lockers (fst (snd il_held))"
  unfolding il_held_def by (rule il_sample_reachable)
    (auto simp: pl_inode_new_def intro: dl_init)

lemma il_waited_reachable: "dl_reachable (fst il_waited) no_lockers (fst (snd il_waited))"
  unfolding il_waited_def by (rule il_sample_reachable [OF il_held_reachable]) code_simp

section \<open>Properties of inode locks\<close>

text \<open>C13: Inode locks exclude: in every reachable state, when two granted locks of one domain
  cover a common byte and one of them is a write lock, they have the same lock owner and come
  from the same client.\<close>

theorem inodelk_exclusion:
  assumes "dl_reachable ctxs ec p" "d \<in> set (dom_list p)"
    and "i < length (inodelk_list d)" "j < length (inodelk_list d)" "i \<noteq> j"
    and "b \<in> {il_start (inodelk_list d ! i) .. il_end (inodelk_list d ! i)}"
    and "b \<in> {il_start (inodelk_list d ! j) .. il_end (inodelk_list d ! j)}"
    and "il_type (inodelk_list d ! i) = F_WRLCK"
  shows "il_owner (inodelk_list d ! i) = il_owner (inodelk_list d ! j) \<and>
    il_client (inodelk_list d ! i) = il_client (inodelk_list d ! j)"
proof -
  have c: "sorted_wrt (\<lambda>x y. \<not> il_blocks x y) (inodelk_list d)"
    using dl_reachable_dom [OF assms(1,2)] by (simp add: il_dom_ok_def il_dom_pre_def ilc.counted_def ilq.compatible_def)
  have "\<not> il_blocks (inodelk_list d ! i) (inodelk_list d ! j)"
    using assms(3-5) sorted_wrt_nth_less [OF c] ilq.blocks_sym by (metis nat_neq_iff)
  then show ?thesis using il_blocks_byte [OF assms(6-8)] by simp
qed

text \<open>Client 1 may lock the same bytes twice.\<close>

definition il_twice :: "lockers \<times> pl_inode \<times> pl_event list" where
  "il_twice = il_sample_id il_held 1 1003 F_SETLK F_RDLCK"

lemma il_twice_reachable: "dl_reachable (fst il_twice) no_lockers (fst (snd il_twice))"
  unfolding il_twice_def by (rule il_sample_id_reachable [OF il_held_reachable]) code_simp

theorem inodelk_exclusion_witness:
  "il_client (inodelk_list (dom_list (fst (snd il_twice)) ! 0) ! 1) =
   il_client (inodelk_list (dom_list (fst (snd il_twice)) ! 0) ! 0)"
proof -
  have l: "length (dom_list (fst (snd il_twice))) = 1" by code_simp
  have n: "length (inodelk_list (dom_list (fst (snd il_twice)) ! 0)) = 2" by code_simp
  have b: "5 \<in> {il_start (inodelk_list (dom_list (fst (snd il_twice)) ! 0) ! 1) ..
               il_end (inodelk_list (dom_list (fst (snd il_twice)) ! 0) ! 1)}"
    "5 \<in> {il_start (inodelk_list (dom_list (fst (snd il_twice)) ! 0) ! 0) ..
         il_end (inodelk_list (dom_list (fst (snd il_twice)) ! 0) ! 0)}"
    unfolding atLeastAtMost_iff by code_simp+
  have t: "il_type (inodelk_list (dom_list (fst (snd il_twice)) ! 0) ! 1) = F_WRLCK" by code_simp
  show ?thesis using inodelk_exclusion [OF il_twice_reachable _ _ _ _ b t] l n by simp
qed



text \<open>C26: Reference counts are exact: between calls the translator holds on the inode one
  reference per lock granted or waiting, every lock object has exactly one reference, and no
  object is listed twice in a domain.\<close>

theorem domain_lock_refcounts:
  assumes "dl_reachable ctxs ec p"
  shows "inode_refs p = int (inode_locks p) \<and>
    (\<forall>d \<in> set (dom_list p). (\<forall>l \<in> set (inodelk_list d @ blocked_inodelks d). il_ref l = 1) \<and>
       distinct (map il_id (inodelk_list d @ blocked_inodelks d)) \<and>
       (\<forall>l \<in> set (entrylk_list d @ blocked_entrylks d). el_ref l = 1) \<and>
       distinct (map el_id (entrylk_list d @ blocked_entrylks d)))"
  using dl_reachable_ok [OF assms]
  by (simp add: il_inode_ok_def el_inode_ok_def il_dom_ok_def il_dom_pre_def el_dom_ok_def el_dom_pre_def
      ilc.counted_def elc.counted_def)

theorem domain_lock_refcounts_witness: "inode_refs (fst (snd il_waited)) = 2"
proof -
  have "inode_locks (fst (snd il_waited)) = 2" by code_simp
  then show ?thesis using domain_lock_refcounts [OF il_waited_reachable] by simp
qed

text \<open>C27: Every inode-lock call is answered exactly once: the frames waiting before the call
  together with the caller's are the frames waiting after it together with those replied
  to.\<close>

theorem inodelk_replies:
  assumes "dl_reachable ctxs ec p" "newid \<notin># il_objects p"
    and "pl_common_inodelk ctxs ino p rt volume cmd flock conn_id newid = (ctxs', p', ev)"
  shows "il_waiting p + {#frame_id rt#} = il_waiting p' + mset (il_replies ev)"
  using pl_common_inodelk_ok [OF dl_reachable_il [OF assms(1)] assms(2,3)] by blast

theorem inodelk_replies_witness:
  "il_waiting (fst (snd il_held)) + {#102#} =
     il_waiting (fst (snd il_waited)) + mset (il_replies (snd (snd il_waited)))"
proof -
  have f: "1002 \<notin> set (concat (map (\<lambda>d. map il_id (inodelk_list d @ blocked_inodelks d)) (dom_list (fst (snd il_held)))))"
    by code_simp
  obtain ctxs p ev where h: "il_held = (ctxs, p, ev)" by (metis prod_cases3)
  show ?thesis
    using inodelk_replies [OF il_held_reachable, of 1002 1 "il_sample_root 2" "''d''" F_SETLKW
        "zero_flock\<lparr>l_type := F_WRLCK, l_len := 10\<rparr>" None "fst il_waited" "fst (snd il_waited)"
        "snd (snd il_waited)"] f
    by (simp add: il_waited_def il_sample_def il_sample_id_def h il_sample_root_def)
qed

text \<open>No lock object is leaked or freed twice: the objects on the lists before a set
  command together with the new one are those on the lists after it together with those freed.\<close>

theorem inodelk_objects:
  assumes "dl_reachable ctxs ec p" "newid \<notin># il_objects p" "cmd = F_SETLK \<or> cmd = F_SETLKW"
    and "0 \<le> l_start flock" "0 \<le> l_len flock"
    and "pl_common_inodelk ctxs ino p rt volume cmd flock conn_id newid = (ctxs', p', ev)"
  shows "il_objects p + {#newid#} = il_objects p' + mset (il_freed ev)"
  using pl_common_inodelk_ok [OF dl_reachable_il [OF assms(1)] assms(2,6)] assms(3-5)
  by (simp add: il_alloc_def del: il_objects_code)

theorem inodelk_objects_witness:
  "il_objects (fst (snd il_held)) + {#1002#} =
     il_objects (fst (snd il_waited)) + mset (il_freed (snd (snd il_waited)))"
proof -
  have f: "1002 \<notin># il_objects (fst (snd il_held))" unfolding il_objects_code set_mset_mset by code_simp
  obtain ctxs p ev where h: "il_held = (ctxs, p, ev)" by (metis prod_cases3)
  show ?thesis
    using inodelk_objects [OF il_held_reachable f, of F_SETLKW
        "zero_flock\<lparr>l_type := F_WRLCK, l_len := 10\<rparr>" 1 "il_sample_root 2" "''d''"  None "fst il_waited" "fst (snd il_waited)"
        "snd (snd il_waited)"]
    by (simp add: il_waited_def il_sample_def il_sample_id_def h il_sample_root_def zero_flock_def del: il_objects_code)
qed

text \<open>A command other than the two set commands is refused with ENOTSUP and the request
  object it has allocated is neither kept nor freed.\<close>

theorem inodelk_unsupported_leaks:
  assumes "cmd \<noteq> F_SETLK" "cmd \<noteq> F_SETLKW" "0 \<le> l_start flock" "0 \<le> l_len flock"
    and "pl_common_inodelk ctxs ino p rt volume cmd flock conn_id newid = (ctxs', p', ev)"
  shows "ev = [UnwindInodelk (frame_id rt) (-1) ENOTSUP] \<and> il_freed ev = [] \<and> il_objects p' = il_objects p"
proof -
  let ?vol = "case pl_convert_volume_for_special_range flock volume of Some res \<Rightarrow> res | None \<Rightarrow> volume"
  obtain d p1 where g: "get_domain p ?vol = (d, p1)" by fastforce
  have "il_objects p1 = il_objects p"
    by (simp add: il_objects_def sum_get_domain [OF g] del: il_objects_code)
  then show ?thesis using assms g by (auto simp: pl_common_inodelk_def Let_def)
qed

theorem inodelk_unsupported_leaks_witness:
  "il_freed (snd (snd (il_sample il_held 3 F_GETLK F_RDLCK))) = []"
proof -
  obtain ctxs p ev where h: "il_held = (ctxs, p, ev)" by (metis prod_cases3)
  obtain c q e where r: "il_sample il_held 3 F_GETLK F_RDLCK = (c, q, e)" by (metis prod_cases3)
  then show ?thesis using inodelk_unsupported_leaks
      [of F_GETLK "zero_flock\<lparr>l_type := F_RDLCK, l_len := 10\<rparr>" ctxs 1 p "il_sample_root 3" "''d''" None 1003 c q e]
    by (simp add: il_sample_def il_sample_id_def h zero_flock_def)
qed



section \<open>Properties of entry locks\<close>

text \<open>Sample calls: client \<open>c\<close> on the entry \<open>n\<close> of domain "d".\<close>

definition el_sample :: "lockers \<times> pl_inode \<times> pl_event list \<Rightarrow> nat \<Rightarrow> entrylk_cmd \<Rightarrow> string option \<Rightarrow>
    lockers \<times> pl_inode \<times> pl_event list" where
  "el_sample s c cmd n = (case s of (ctxs, p, ev) \<Rightarrow>
     pl_common_entrylk ctxs 1 p (il_sample_root c) ''d'' n cmd ENTRYLK_WRLCK None (2000 + c))"

definition el_held :: "lockers \<times> pl_inode \<times> pl_event list" where
  "el_held = el_sample (no_lockers, pl_inode_new, []) 1 ENTRYLK_LOCK (Some ''a'')"

definition el_waited :: "lockers \<times> pl_inode \<times> pl_event list" where
  "el_waited = el_sample el_held 2 ENTRYLK_LOCK (Some ''a'')"

definition el_two :: "lockers \<times> pl_inode \<times> pl_event list" where
  "el_two = el_sample el_held 2 ENTRYLK_LOCK (Some ''b'')"

lemma el_objects_code: "el_objects p =
    mset (concat (map (\<lambda>d. map el_id (entrylk_list d @ blocked_entrylks d)) (dom_list p)))"
proof -
  have "sum_list (map el_objs ds) =
      mset (concat (map (\<lambda>d. map el_id (entrylk_list d @ blocked_entrylks d)) ds))" for ds
    by (induction ds) (auto simp: el_objs_def)
  then show ?thesis by (simp add: el_objects_def)
qed

lemma el_sample_reachable:
  assumes "dl_reachable no_lockers (fst s) (fst (snd s))"
    "2000 + c \<notin> set (concat (map (\<lambda>d. map el_id (entrylk_list d @ blocked_entrylks d)) (dom_list (fst (snd s)))))"
  shows "dl_reachable no_lockers (fst (el_sample s c cmd n)) (fst (snd (el_sample s c cmd n)))"
proof -
  obtain ctxs p ev where s: "s = (ctxs, p, ev)" by (cases s)
  obtain ctxs' p' ev' where r: "el_sample s c cmd n = (ctxs', p', ev')" by (metis prod_cases3)
  show ?thesis using assms r
    by (auto simp: s el_sample_def el_objects_code intro!: dl_entrylk [of no_lockers ctxs p "2000 + c"])
qed

lemma el_held_reachable: "dl_reachable no_lockers (fst el_held) (fst (snd el_held))"
  unfolding el_held_def by (rule el_sample_reachable)
    (auto simp: pl_inode_new_def intro: dl_init)

lemma el_waited_reachable: "dl_reachable no_lockers (fst el_waited) (fst (snd el_waited))"
  unfolding el_waited_def by (rule el_sample_reachable [OF el_held_reachable]) code_simp

lemma el_two_reachable: "dl_reachable no_lockers (fst el_two) (fst (snd el_two))"
  unfolding el_two_def by (rule el_sample_reachable [OF el_held_reachable]) code_simp

text \<open>C16: Entry locks exclude: in every reachable state two granted entry locks of one domain
  name different entries, and while one names the whole directory it is the only one.\<close>

theorem entrylk_exclusion:
  assumes "dl_reachable ic ec p" "d \<in> set (dom_list p)"
    and "i < length (entrylk_list d)" "j < length (entrylk_list d)" "i \<noteq> j"
  shows "el_basename (entrylk_list d ! i) \<noteq> None \<and> el_basename (entrylk_list d ! j) \<noteq> None \<and>
    el_basename (entrylk_list d ! i) \<noteq> el_basename (entrylk_list d ! j)"
proof -
  have c: "sorted_wrt (\<lambda>x y. \<not> el_conflict x y) (entrylk_list d)"
    using dl_reachable_dom [OF assms(1,2)]
    by (simp add: el_dom_ok_def el_dom_pre_def elc.counted_def elq.compatible_def)
  have "\<not> el_conflict (entrylk_list d ! i) (entrylk_list d ! j)"
    using assms(3-5) sorted_wrt_nth_less [OF c] elq.blocks_sym by (metis nat_neq_iff)
  then show ?thesis by (auto simp: el_conflict_def names_conflict_def all_names_def)
qed

theorem entrylk_exclusion_witness:
  "el_basename (entrylk_list (dom_list (fst (snd el_two)) ! 0) ! 0) \<noteq>
   el_basename (entrylk_list (dom_list (fst (snd el_two)) ! 0) ! 1)"
proof -
  have l: "length (dom_list (fst (snd el_two))) = 1" by code_simp
  have n: "length (entrylk_list (dom_list (fst (snd el_two)) ! 0)) = 2" by code_simp
  show ?thesis using entrylk_exclusion [OF el_two_reachable, of "dom_list (fst (snd el_two)) ! 0" 0 1] l n
    by simp
qed

text \<open>No lost wake-up: each waiting entry lock conflicts with a granted lock or with one
  waiting before it; the first in the queue conflicts with a granted one.\<close>

theorem entrylk_waiters_have_reason:
  assumes "dl_reachable ic ec p" "d \<in> set (dom_list p)" "i < length (blocked_entrylks d)"
  shows "(\<exists>g \<in> set (entrylk_list d).
            names_conflict (el_basename g) (el_basename (blocked_entrylks d ! i))) \<or>
    (\<exists>j < i. names_conflict (el_basename (blocked_entrylks d ! j)) (el_basename (blocked_entrylks d ! i)))"
  using dl_reachable_dom [OF assms(1,2)] assms(3)
  by (auto simp: el_dom_ok_def elq.queue_ok_def el_conflict_def)

theorem entrylk_waiters_have_reason_witness:
  "\<exists>g \<in> set (entrylk_list (dom_list (fst (snd el_waited)) ! 0)).
     names_conflict (el_basename g) (el_basename (blocked_entrylks (dom_list (fst (snd el_waited)) ! 0) ! 0))"
proof -
  have l: "length (dom_list (fst (snd el_waited))) = 1" by code_simp
  have n: "length (blocked_entrylks (dom_list (fst (snd el_waited)) ! 0)) = 1" by code_simp
  show ?thesis
    using entrylk_waiters_have_reason [OF el_waited_reachable, of "dom_list (fst (snd el_waited)) ! 0" 0] l n
    by auto
qed

text \<open>Every entry-lock call is answered exactly once, now or when its lock is granted, and
  every lock object of the three commands ends on a list or is freed once.\<close>

theorem entrylk_accounting:
  assumes "dl_reachable ic ec p" "newid \<notin># el_objects p"
    and "pl_common_entrylk ec ino p rt volume basename cmd type conn_id newid = (ec', p', ev)"
  shows "el_waiting p + {#frame_id rt#} = el_waiting p' + mset (el_replies ev) \<and>
    (cmd \<noteq> ENTRYLK_other \<longrightarrow> el_objects p + {#newid#} = el_objects p' + mset (el_freed ev))"
  using pl_common_entrylk_ok [OF dl_reachable_el [OF assms(1)] assms(2,3)] by auto

theorem entrylk_accounting_witness:
  "el_waiting (fst (snd el_held)) + {#102#} =
     el_waiting (fst (snd el_waited)) + mset (el_replies (snd (snd el_waited)))"
proof -
  have f: "2002 \<notin># el_objects (fst (snd el_held))" unfolding el_objects_code set_mset_mset by code_simp
  obtain ctxs p ev where h: "el_held = (ctxs, p, ev)" by (metis prod_cases3)
  show ?thesis
    using entrylk_accounting [OF el_held_reachable f, of 1 "il_sample_root 2" "''d''" "Some ''a''"
        ENTRYLK_LOCK ENTRYLK_WRLCK None "fst el_waited" "fst (snd el_waited)" "snd (snd el_waited)"]
    by (simp add: el_waited_def el_sample_def h il_sample_root_def)
qed

text \<open>An unlock does not check who holds the lock: with client 1 holding the entry, an
  unlock by client 2 succeeds, frees client 1's lock object and takes it off client 1's
  list of locks.\<close>

theorem entrylk_unlock_by_other_client:
  "fst el_held 1 = [(1, 2001)] \<and>
   fst (el_sample el_held 2 ENTRYLK_UNLOCK (Some ''a'')) 1 = [] \<and>
   entrylk_list (dom_list (fst (snd (el_sample el_held 2 ENTRYLK_UNLOCK (Some ''a'')))) ! 0) = [] \<and>
   snd (snd (el_sample el_held 2 ENTRYLK_UNLOCK (Some ''a''))) =
     [FreeEntrylk 2001, FreeEntrylk 2002, UnwindEntrylk 102 0 0]"
  by code_simp

end
