(* ===== verification/DHT_Hash.thy ===== *)
theory DHT_Hash
  imports GF_Prelude
begin

unbundle bit_operations_syntax

text \<open>
  Hashing of names: the Davies-Meyer hash and the two older string hashes of
  libglusterfs/src/hashfn.c, and the name munging of xlators/cluster/dht/src/dht-hashfn.c.
  Strings are byte lists without the terminating NUL.  Words are read in the byte order of a
  little-endian machine, and \<open>char\<close> is signed, as on x86.
\<close>

type_synonym cstr = "8 word list"

section \<open>Definitions\<close>

subsection \<open>Davies-Meyer hash\<close>

abbreviation (input) DM_DELTA :: u32 where "DM_DELTA \<equiv> 0x9E3779B9"
abbreviation (input) DM_FULLROUNDS :: nat where "DM_FULLROUNDS \<equiv> 10"
abbreviation (input) DM_PARTROUNDS :: nat where "DM_PARTROUNDS \<equiv> 6"

text \<open>The array of four words, and the do-while loop of dm_round; it is entered with
  \<open>n = rounds\<close>, which is 6 or 10.\<close>

datatype dm_array = DM u32 u32 u32 u32

fun dm_loop :: "nat \<Rightarrow> dm_array \<Rightarrow> u32 \<Rightarrow> u32 \<Rightarrow> u32 \<Rightarrow> u32 \<times> u32" where
  "dm_loop 0 (DM a0 a1 a2 a3) acc b0 b1 = (b0, b1)"
| "dm_loop (Suc n) (DM a0 a1 a2 a3) acc b0 b1 =
     (let acc' = acc + DM_DELTA;
          b0' = b0 + ((push_bit 4 b1 + a0) XOR (b1 + acc') XOR (drop_bit 5 b1 + a1));
          b1' = b1 + ((push_bit 4 b0' + a2) XOR (b0' + acc') XOR (drop_bit 5 b0' + a3))
      in dm_loop n (DM a0 a1 a2 a3) acc' b0' b1')"

definition dm_round :: "nat \<Rightarrow> dm_array \<Rightarrow> u32 \<times> u32 \<Rightarrow> u32 \<times> u32" where
  "dm_round rounds arr h =
     (case h of (h0, h1) \<Rightarrow> case dm_loop rounds arr 0 h0 h1 of (b0, b1) \<Rightarrow> (h0 + b0, h1 + b1))"

definition dm_pad :: "nat \<Rightarrow> u32" where
  "dm_pad len =
     (let pad = (word_of_nat len :: u32) OR push_bit 8 (word_of_nat len) in pad OR push_bit 16 pad)"

text \<open>A 32-bit read at an address, and a signed byte widened to 32 bits.\<close>

fun read_word :: "cstr \<Rightarrow> u32" where
  "read_word (b0 # b1 # b2 # b3 # bs) =
     ucast b0 OR push_bit 8 (ucast b1) OR push_bit 16 (ucast b2) OR push_bit 24 (ucast b3)"
| "read_word _ = 0"

fun shift_in :: "u32 \<Rightarrow> cstr \<Rightarrow> u32" where
  "shift_in a [] = a"
| "shift_in a (b # bs) = shift_in (push_bit 8 a OR scast b) bs"

text \<open>The quad loop: \<open>msg\<close> is the rest of the message at \<open>intmsg\<close>.\<close>

fun dm_quads :: "nat \<Rightarrow> cstr \<Rightarrow> u32 \<times> u32 \<Rightarrow> cstr \<times> (u32 \<times> u32)" where
  "dm_quads 0 msg h = (msg, h)"
| "dm_quads (Suc n) msg h =
     dm_quads n (drop 16 msg)
       (dm_round DM_PARTROUNDS
         (DM (read_word msg) (read_word (drop 4 msg)) (read_word (drop 8 msg))
             (read_word (drop 12 msg))) h)"

text \<open>One step of the last loop: a whole word while \<open>full_words\<close> is not 0, then the pad with the
  remaining \<open>full_bytes\<close> bytes shifted in, then the pad alone.\<close>

definition dm_tail_word :: "u32 \<Rightarrow> nat \<times> nat \<times> cstr \<Rightarrow> u32 \<times> nat \<times> nat \<times> cstr" where
  "dm_tail_word pad st =
     (case st of (full_words, full_bytes, msg) \<Rightarrow>
        if full_words \<noteq> 0 then (read_word msg, full_words - 1, full_bytes - 4, drop 4 msg)
        else (shift_in pad (take full_bytes msg), 0, 0, drop full_bytes msg))"

definition gf_dm_hashfn :: "cstr \<Rightarrow> u32" where
  "gf_dm_hashfn msg =
     (let len = length msg; pad = dm_pad len;
          full_words = len div 4; full_quads = len div 16 in
      case dm_quads full_quads msg (0x9464a485, 0x542e1a94) of (rest, h) \<Rightarrow>
      case dm_tail_word pad (full_words - 4 * full_quads, len - 16 * full_quads, rest) of (a0, st1) \<Rightarrow>
      case dm_tail_word pad st1 of (a1, st2) \<Rightarrow>
      case dm_tail_word pad st2 of (a2, st3) \<Rightarrow>
      case dm_tail_word pad st3 of (a3, st4) \<Rightarrow>
      case dm_round DM_FULLROUNDS (DM a0 a1 a2 a3) h of (h0, h1) \<Rightarrow> h0 XOR h1)"

subsection \<open>The older hashes\<close>

text \<open>SuperFastHash on the whole string: \<open>data\<close> is the rest of the string.\<close>

fun get16bits :: "cstr \<Rightarrow> u32" where
  "get16bits (b0 # b1 # bs) = ucast b0 OR push_bit 8 (ucast b1)"
| "get16bits _ = 0"

fun sfh_loop :: "nat \<Rightarrow> u32 \<Rightarrow> cstr \<Rightarrow> u32 \<times> cstr" where
  "sfh_loop 0 hash data = (hash, data)"
| "sfh_loop (Suc n) hash data =
     (let hash1 = hash + get16bits data;
          tmp = push_bit 11 (get16bits (drop 2 data)) XOR hash1;
          hash2 = push_bit 16 hash1 XOR tmp;
          hash3 = hash2 + drop_bit 11 hash2
      in sfh_loop n hash3 (drop 4 data))"

definition sfh_end :: "nat \<Rightarrow> u32 \<Rightarrow> cstr \<Rightarrow> u32" where
  "sfh_end rem hash data =
     (if rem = 3 then
        (let h = hash + get16bits data; h = h XOR push_bit 16 h;
             h = h XOR push_bit 18 (scast (data ! 2)) in h + drop_bit 11 h)
      else if rem = 2 then
        (let h = hash + get16bits data; h = h XOR push_bit 11 h in h + drop_bit 17 h)
      else if rem = 1 then
        (let h = hash + scast (data ! 0); h = h XOR push_bit 10 h in h + drop_bit 1 h)
      else hash)"

definition SuperFastHash :: "cstr \<Rightarrow> u32" where
  "SuperFastHash data =
     (if length data \<le> 1 then 1
      else case sfh_loop (length data div 4) (word_of_nat (length data)) data of (hash, rest) \<Rightarrow>
        (let h = sfh_end (length data mod 4) hash rest;
             h = h XOR push_bit 3 h; h = h + drop_bit 5 h;
             h = h XOR push_bit 4 h; h = h + drop_bit 17 h;
             h = h XOR push_bit 25 h
         in h + drop_bit 6 h))"

subsection \<open>Hashing a name\<close>

abbreviation (input) DHT_HASH_TYPE_DM :: int where "DHT_HASH_TYPE_DM \<equiv> 0"
abbreviation (input) DHT_HASH_TYPE_DM_USER :: int where "DHT_HASH_TYPE_DM_USER \<equiv> 1"

text \<open>\<open>None\<close> is the return value -1.\<close>

definition dht_hash_compute_internal :: "int \<Rightarrow> cstr \<Rightarrow> u32 option" where
  "dht_hash_compute_internal type name =
     (if type = DHT_HASH_TYPE_DM \<or> type = DHT_HASH_TYPE_DM_USER then Some (gf_dm_hashfn name)
      else None)"

text \<open>A compiled regular expression is what regexec answers for it: no match, a match without
  the first group, or a match with the bounds of the first group.\<close>

datatype re_match = No_match | Match_whole | Match_group nat nat

type_synonym regex = "cstr \<Rightarrow> re_match"

text \<open>dht_munge_name: the munged name, or \<open>None\<close> where the C function returns false.\<close>

definition dht_munge_name :: "regex \<Rightarrow> cstr \<Rightarrow> cstr option" where
  "dht_munge_name re original =
     (case re original of
        Match_group so eo \<Rightarrow>
          (let new_len = eo - so in
           if new_len < length original + 1 then Some (take new_len (drop so original)) else None)
      | _ \<Rightarrow> None)"

text \<open>The two expressions of dht_conf_t, \<open>None\<close> when not valid.\<close>

definition dht_hash_compute :: "regex option \<Rightarrow> regex option \<Rightarrow> int \<Rightarrow> cstr \<Rightarrow> u32 option" where
  "dht_hash_compute extra_regex rsync_regex type name =
     (let munged = (case extra_regex of Some re \<Rightarrow> dht_munge_name re name | None \<Rightarrow> None);
          munged = (case munged of Some m \<Rightarrow> Some m
                    | None \<Rightarrow> (case rsync_regex of Some re \<Rightarrow> dht_munge_name re name | None \<Rightarrow> None))
      in dht_hash_compute_internal type (case munged of Some m \<Rightarrow> m | None \<Rightarrow> name))"

end
