(* ===== verification/DHT_Layout.thy ===== *)
theory DHT_Layout
  imports DHT_Hash
begin

text \<open>
  Directory layouts of the distribution translator: xlators/cluster/dht/src/dht-layout.c.  A
  layout assigns to each subvolume a range of 32-bit hash values; the list of entries is the
  C array of \<open>cnt\<close> elements, so \<open>cnt\<close> is its length.  Accesses past the array are \<open>None\<close>.
\<close>

section \<open>Definitions\<close>

subsection \<open>Data\<close>

record xlator =
  xl_addr :: addr
  xl_name :: string

record layout_entry =
  le_err :: int
  le_start :: u32
  le_stop :: u32
  le_xlator :: "xlator option"

record dht_layout =
  spread_cnt :: nat
  preset :: bool
  gen :: int
  lay_type :: int
  ref :: int
  lay_list :: "layout_entry list"

text \<open>What the layout code reads of dht_conf_t; \<open>subvol_chunks\<close> is du_stats[i].chunks of the
  i-th child.\<close>

record dht_conf =
  subvolumes :: "xlator list"
  file_layouts :: "dht_layout list"
  decommissioned_bricks :: "xlator option list"
  dir_spread_cnt :: nat
  conf_gen :: int
  do_weighting :: bool
  randomize_by_gfid :: bool
  subvol_chunks :: "u32 list option"
  extra_regex :: "regex option"
  rsync_regex :: "regex option"

definition zero_entry :: layout_entry where
  "zero_entry = \<lparr>le_err = 0, le_start = 0, le_stop = 0, le_xlator = None\<rparr>"

definition dht_layout_new :: "dht_conf option \<Rightarrow> nat \<Rightarrow> dht_layout" where
  "dht_layout_new conf cnt = \<lparr>
     spread_cnt = (case conf of Some c \<Rightarrow> dir_spread_cnt c | None \<Rightarrow> 0),
     preset = False,
     gen = (case conf of Some c \<Rightarrow> conf_gen c | None \<Rightarrow> 0),
     lay_type = DHT_HASH_TYPE_DM,
     ref = 1,
     lay_list = replicate cnt zero_entry\<rparr>"

subsection \<open>Layouts of inodes\<close>

text \<open>Layout objects by address and the layout pointer in each inode's context.\<close>

record dht_store =
  heap :: "addr \<Rightarrow> dht_layout option"
  inode_layout :: "addr \<Rightarrow> addr option"

definition upd_ref :: "dht_store \<Rightarrow> addr \<Rightarrow> int \<Rightarrow> dht_store" where
  "upd_ref s a k = s\<lparr>heap := (heap s)(a := map_option (\<lambda>l. l\<lparr>ref := ref l + k\<rparr>) (heap s a))\<rparr>"

definition dht_layout_get :: "dht_store \<Rightarrow> addr \<Rightarrow> addr option \<times> dht_store" where
  "dht_layout_get s inode =
     (case inode_layout s inode of None \<Rightarrow> (None, s) | Some a \<Rightarrow> (Some a, upd_ref s a 1))"

definition dht_layout_unref :: "dht_store \<Rightarrow> addr option \<Rightarrow> dht_store" where
  "dht_layout_unref s la =
     (case la of None \<Rightarrow> s
      | Some a \<Rightarrow> (case heap s a of None \<Rightarrow> s
          | Some l \<Rightarrow>
              if preset l then s
              else if ref l - 1 = 0 then s\<lparr>heap := (heap s)(a := None)\<rparr>
              else upd_ref s a (-1)))"

definition dht_layout_ref :: "dht_store \<Rightarrow> addr \<Rightarrow> dht_store" where
  "dht_layout_ref s a =
     (case heap s a of None \<Rightarrow> s | Some l \<Rightarrow> if preset l then s else upd_ref s a 1)"

definition dht_layout_set :: "dht_store \<Rightarrow> addr \<Rightarrow> addr \<Rightarrow> dht_store" where
  "dht_layout_set s inode a =
     (let s1 = upd_ref s a 1;
          s2 = s1\<lparr>inode_layout := (inode_layout s1)(inode := Some a)\<rparr>
      in dht_layout_unref s2 (inode_layout s inode))"

subsection \<open>Finding the subvolume of a name\<close>

definition in_range :: "layout_entry \<Rightarrow> u32 \<Rightarrow> bool" where
  "in_range e hash \<longleftrightarrow> le_start e \<le> hash \<and> le_stop e \<ge> hash"

definition dht_layout_search :: "dht_conf \<Rightarrow> dht_layout \<Rightarrow> cstr \<Rightarrow> xlator option" where
  "dht_layout_search conf layout name =
     (case dht_hash_compute (extra_regex conf) (rsync_regex conf) (lay_type layout) name of
        None \<Rightarrow> None
      | Some hash \<Rightarrow> (case find (\<lambda>e. in_range e hash) (lay_list layout) of
          None \<Rightarrow> None | Some e \<Rightarrow> le_xlator e))"

definition dht_layout_for_subvol :: "dht_conf \<Rightarrow> xlator \<Rightarrow> dht_layout option" where
  "dht_layout_for_subvol conf subvol =
     map_option snd (find (\<lambda>(x, l). xl_addr x = xl_addr subvol)
       (zip (subvolumes conf) (file_layouts conf)))"

definition dht_layouts_init :: "dht_conf \<Rightarrow> dht_conf" where
  "dht_layouts_init conf = conf\<lparr>file_layouts :=
     map (\<lambda>x. (dht_layout_new (Some conf) 1)\<lparr>preset := True,
                lay_list := [zero_entry\<lparr>le_xlator := Some x\<rparr>]\<rparr>) (subvolumes conf)\<rparr>"

subsection \<open>Layouts on disk\<close>

text \<open>hton32 and ntoh32 as the big-endian bytes of a word.\<close>

definition hton32 :: "u32 \<Rightarrow> 8 word list" where
  "hton32 w = [ucast (drop_bit 24 w), ucast (drop_bit 16 w), ucast (drop_bit 8 w), ucast w]"

fun ntoh32 :: "8 word list \<Rightarrow> u32" where
  "ntoh32 (b3 # b2 # b1 # b0 # bs) =
     push_bit 24 (ucast b3) OR push_bit 16 (ucast b2) OR push_bit 8 (ucast b1) OR ucast b0"
| "ntoh32 _ = 0"

text \<open>The first four words of the array, the ones that are stored.\<close>

definition dht_disk_layout_extract :: "dht_layout \<Rightarrow> nat \<Rightarrow> 8 word list option" where
  "dht_disk_layout_extract layout pos =
     (if pos < length (lay_list layout) then
        Some (hton32 1 @ hton32 (word_of_int (lay_type layout)) @
              hton32 (le_start (lay_list layout ! pos)) @ hton32 (le_stop (lay_list layout ! pos)))
      else None)"

text \<open>dht_disk_layout_merge.  The length is only asserted, and a wrong one is copied all the
  same; that case, and a position past the array, are \<open>None\<close>.  Otherwise the return value and
  the layout.\<close>

definition dht_disk_layout_merge ::
  "dht_layout \<Rightarrow> nat \<Rightarrow> 8 word list option \<Rightarrow> (int \<times> dht_layout) option" where
  "dht_disk_layout_merge layout pos disk_layout_raw =
     (case disk_layout_raw of None \<Rightarrow> Some (-1, layout)
      | Some raw \<Rightarrow>
          if length raw \<noteq> 16 then None
          else if ntoh32 raw \<noteq> 1 then Some (-1, layout)
          else
            (let type = sint (ntoh32 (drop 4 raw)) in
             if type = DHT_HASH_TYPE_DM_USER \<or> type = DHT_HASH_TYPE_DM then
               if pos < length (lay_list layout) then
                 Some (0, layout\<lparr>
                   lay_type := (if type = DHT_HASH_TYPE_DM_USER then type else lay_type layout),
                   lay_list := (lay_list layout)[pos := (lay_list layout ! pos)
                     \<lparr>le_start := ntoh32 (drop 8 raw), le_stop := ntoh32 (drop 12 raw)\<rparr>]\<rparr>)
               else None
             else Some (-1, layout)))"

text \<open>The index of the first free entry, \<open>cnt\<close> if there is none.\<close>

definition first_free :: "layout_entry list \<Rightarrow> nat" where
  "first_free es = length (takeWhile (\<lambda>e. le_xlator e \<noteq> None) es)"

definition dht_layout_merge ::
  "dht_layout \<Rightarrow> xlator \<Rightarrow> int \<Rightarrow> int \<Rightarrow> 8 word list option \<Rightarrow> (int \<times> dht_layout) option" where
  "dht_layout_merge layout subvol op_ret op_errno disk_layout =
     (let err = (if op_ret \<noteq> 0 then op_errno else -1);
          i = first_free (lay_list layout);
          set_err = (\<lambda>l e. l\<lparr>lay_list := (lay_list l)[i := (lay_list l ! i)\<lparr>le_err := e\<rparr>]\<rparr>);
          layout1 = (if i < length (lay_list layout)
                     then layout\<lparr>lay_list := (lay_list layout)[i := (lay_list layout ! i)
                            \<lparr>le_err := err, le_xlator := Some subvol\<rparr>]\<rparr>
                     else layout)
      in if op_ret \<noteq> 0 then Some (0, layout1)
         else if i \<ge> length (lay_list layout) then None
         else case disk_layout of
                None \<Rightarrow> Some (0, set_err layout1 0)
              | Some raw \<Rightarrow>
                  (case dht_disk_layout_merge layout1 i (Some raw) of
                     None \<Rightarrow> None
                   | Some (ret, layout2) \<Rightarrow>
                       if ret \<noteq> 0 then Some (ret, layout2) else Some (0, set_err layout2 0)))"

subsection \<open>Sorting\<close>

definition dht_layout_entry_swap :: "layout_entry list \<Rightarrow> nat \<Rightarrow> nat \<Rightarrow> layout_entry list" where
  "dht_layout_entry_swap es i j = es[i := es ! j, j := es ! i]"

definition dht_layout_range_swap :: "layout_entry list \<Rightarrow> nat \<Rightarrow> nat \<Rightarrow> layout_entry list" where
  "dht_layout_range_swap es i j =
     es[i := (es ! i)\<lparr>le_start := le_start (es ! j), le_stop := le_stop (es ! j)\<rparr>,
        j := (es ! j)\<lparr>le_start := le_start (es ! i), le_stop := le_stop (es ! i)\<rparr>]"

text \<open>strcmp on the bytes of two strings.\<close>

fun strcmp :: "string \<Rightarrow> string \<Rightarrow> int" where
  "strcmp [] [] = 0"
| "strcmp [] (y # ys) = - int (of_char y)"
| "strcmp (x # xs) [] = int (of_char x)"
| "strcmp (x # xs) (y # ys) =
     (if x = y then strcmp xs ys else int (of_char x) - int (of_char y))"

definition entry_name :: "layout_entry \<Rightarrow> string" where
  "entry_name e = (case le_xlator e of None \<Rightarrow> [] | Some x \<Rightarrow> xl_name x)"

definition dht_layout_entry_cmp_volname :: "layout_entry \<Rightarrow> layout_entry \<Rightarrow> int" where
  "dht_layout_entry_cmp_volname e1 e2 = strcmp (entry_name e1) (entry_name e2)"

definition dht_is_subvol_in_layout :: "dht_layout \<Rightarrow> xlator \<Rightarrow> bool" where
  "dht_is_subvol_in_layout layout x =
     (case find (\<lambda>e. entry_name e = xl_name x) (lay_list layout) of
        None \<Rightarrow> False | Some e \<Rightarrow> le_start e \<noteq> le_stop e)"

definition dht_layout_entry_cmp :: "layout_entry \<Rightarrow> layout_entry \<Rightarrow> int" where
  "dht_layout_entry_cmp ei ej =
     (if le_start ej = 0 \<and> le_stop ej = 0 then uint (le_stop ei) - uint (le_stop ej)
      else uint (le_start ei) - uint (le_start ej))"

text \<open>The two nested loops of the sort functions, for a comparison function.\<close>

definition sort_inner ::
  "(layout_entry \<Rightarrow> layout_entry \<Rightarrow> int) \<Rightarrow> nat \<Rightarrow> layout_entry list \<Rightarrow> layout_entry list" where
  "sort_inner cmp i es =
     fold (\<lambda>j es. if cmp (es ! i) (es ! j) > 0 then dht_layout_entry_swap es i j else es)
       [i + 1..<length es] es"

definition sort_entries ::
  "(layout_entry \<Rightarrow> layout_entry \<Rightarrow> int) \<Rightarrow> layout_entry list \<Rightarrow> layout_entry list" where
  "sort_entries cmp es = fold (sort_inner cmp) [0..<length es - 1] es"

definition dht_layout_sort :: "dht_layout \<Rightarrow> dht_layout" where
  "dht_layout_sort layout =
     layout\<lparr>lay_list := sort_entries dht_layout_entry_cmp (lay_list layout)\<rparr>"

definition dht_layout_sort_volname :: "dht_layout \<Rightarrow> dht_layout" where
  "dht_layout_sort_volname layout =
     layout\<lparr>lay_list := sort_entries dht_layout_entry_cmp_volname (lay_list layout)\<rparr>"

subsection \<open>Anomalies\<close>

record anomalies =
  hole_cnt :: u32
  overlap_cnt :: u32
  missing :: u32
  down :: u32
  misc :: u32
  no_space :: u32

definition no_anomalies :: anomalies where
  "no_anomalies = \<lparr>hole_cnt = 0, overlap_cnt = 0, missing = 0, down = 0, misc = 0, no_space = 0\<rparr>"

text \<open>An entry the loop looks at: no error and a range that is not a single value.\<close>

definition participates :: "layout_entry \<Rightarrow> bool" where
  "participates e \<longleftrightarrow> le_err e = 0 \<and> le_start e \<noteq> le_stop e"

text \<open>The loop, with prev_stop, is_virgin and the counters.\<close>

fun anomalies_loop :: "layout_entry list \<Rightarrow> u32 \<times> bool \<times> anomalies \<Rightarrow> u32 \<times> bool \<times> anomalies" where
  "anomalies_loop [] st = st"
| "anomalies_loop (e # es) (prev_stop, is_virgin, a) =
     (if le_err e = -1 \<or> le_err e = ENOENT \<or> le_err e = ESTALE then
        anomalies_loop es (prev_stop, is_virgin, a\<lparr>missing := missing a + 1\<rparr>)
      else if le_err e = ENOTCONN then
        anomalies_loop es (prev_stop, is_virgin, a\<lparr>down := down a + 1\<rparr>)
      else if le_err e = ENOSPC then
        anomalies_loop es (prev_stop, is_virgin, a\<lparr>no_space := no_space a + 1\<rparr>)
      else if le_err e = 0 then
        if le_start e = le_stop e then anomalies_loop es (prev_stop, is_virgin, a)
        else
          (let a1 = (if prev_stop + 1 < le_start e then a\<lparr>hole_cnt := hole_cnt a + 1\<rparr> else a);
               a2 = (if prev_stop + 1 > le_start e then a1\<lparr>overlap_cnt := overlap_cnt a1 + 1\<rparr> else a1)
           in anomalies_loop es (le_stop e, False, a2))
      else anomalies_loop es (prev_stop, is_virgin, a\<lparr>misc := misc a + 1\<rparr>))"

text \<open>dht_layout_anomalies on a layout with at least one entry.\<close>

definition dht_layout_anomalies :: "dht_layout \<Rightarrow> anomalies" where
  "dht_layout_anomalies layout =
     (let last_stop = le_start (hd (lay_list layout)) - 1 in
      case anomalies_loop (lay_list layout) (last_stop, True, no_anomalies) of
        (prev_stop, is_virgin, a) \<Rightarrow>
          if last_stop - prev_stop \<noteq> 0 \<or> is_virgin then a\<lparr>hole_cnt := hole_cnt a + 1\<rparr> else a)"

definition dht_layout_normalize :: "dht_layout \<Rightarrow> int \<times> dht_layout" where
  "dht_layout_normalize layout =
     (let sorted = dht_layout_sort layout;
          a = dht_layout_anomalies sorted;
          ret = (if hole_cnt a \<noteq> 0 \<or> overlap_cnt a \<noteq> 0 then -1 else 0)
      in (fold (\<lambda>e ret. if le_err e > 0 \<and> le_err e = ENOENT \<and> ret \<ge> 0 then ret + 1 else ret)
            (lay_list sorted) ret, sorted))"

subsection \<open>Comparing with the layout on disk\<close>

text \<open>\<open>xattr\<close> is \<open>None\<close> for a NULL dictionary, \<open>Some None\<close> for one without the key.\<close>

definition dht_layout_dir_mismatch ::
  "dht_layout \<Rightarrow> xlator \<Rightarrow> 8 word list option option \<Rightarrow> int" where
  "dht_layout_dir_mismatch layout subvol xattr =
     (case find (\<lambda>e. map_option xl_addr (le_xlator e) = Some (xl_addr subvol)) (lay_list layout) of
        None \<Rightarrow> 1
      | Some e \<Rightarrow>
          (case xattr of
             None \<Rightarrow> (if le_err e = 0 then -1 else 0)
           | Some None \<Rightarrow> (if le_err e = 0 \<and> le_stop e \<noteq> 0 then -1 else 0)
           | Some (Some raw) \<Rightarrow>
               if ntoh32 raw \<noteq> 1 then -1
               else if le_start e \<noteq> ntoh32 (drop 8 raw) \<or> le_stop e \<noteq> ntoh32 (drop 12 raw) then 1
               else 0))"

text \<open>dht_layout_preset: the layout put into the inode's context, \<open>None\<close> for the return value
  -1.\<close>

definition dht_layout_preset :: "dht_conf \<Rightarrow> xlator \<Rightarrow> dht_layout option" where
  "dht_layout_preset conf subvol = dht_layout_for_subvol conf subvol"

end
