(* ===== verification/DHT_Selfheal.thy ===== *)
theory DHT_Selfheal
  imports DHT_Layout "HOL-Library.Monad_Syntax"
begin

text \<open>
  Assigning hash ranges to the subvolumes of a directory and storing them:
  xlators/cluster/dht/src/dht-selfheal.c.  \<open>None\<close> is a run with undefined behaviour: a
  division by zero, an access past an array or through a NULL pointer.
\<close>

section \<open>Definitions\<close>

text \<open>What is read of loc_t; the two strings are the path and the canonical form of the gfid.\<close>

record dht_loc =
  loc_path :: cstr
  loc_gfid_str :: cstr
  loc_inode :: addr

subsection \<open>Overlap of two entries\<close>

definition dht_overlap_calc :: "dht_layout \<Rightarrow> nat \<Rightarrow> dht_layout \<Rightarrow> nat \<Rightarrow> u32" where
  "dht_overlap_calc old i new n =
     (if i \<ge> length (lay_list old) \<or> n \<ge> length (lay_list new) then 0
      else
        (let eo = lay_list old ! i; en = lay_list new ! n in
         if le_err eo > 0 \<or> le_err en > 0 then 0
         else if le_start eo = le_stop eo then 0
         else if le_start en = le_stop en then 0
         else if le_start eo > le_stop en \<or> le_stop eo < le_start en then 0
         else min (le_stop eo) (le_stop en) - max (le_start eo) (le_start en) + 1))"

subsection \<open>A layout for a new directory\<close>

definition dht_selfheal_layout_alloc_start :: "dht_conf \<Rightarrow> dht_loc \<Rightarrow> dht_layout \<Rightarrow> nat option" where
  "dht_selfheal_layout_alloc_start conf loc layout =
     (let str = (if randomize_by_gfid conf then loc_gfid_str loc else loc_path loc) in
      case dht_hash_compute (extra_regex conf) (rsync_regex conf) (lay_type layout) str of
        None \<Rightarrow> Some 0
      | Some hashval \<Rightarrow>
          if lay_list layout = [] then None
          else Some (unat hashval mod length (lay_list layout)))"

text \<open>The three loops of dht_get_layout_count.\<close>

definition mark_decommissioned :: "dht_conf \<Rightarrow> layout_entry \<Rightarrow> layout_entry" where
  "mark_decommissioned conf e =
     (if \<exists>d \<in> set (decommissioned_bricks conf).
           d \<noteq> None \<and> map_option xl_addr d = map_option xl_addr (le_xlator e)
      then e\<lparr>le_err := EINVAL\<rparr> else e)"

definition dht_get_layout_count :: "dht_conf \<Rightarrow> dht_layout \<Rightarrow> bool \<Rightarrow> nat \<times> dht_layout" where
  "dht_get_layout_count conf layout new_layout =
     (let es1 = map (mark_decommissioned conf) (lay_list layout);
          count1 = length (filter (\<lambda>e. le_err e = -1 \<or> le_err e = 0 \<or> le_err e = ENOENT) es1);
          es2 = map (\<lambda>e. if le_err e = 0 then e\<lparr>le_err := -1\<rparr> else e) es1;
          more = count1 = 0 \<or> \<not> new_layout;
          count2 = (if more then count1 + length (filter (\<lambda>e. le_err e = ENOSPC) es2) else count1);
          es3 = (if more then map (\<lambda>e. if le_err e = ENOSPC then e\<lparr>le_err := -1\<rparr> else e) es2 else es2)
      in (if spread_cnt layout \<noteq> 0 \<and> spread_cnt layout \<le> count2 then spread_cnt layout
          else if count2 \<noteq> 0 then count2 else 1,
          layout\<lparr>lay_list := es3\<rparr>))"

text \<open>The children of the translator are its subvolumes, in the same order.\<close>

definition dht_get_chunks_from_xl :: "dht_conf \<Rightarrow> xlator option \<Rightarrow> u32" where
  "dht_get_chunks_from_xl conf child =
     (case subvol_chunks conf of None \<Rightarrow> 0
      | Some chunks \<Rightarrow>
          (case find (\<lambda>(x, c). Some (xl_addr x) = map_option xl_addr child)
                  (zip (subvolumes conf) chunks) of
             None \<Rightarrow> 0 | Some (x, c) \<Rightarrow> c))"

text \<open>An entry that is to get a range.\<close>

definition wants_range :: "layout_entry \<Rightarrow> bool" where
  "wants_range e \<longleftrightarrow> le_err e = -1 \<or> le_err e = ENOENT"

text \<open>The first loop of dht_selfheal_layout_new_directory: total_size, bricks_used and whether
  a brick of unknown size ended it.\<close>

fun sum_chunks :: "dht_conf \<Rightarrow> nat \<Rightarrow> layout_entry list \<Rightarrow> u32 \<times> nat \<Rightarrow> u32 \<times> nat \<times> bool" where
  "sum_chunks conf bricks_to_use [] (total_size, bricks_used) = (total_size, bricks_used, False)"
| "sum_chunks conf bricks_to_use (e # es) (total_size, bricks_used) =
     (if \<not> wants_range e then sum_chunks conf bricks_to_use es (total_size, bricks_used)
      else
        (let curr_size = dht_get_chunks_from_xl conf (le_xlator e) in
         if curr_size = 0 then (total_size, bricks_used, True)
         else if bricks_used + 1 \<ge> bricks_to_use
         then (total_size + curr_size, bricks_used + 1, False)
         else sum_chunks conf bricks_to_use es (total_size + curr_size, bricks_used + 1)))"

text \<open>The second loop, over the positions in rotated order.\<close>

fun assign_ranges ::
  "dht_conf \<Rightarrow> bool \<Rightarrow> u32 \<Rightarrow> nat \<Rightarrow> nat list \<Rightarrow> u32 \<times> nat \<Rightarrow> layout_entry list \<Rightarrow>
   layout_entry list option" where
  "assign_ranges conf weight_by_size chunk bricks_to_use [] (start, bricks_used) es = Some es"
| "assign_ranges conf weight_by_size chunk bricks_to_use (i # is) (start, bricks_used) es =
     (if \<not> wants_range (es ! i)
      then assign_ranges conf weight_by_size chunk bricks_to_use is (start, bricks_used) es
      else
        (let curr_size = (if weight_by_size
                          then dht_get_chunks_from_xl conf (le_xlator (es ! i)) else 1) in
         if curr_size = 0
         then assign_ranges conf weight_by_size chunk bricks_to_use is (start, bricks_used) es
         else if le_xlator (es ! i) = None then None
         else
           (let e = (es ! i)\<lparr>le_start := start, le_stop := start + chunk * curr_size - 1\<rparr> in
            if bricks_used + 1 \<ge> bricks_to_use then Some (es[i := e\<lparr>le_stop := 0xffffffff\<rparr>])
            else assign_ranges conf weight_by_size chunk bricks_to_use is
                   (start + chunk * curr_size, bricks_used + 1) (es[i := e]))))"

definition reset_range :: "layout_entry \<Rightarrow> layout_entry" where
  "reset_range e = e\<lparr>le_start := 0, le_stop := 0\<rparr>"

definition rotation :: "nat \<Rightarrow> nat \<Rightarrow> nat list" where
  "rotation cnt start_subvol = map (\<lambda>real_i. (real_i + start_subvol) mod cnt) [0..<cnt]"

definition dht_selfheal_layout_new_directory ::
  "dht_conf \<Rightarrow> dht_loc \<Rightarrow> dht_layout \<Rightarrow> dht_layout option" where
  "dht_selfheal_layout_new_directory conf loc layout0 =
     (case dht_get_layout_count conf layout0 True of (bricks_to_use, layout) \<Rightarrow>
      case sum_chunks conf bricks_to_use (lay_list layout) (0, 0) of (total_size, bricks_used, unknown) \<Rightarrow>
        (let weight_by_size = (do_weighting conf \<and> \<not> unknown);
             divisor = (if weight_by_size then total_size else word_of_nat bricks_used)
         in if divisor = 0 then None
            else do {
              start_subvol \<leftarrow> dht_selfheal_layout_alloc_start conf loc layout;
              es \<leftarrow> assign_ranges conf weight_by_size (0xffffffff div divisor) bricks_to_use
                     (rotation (length (lay_list layout)) start_subvol) (0, 0)
                     (map reset_range (lay_list layout));
              Some (layout\<lparr>lay_list := es\<rparr>)
            }))"

subsection \<open>Keeping ranges where they were\<close>

text \<open>The table of overlaps, a flat array of as many entries as the product of the two counts;
  \<open>OV_ENTRY(x,y)\<close> is the entry at \<open>x * new->cnt + y\<close>.\<close>

definition ov_get :: "u32 list \<Rightarrow> nat \<Rightarrow> u32 option" where
  "ov_get table k = (if k < length table then Some (table ! k) else None)"

definition ov_set :: "u32 list \<Rightarrow> nat \<Rightarrow> u32 \<Rightarrow> u32 list option" where
  "ov_set table k v = (if k < length table then Some (table[k := v]) else None)"

fun ov_fill :: "dht_layout \<Rightarrow> dht_layout \<Rightarrow> (nat \<times> nat) list \<Rightarrow> u32 list \<Rightarrow> u32 list option" where
  "ov_fill old new [] table = Some table"
| "ov_fill old new ((i, j) # ijs) table = do {
     table' \<leftarrow> ov_set table (i * length (lay_list new) + j) (dht_overlap_calc old j new i);
     ov_fill old new ijs table'
   }"

text \<open>The loop that looks for the best partner of entry \<open>i\<close>: max_overlap and max_overlap_idx.\<close>

fun ov_best ::
  "layout_entry list \<Rightarrow> u32 list \<Rightarrow> nat \<Rightarrow> nat list \<Rightarrow> u32 \<times> nat \<Rightarrow> (u32 \<times> nat) option" where
  "ov_best es table i [] best = Some best"
| "ov_best es table i (j # js) (max_overlap, max_overlap_idx) =
     (if le_err (es ! j) > 0 then ov_best es table i js (max_overlap, max_overlap_idx)
      else do {
        ii \<leftarrow> ov_get table (i * length es + i);
        jj \<leftarrow> ov_get table (j * length es + j);
        ij \<leftarrow> ov_get table (i * length es + j);
        ji \<leftarrow> ov_get table (j * length es + i);
        (let curr_overlap = ii + jj; overlap = ij + ji in
         if overlap > curr_overlap \<and> overlap - curr_overlap > max_overlap
         then ov_best es table i js (overlap - curr_overlap, j)
         else ov_best es table i js (max_overlap, max_overlap_idx))
      })"

fun ov_swap_rows :: "nat \<Rightarrow> nat \<Rightarrow> nat \<Rightarrow> nat list \<Rightarrow> u32 list \<Rightarrow> u32 list option" where
  "ov_swap_rows cnt i m [] table = Some table"
| "ov_swap_rows cnt i m (j # js) table = do {
     overlap \<leftarrow> ov_get table (i * cnt + j);
     other \<leftarrow> ov_get table (m * cnt + j);
     table1 \<leftarrow> ov_set table (i * cnt + j) other;
     table2 \<leftarrow> ov_set table1 (m * cnt + j) overlap;
     ov_swap_rows cnt i m js table2
   }"

fun maximize_loop ::
  "nat \<Rightarrow> nat list \<Rightarrow> layout_entry list \<times> u32 list \<Rightarrow> (layout_entry list \<times> u32 list) option" where
  "maximize_loop old_cnt [] st = Some st"
| "maximize_loop old_cnt (i # is) (es, table) =
     (if le_err (es ! i) > 0 then maximize_loop old_cnt is (es, table)
      else do {
        (max_overlap, idx) \<leftarrow> ov_best es table i [i + 1..<length es] (0, i);
        (if idx \<noteq> i then do {
           table' \<leftarrow> ov_swap_rows (length es) i idx [0..<old_cnt] table;
           maximize_loop old_cnt is (dht_layout_range_swap es i idx, table')
         }
         else maximize_loop old_cnt is (es, table))
      })"

text \<open>The new and the old layout afterwards; the old one is sorted in place.\<close>

definition dht_selfheal_layout_maximize_overlap ::
  "dht_layout \<Rightarrow> dht_layout \<Rightarrow> (dht_layout \<times> dht_layout) option" where
  "dht_selfheal_layout_maximize_overlap new old0 =
     (let old = dht_layout_sort_volname old0;
          n = length (lay_list new); m = length (lay_list old)
      in do {
        table \<leftarrow> ov_fill old new (List.product [0..<n] [0..<m]) (replicate (m * n) 0);
        (es, table') \<leftarrow> maximize_loop m [0..<n] (lay_list new, table);
        Some (new\<lparr>lay_list := es\<rparr>, old)
      })"

text \<open>dht_fix_layout_of_directory on the layout at \<open>la\<close>; \<open>a\<close> is the address of the new layout.
  The address returned is \<open>None\<close> where the C function returns NULL.\<close>

definition dht_fix_layout_of_directory ::
  "dht_conf \<Rightarrow> dht_loc \<Rightarrow> dht_store \<Rightarrow> addr option \<Rightarrow> addr \<Rightarrow> addr \<Rightarrow> (addr option \<times> dht_store) option" where
  "dht_fix_layout_of_directory conf loc s local_layout la a = do {
     layout \<leftarrow> heap s la;
     (let n = length (subvolumes conf) in
      if lay_type layout = DHT_HASH_TYPE_DM_USER then Some (local_layout, s)
      else if lay_list layout = [] then None
      else if down (dht_layout_anomalies layout) \<noteq> 0 then Some (None, s)
      else if length (lay_list layout) < n then None
      else do {
        new1 \<leftarrow> dht_selfheal_layout_new_directory conf loc (dht_layout_sort_volname
          ((dht_layout_new (Some conf) n)\<lparr>lay_list := map (\<lambda>e. zero_entry
             \<lparr>le_err := (if le_err e \<noteq> ENOSPC then le_err e else -1), le_xlator := le_xlator e\<rparr>)
             (take n (lay_list layout))\<rparr>));
        (new2, layout') \<leftarrow> dht_selfheal_layout_maximize_overlap new1 layout;
        (let s1 = s\<lparr>heap := (heap s)(la \<mapsto> layout', a \<mapsto> new2)\<rparr>;
             s2 = dht_layout_set s1 (loc_inode loc) a
         in Some (Some a, dht_layout_unref s2 local_layout))
      })
   }"

subsection \<open>Storing the ranges\<close>

text \<open>A setxattr wound to a subvolume with the stored form of a range, or the end of the heal.\<close>

datatype heal_event = Wind_setxattr xlator "8 word list" | Dir_finish int | Dir_mkdir

definition dht_selfheal_dir_xattr_persubvol ::
  "dht_layout \<Rightarrow> nat \<Rightarrow> xlator option \<Rightarrow> heal_event option" where
  "dht_selfheal_dir_xattr_persubvol layout i req_subvol = do {
     subvol \<leftarrow> (case req_subvol of Some x \<Rightarrow> Some x
                | None \<Rightarrow> if i < length (lay_list layout) then le_xlator (lay_list layout ! i) else None);
     disk_layout \<leftarrow> dht_disk_layout_extract layout i;
     Some (Wind_setxattr subvol disk_layout)
   }"

text \<open>Each call in turn; one that is undefined makes the whole undefined.\<close>

fun all_events :: "heal_event option list \<Rightarrow> heal_event list option" where
  "all_events [] = Some []"
| "all_events (x # xs) = do { e \<leftarrow> x; es \<leftarrow> all_events xs; Some (e # es) }"

text \<open>local->call_cnt and the calls made.  The loops stop when the count of calls left to make is
  used up.\<close>

definition dht_fix_dir_xattr :: "dht_conf \<Rightarrow> dht_layout \<Rightarrow> (nat \<times> heal_event list) option" where
  "dht_fix_dir_xattr conf layout =
     (let count = length (subvolumes conf);
          first = map (\<lambda>i. dht_selfheal_dir_xattr_persubvol layout i None)
                    (take count [0..<length (lay_list layout)]);
          dummy = dht_layout_new (Some conf) 1;
          second = map (\<lambda>x. dht_selfheal_dir_xattr_persubvol dummy 0 (Some x))
                     (take (count - length first)
                       (filter (\<lambda>x. \<not> dht_is_subvol_in_layout layout x) (subvolumes conf)))
      in do { evs \<leftarrow> all_events (first @ second); Some (count, evs) })"

definition needs_xattr :: "layout_entry \<Rightarrow> bool" where
  "needs_xattr e \<longleftrightarrow> le_err e = -1 \<and> le_stop e \<noteq> 0"

definition dht_selfheal_dir_xattr :: "dht_conf \<Rightarrow> dht_layout \<Rightarrow> (nat \<times> heal_event list) option" where
  "dht_selfheal_dir_xattr conf layout =
     (let is = filter (\<lambda>i. needs_xattr (lay_list layout ! i)) [0..<length (lay_list layout)];
          others = filter (\<lambda>x. \<not> dht_is_subvol_in_layout layout x) (subvolumes conf);
          missing_xattr = length is + length others;
          first = map (\<lambda>i. dht_selfheal_dir_xattr_persubvol layout i None) (take missing_xattr is);
          dummy = dht_layout_new (Some conf) 1;
          second = map (\<lambda>x. dht_selfheal_dir_xattr_persubvol dummy 0 (Some x))
                     (take (missing_xattr - length first) others)
      in if missing_xattr = 0 then Some (0, [Dir_finish 0])
         else do { evs \<leftarrow> all_events (first @ second); Some (missing_xattr, evs) })"

text \<open>The reply of one subvolume: the outcome becomes the err of its entry, and the last reply
  ends the heal.\<close>

definition set_entry_err :: "addr \<Rightarrow> int \<Rightarrow> layout_entry list \<Rightarrow> layout_entry list" where
  "set_entry_err a err es =
     (let i = length (takeWhile (\<lambda>e. map_option xl_addr (le_xlator e) \<noteq> Some a) es)
      in if i < length es then es[i := (es ! i)\<lparr>le_err := err\<rparr>] else es)"

definition dht_selfheal_dir_xattr_cbk ::
  "nat \<times> dht_layout \<Rightarrow> xlator \<Rightarrow> int \<Rightarrow> int \<Rightarrow> (nat \<times> dht_layout) \<times> heal_event list" where
  "dht_selfheal_dir_xattr_cbk st subvol op_ret op_errno =
     (case st of (call_cnt, layout) \<Rightarrow>
        (let err = (if op_ret = 0 then 0 else op_errno);
             layout' = layout\<lparr>lay_list := set_entry_err (xl_addr subvol) err (lay_list layout)\<rparr>;
             this_call_cnt = call_cnt - 1
         in ((this_call_cnt, layout'), if this_call_cnt = 0 then [Dir_finish 0] else [])))"

subsection \<open>The entry points\<close>

definition dht_selfheal_dir_getafix ::
  "dht_conf \<Rightarrow> dht_loc \<Rightarrow> anomalies \<Rightarrow> dht_layout \<Rightarrow> (int \<times> dht_layout) option" where
  "dht_selfheal_dir_getafix conf loc selfheal layout =
     (let fix_it = hole_cnt selfheal \<noteq> 0 \<or> overlap_cnt selfheal \<noteq> 0 in do {
        layout' \<leftarrow> (if fix_it then dht_selfheal_layout_new_directory conf loc layout else Some layout);
        Some (if fix_it \<or> (\<exists>e \<in> set (lay_list layout'). le_err e = ENOENT) then 0 else -1, layout')
      })"

definition upd_layout :: "dht_store \<Rightarrow> addr \<Rightarrow> dht_layout \<Rightarrow> dht_store" where
  "upd_layout s a l = s\<lparr>heap := (heap s)(a \<mapsto> l)\<rparr>"

definition dht_selfheal_new_directory ::
  "dht_conf \<Rightarrow> dht_loc \<Rightarrow> dht_store \<Rightarrow> addr \<Rightarrow> (dht_store \<times> nat \<times> heal_event list) option" where
  "dht_selfheal_new_directory conf loc s0 la =
     (let s = dht_layout_ref s0 la in do {
        layout \<leftarrow> heap s la;
        layout' \<leftarrow> dht_selfheal_layout_new_directory conf loc (dht_layout_sort_volname layout);
        (call_cnt, evs) \<leftarrow> dht_selfheal_dir_xattr conf layout';
        Some (upd_layout s la layout', call_cnt, evs)
      })"

definition dht_fix_directory_layout ::
  "dht_conf \<Rightarrow> dht_loc \<Rightarrow> dht_store \<Rightarrow> addr option \<Rightarrow> addr \<Rightarrow> addr \<Rightarrow>
   (int \<times> dht_store \<times> nat \<times> heal_event list) option" where
  "dht_fix_directory_layout conf loc s0 local_layout la a = do {
     (tmp_layout, s) \<leftarrow> dht_fix_layout_of_directory conf loc (dht_layout_ref s0 la) local_layout la a;
     (case tmp_layout of
        None \<Rightarrow> Some (-1, s, 0, [])
      | Some t \<Rightarrow> do {
          l \<leftarrow> heap s t;
          (call_cnt, evs) \<leftarrow> dht_fix_dir_xattr conf l;
          Some (0, s, call_cnt, evs)
        })
   }"

definition dht_selfheal_directory ::
  "dht_conf \<Rightarrow> dht_loc \<Rightarrow> dht_store \<Rightarrow> addr \<Rightarrow> (dht_store \<times> heal_event) option" where
  "dht_selfheal_directory conf loc s0 la = do {
     layout \<leftarrow> heap s0 la;
     (if lay_list layout = [] then None
      else
        (let selfheal = dht_layout_anomalies layout; s = dht_layout_ref s0 la in
         if down selfheal \<noteq> 0 then Some (s, Dir_finish 0)
         else if misc selfheal \<noteq> 0 then Some (s, Dir_finish 0)
         else do {
           l \<leftarrow> heap s la;
           (ret, l') \<leftarrow> dht_selfheal_dir_getafix conf loc selfheal (dht_layout_sort_volname l);
           Some (upd_layout s la l', if ret = -1 then Dir_finish ret else Dir_mkdir)
         }))
   }"

end
