(* ===== verification/DHT_Layout_Props.thy ===== *)
theory DHT_Layout_Props
  imports DHT_Layout
begin

text \<open>
  Properties of directory layouts: what the nested loops of dht_layout_sort produce for any
  comparison that follows a key, what the counters of dht_layout_anomalies say about the ranges,
  and from these that a layout dht_layout_normalize accepts covers every hash value, that
  dht_layout_search is total on it, and that the ranges survive being stored on disk.
\<close>

section \<open>Loops over an interval\<close>

lemma fold_upt_inv:
  assumes "a \<le> b" "P a x" "\<And>k x. a \<le> k \<Longrightarrow> k < b \<Longrightarrow> P k x \<Longrightarrow> P (Suc k) (f k x)"
  shows "P b (fold f [a..<b] x)"
  using assms(1,3)
proof (induction b)
  case 0
  then show ?case using assms(2) by simp
next
  case (Suc b)
  show ?case
  proof (cases "a \<le> b")
    case True
    then have "P b (fold f [a..<b] x)" using Suc by simp
    then show ?thesis using True Suc.prems(2) [of b] by simp
  next
    case False
    then have "a = Suc b" using Suc.prems(1) by simp
    then show ?thesis using assms(2) by simp
  qed
qed

section \<open>Sorting\<close>

lemma mset_entry_swap:
  assumes "i < length es" "j < length es"
  shows "mset (dht_layout_entry_swap es i j) = mset es" "length (dht_layout_entry_swap es i j) = length es"
  using assms by (simp_all add: dht_layout_entry_swap_def mset_swap)

lemma nth_entry_swap:
  "i < length es \<Longrightarrow> j < length es \<Longrightarrow> i \<noteq> j \<Longrightarrow>
     dht_layout_entry_swap es i j ! k = (if k = i then es ! j else if k = j then es ! i else es ! k)"
  by (auto simp: dht_layout_entry_swap_def nth_list_update)

definition cmp_key :: "(layout_entry \<Rightarrow> layout_entry \<Rightarrow> int) \<Rightarrow> (layout_entry \<Rightarrow> 'k::linorder) \<Rightarrow>
    layout_entry set \<Rightarrow> bool" where
  "cmp_key cmp key S \<longleftrightarrow> (\<forall>x \<in> S. \<forall>y \<in> S. cmp x y > 0 \<longleftrightarrow> key x > key y)"

lemma sort_inner_ok:
  assumes i: "i < length es" and ck: "cmp_key cmp key (set es)"
  shows "mset (sort_inner cmp i es) = mset es \<and> (\<forall>k < i. sort_inner cmp i es ! k = es ! k) \<and>
    (\<forall>k. i \<le> k \<longrightarrow> k < length es \<longrightarrow> key (sort_inner cmp i es ! i) \<le> key (sort_inner cmp i es ! k))"
proof -
  let ?f = "\<lambda>j es. if cmp (es ! i) (es ! j) > 0 then dht_layout_entry_swap es i j else es"
  let ?P = "\<lambda>j xs. mset xs = mset es \<and> (\<forall>k < i. xs ! k = es ! k) \<and>
      (\<forall>k. i \<le> k \<longrightarrow> k < j \<longrightarrow> key (xs ! i) \<le> key (xs ! k))"
  have "?P (length es) (fold ?f [i + 1..<length es] es)"
  proof (rule fold_upt_inv [where P = ?P])
    show "i + 1 \<le> length es" using i by simp
    show "?P (i + 1) es" by (auto simp: less_Suc_eq dest: antisym)
    fix j xs assume j: "i + 1 \<le> j" "j < length es" and P: "?P j xs"
    have len: "length xs = length es" using P by (metis size_mset)
    have set: "set xs = set es" using P by (metis set_mset_mset)
    have ij: "i < length xs" "j < length xs" "i < j" "i \<noteq> j" using i j len by auto
    have c: "cmp (xs ! i) (xs ! j) > 0 \<longleftrightarrow> key (xs ! i) > key (xs ! j)"
      using ck ij set by (metis cmp_key_def nth_mem)
    show "?P (Suc j) (?f j xs)"
    proof (cases "cmp (xs ! i) (xs ! j) > 0")
      case True
      then have "key (xs ! j) < key (xs ! i)" using c by simp
      then show ?thesis using True P ij mset_entry_swap(1) [OF ij(1,2)]
        by (auto simp: nth_entry_swap less_Suc_eq intro: order_less_imp_le order_trans)
    next
      case False
      then show ?thesis using P c by (auto simp: less_Suc_eq)
    qed
  qed
  then show ?thesis unfolding sort_inner_def by simp
qed

lemma mset_drop_eq:
  assumes "mset ys = mset xs" "\<forall>k < i. ys ! k = xs ! k" "k \<le> i" "i \<le> length xs"
  shows "set (drop k ys) = set (drop k xs)"
proof -
  have "length ys = length xs" using assms(1) by (metis size_mset)
  then have "take k ys = take k xs" using assms by (intro nth_equalityI) auto
  then have "mset (drop k ys) = mset (drop k xs)"
    using assms(1) by (metis add_left_cancel append_take_drop_id mset_append)
  then show ?thesis by (metis set_mset_mset)
qed

lemma sort_entries_ok:
  assumes ck: "cmp_key cmp key (set es)"
  shows "mset (sort_entries cmp es) = mset es" "sorted (map key (sort_entries cmp es))"
proof -
  let ?P = "\<lambda>i xs. mset xs = mset es \<and> (\<forall>k < i. \<forall>y \<in> set (drop k xs). key (xs ! k) \<le> key y)"
  have P: "?P (length es - 1) (fold (sort_inner cmp) [0..<length es - 1] es)"
  proof (rule fold_upt_inv [where P = ?P])
    fix i xs assume i: "i < length es - 1" and P: "?P i xs"
    have len: "length xs = length es" using P by (metis size_mset)
    have set: "set xs = set es" using P by (metis set_mset_mset)
    have il: "i < length xs" using i len by simp
    let ?ys = "sort_inner cmp i xs"
    have I: "mset ?ys = mset xs" "\<forall>k < i. ?ys ! k = xs ! k"
      "\<forall>k. i \<le> k \<longrightarrow> k < length xs \<longrightarrow> key (?ys ! i) \<le> key (?ys ! k)"
      using sort_inner_ok [OF il, of cmp key] ck set by auto
    have leny: "length ?ys = length xs" using I(1) by (metis size_mset)
    have "key (?ys ! k) \<le> key y" if k: "k < Suc i" and y: "y \<in> set (drop k ?ys)" for k y
    proof (cases "k = i")
      case True
      then obtain m where "m < length xs - i" "y = ?ys ! (i + m)"
        using y leny by (auto simp: in_set_conv_nth)
      then show ?thesis using I(3) True by simp
    next
      case False
      then have "k < i" "y \<in> set (drop k xs)"
        using k y mset_drop_eq [OF I(1,2), of k] il by auto
      then show ?thesis using P I(2) by simp
    qed
    then show "?P (Suc i) ?ys" using I(1) P by auto
  qed auto
  let ?zs = "sort_entries cmp es"
  show m: "mset ?zs = mset es" using P by (simp add: sort_entries_def)
  have len: "length ?zs = length es" using m by (metis size_mset)
  show "sorted (map key ?zs)"
    unfolding sorted_iff_nth_mono_less
  proof (intro allI impI)
    fix k l assume kl: "k < l" "l < length (map key ?zs)"
    then have "drop k ?zs ! (l - k) = ?zs ! l" "l - k < length (drop k ?zs)" by simp_all
    then have "?zs ! l \<in> set (drop k ?zs)" by (metis nth_mem)
    then show "map key ?zs ! k \<le> map key ?zs ! l"
      using P kl len by (simp add: sort_entries_def)
  qed
qed

text \<open>The order of dht_layout_entry_cmp on entries whose range does not wrap: the zeroed
  entries first, then by start.\<close>

definition range_ok :: "layout_entry \<Rightarrow> bool" where
  "range_ok e \<longleftrightarrow> le_start e \<le> le_stop e"

definition range_key :: "layout_entry \<Rightarrow> nat" where
  "range_key e = (if le_start e = 0 \<and> le_stop e = 0 then 0 else unat (le_start e) + 1)"

lemma entry_cmp_iff:
  "dht_layout_entry_cmp x y > 0 \<longleftrightarrow>
     (if le_start y = 0 \<and> le_stop y = 0 then le_stop x > le_stop y else le_start x > le_start y)"
  by (simp add: dht_layout_entry_cmp_def word_less_def)

lemma cmp_key_range: "\<forall>e \<in> S. range_ok e \<Longrightarrow> cmp_key dht_layout_entry_cmp range_key S"
  unfolding cmp_key_def
proof (intro ballI)
  fix x y assume S: "\<forall>e \<in> S. range_ok e" and xy: "x \<in> S" "y \<in> S"
  have "unat (le_start x) \<le> unat (le_stop x)"
    using S xy by (auto simp: range_ok_def word_le_nat_alt)
  then show "(0 < dht_layout_entry_cmp x y) = (range_key y < range_key x)"
    unfolding entry_cmp_iff range_key_def word_less_nat_alt
    by (auto simp flip: unat_eq_zero)
qed

lemma range_key_start: "range_key x \<le> range_key y \<Longrightarrow> le_start x \<le> le_start y"
  by (auto simp: range_key_def word_le_nat_alt split: if_splits)

lemma sort_entries_starts:
  assumes "\<forall>e \<in> set es. range_ok e"
  shows "mset (sort_entries dht_layout_entry_cmp es) = mset es"
    "sorted (map le_start (sort_entries dht_layout_entry_cmp es))"
proof -
  note S = sort_entries_ok [OF cmp_key_range [OF assms]]
  show "mset (sort_entries dht_layout_entry_cmp es) = mset es" by (rule S(1))
  show "sorted (map le_start (sort_entries dht_layout_entry_cmp es))"
    using S(2) by (auto simp: sorted_iff_nth_mono intro: range_key_start)
qed

section \<open>Anomalies\<close>

text \<open>Entries follow each other without a gap or an overlap, in the arithmetic of the code.\<close>

fun chain :: "u32 \<Rightarrow> layout_entry list \<Rightarrow> bool" where
  "chain prev [] = True"
| "chain prev (e # es) = (prev + 1 = le_start e \<and> chain (le_stop e) es)"

fun end_stop :: "u32 \<Rightarrow> layout_entry list \<Rightarrow> u32" where
  "end_stop prev [] = prev"
| "end_stop prev (e # es) = end_stop (le_stop e) es"

fun n_holes :: "u32 \<Rightarrow> layout_entry list \<Rightarrow> nat" where
  "n_holes prev [] = 0"
| "n_holes prev (e # es) = (if prev + 1 < le_start e then 1 else 0) + n_holes (le_stop e) es"

fun n_overlaps :: "u32 \<Rightarrow> layout_entry list \<Rightarrow> nat" where
  "n_overlaps prev [] = 0"
| "n_overlaps prev (e # es) = (if prev + 1 > le_start e then 1 else 0) + n_overlaps (le_stop e) es"

lemma chain_iff: "chain prev es \<longleftrightarrow> n_holes prev es = 0 \<and> n_overlaps prev es = 0"
  by (induction es arbitrary: prev) auto

lemma n_le_length: "n_holes prev es \<le> length es" "n_overlaps prev es \<le> length es"
  by (induction es arbitrary: prev) (auto simp: le_SucI)

lemma anomalies_loop_eq:
  "anomalies_loop es (prev, v, a) = (prev', v', a') \<Longrightarrow>
     prev' = end_stop prev (filter participates es) \<and> v' = (v \<and> filter participates es = []) \<and>
     hole_cnt a' = hole_cnt a + of_nat (n_holes prev (filter participates es)) \<and>
     overlap_cnt a' = overlap_cnt a + of_nat (n_overlaps prev (filter participates es))"
proof (induction es arbitrary: prev v a)
  case Nil
  then show ?case by simp
next
  case (Cons e es)
  show ?case
  proof (cases "participates e")
    case True
    define a2 where "a2 = (let a1 = (if prev + 1 < le_start e then a\<lparr>hole_cnt := hole_cnt a + 1\<rparr> else a)
      in if prev + 1 > le_start e then a1\<lparr>overlap_cnt := overlap_cnt a1 + 1\<rparr> else a1)"
    have "anomalies_loop es (le_stop e, False, a2) = (prev', v', a')"
      using Cons.prems True by (simp add: participates_def a2_def Let_def)
    from Cons.IH [OF this] show ?thesis using True by (simp add: a2_def Let_def algebra_simps)
  next
    case False
    then obtain a2 where "anomalies_loop es (prev, v, a2) = (prev', v', a')"
      "hole_cnt a2 = hole_cnt a" "overlap_cnt a2 = overlap_cnt a"
      using Cons.prems by (auto simp: participates_def split: if_splits)
    then show ?thesis using Cons.IH [of prev v a2] False by simp
  qed
qed

text \<open>The counters are zero exactly when the participating entries form a closed chain.\<close>

lemma of_nat_u32_0: "n < 4294967296 \<Longrightarrow> (of_nat n :: u32) = 0 \<longleftrightarrow> n = 0"
  by (auto simp: word_of_nat_eq_0_iff dest: dvd_imp_le)

lemma anomalies_zero_iff:
  fixes layout
  defines "ps \<equiv> filter participates (lay_list layout)" and "s \<equiv> le_start (hd (lay_list layout)) - 1"
  assumes len: "length (lay_list layout) < 4294967295"
  shows "hole_cnt (dht_layout_anomalies layout) = 0 \<and> overlap_cnt (dht_layout_anomalies layout) = 0 \<longleftrightarrow>
    ps \<noteq> [] \<and> chain s ps \<and> end_stop s ps = s"
proof -
  obtain prev v a where l: "anomalies_loop (lay_list layout) (s, True, no_anomalies) = (prev, v, a)"
    by (rule prod_cases3)
  note E = anomalies_loop_eq [OF l, folded ps_def]
  have lp: "length ps \<le> length (lay_list layout)" by (simp add: ps_def)
  let ?x = "if s - prev \<noteq> 0 \<or> v then 1 else 0"
  have A: "hole_cnt (dht_layout_anomalies layout) = of_nat (n_holes s ps + ?x)"
    "overlap_cnt (dht_layout_anomalies layout) = of_nat (n_overlaps s ps)"
    using E l by (auto simp: dht_layout_anomalies_def Let_def no_anomalies_def s_def)
  have "hole_cnt (dht_layout_anomalies layout) = 0 \<longleftrightarrow> n_holes s ps + ?x = 0"
    unfolding A(1) by (rule of_nat_u32_0) (use n_le_length(1) [of s ps] lp len in auto)
  moreover have "overlap_cnt (dht_layout_anomalies layout) = 0 \<longleftrightarrow> n_overlaps s ps = 0"
    unfolding A(2) by (rule of_nat_u32_0) (use n_le_length(2) [of s ps] lp len in auto)
  moreover have "s - prev \<noteq> 0 \<longleftrightarrow> end_stop s ps \<noteq> s" "v \<longleftrightarrow> ps = []" using E by auto
  ultimately show ?thesis by (auto simp: chain_iff)
qed

section \<open>Cover\<close>

lemma chain_cover:
  assumes "chain prev es" "es \<noteq> []" "le_start (hd es) \<le> h" "h \<le> end_stop prev es"
  shows "\<exists>e \<in> set es. in_range e h"
  using assms
proof (induction es arbitrary: prev)
  case Nil
  then show ?case by simp
next
  case (Cons e es)
  show ?case
  proof (cases "h \<le> le_stop e")
    case True
    then show ?thesis using Cons.prems by (auto simp: in_range_def)
  next
    case False
    then have gt: "le_stop e < h" by simp
    then have ne: "es \<noteq> []" using Cons.prems(4) by auto
    then have st: "le_start (hd es) = le_stop e + 1" using Cons.prems(1) by (cases es) auto
    have "le_stop e + 1 \<le> h" using gt by (rule inc_le)
    then show ?thesis using Cons.IH [of "le_stop e"] Cons.prems ne st by auto
  qed
qed

lemma end_stop_last: "es \<noteq> [] \<Longrightarrow> end_stop prev es = le_stop (last es)"
  by (induction es arbitrary: prev) auto

lemma chain_nth: "chain prev es \<Longrightarrow> Suc i < length es \<Longrightarrow> le_start (es ! Suc i) = le_stop (es ! i) + 1"
proof (induction es arbitrary: prev i)
  case (Cons e es)
  then show ?case by (cases i; cases es) auto
qed simp

text \<open>A closed chain of entries sorted by start starts at 0 and covers every value; a value in
  two entries means that the first of them is the whole range.\<close>

lemma closed_chain_cover:
  assumes c: "chain (s - 1) ps" "ps \<noteq> []" "end_stop (s - 1) ps = s - 1"
    and st: "sorted (map le_start ps)" and ok: "\<forall>e \<in> set ps. range_ok e \<and> s \<le> le_start e"
  shows "\<exists>e \<in> set ps. in_range e h"
    "i < j \<Longrightarrow> j < length ps \<Longrightarrow> in_range (ps ! i) h \<Longrightarrow> in_range (ps ! j) h \<Longrightarrow>
       le_start (ps ! i) = 0 \<and> le_stop (ps ! i) = -1"
proof -
  have hd: "le_start (hd ps) = s" using c(1,2) by (cases ps) auto
  have last: "s \<le> le_stop (last ps)"
    using bspec [OF ok last_in_set [OF c(2)]] by (auto simp: range_ok_def)
  then have s0: "s = 0"
    using c(2,3) by (simp add: end_stop_last less_eq_dec_self_iff_eq)
  have "h \<le> end_stop (s - 1) ps" using c(3) s0 by simp
  then show "\<exists>e \<in> set ps. in_range e h"
    using chain_cover [OF c(1,2), of h] hd s0 by simp
  assume ij: "i < j" "j < length ps" and r: "in_range (ps ! i) h" "in_range (ps ! j) h"
  have nx: "le_start (ps ! Suc i) = le_stop (ps ! i) + 1" using chain_nth [OF c(1)] ij by simp
  have "le_start (ps ! Suc i) \<le> le_start (ps ! j)"
    using st ij by (simp add: sorted_iff_nth_mono)
  then have le: "le_stop (ps ! i) + 1 \<le> le_stop (ps ! i)"
    using r nx by (auto simp: in_range_def)
  then have m: "le_stop (ps ! i) = -1" by (simp add: inc_less_eq_self_iff_eq)
  have "le_start (ps ! i) \<le> le_start (ps ! Suc i)"
    using st ij by (simp add: sorted_iff_nth_mono)
  then show "le_start (ps ! i) = 0 \<and> le_stop (ps ! i) = -1" using m nx by simp
qed

text \<open>Conversely an exact cover is a closed chain.\<close>

lemma exact_cover_chain:
  assumes cov: "\<forall>h. \<exists>k < length ps. in_range (ps ! k) h"
    and uni: "\<forall>h i j. i < j \<longrightarrow> j < length ps \<longrightarrow> in_range (ps ! i) h \<longrightarrow> \<not> in_range (ps ! j) h"
    and st: "sorted (map le_start ps)" and ok: "\<forall>e \<in> set ps. range_ok e"
  shows "ps \<noteq> []" "le_start (hd ps) = 0" "le_stop (last ps) = -1"
    "Suc i < length ps \<Longrightarrow> le_start (ps ! Suc i) = le_stop (ps ! i) + 1"
proof -
  have mono: "le_start (ps ! i) \<le> le_start (ps ! j)" if "i \<le> j" "j < length ps" for i j
    using st that by (simp add: sorted_iff_nth_mono)
  have rok: "le_start (ps ! i) \<le> le_stop (ps ! i)" if "i < length ps" for i
    using ok that by (simp add: range_ok_def)
  have disj: "le_stop (ps ! i) < le_start (ps ! j)" if "i < j" "j < length ps" for i j
  proof (rule ccontr)
    assume "\<not> ?thesis"
    then have "in_range (ps ! i) (le_start (ps ! j))" "in_range (ps ! j) (le_start (ps ! j))"
      using mono [of i j] rok [of j] that by (auto simp: in_range_def)
    then show False using uni that by blast
  qed
  show ne: "ps \<noteq> []" using cov by auto
  obtain k where k: "k < length ps" "in_range (ps ! k) 0" using cov by blast
  then have "le_start (ps ! 0) \<le> 0" using mono [of 0 k] by (simp add: in_range_def)
  then show "le_start (hd ps) = 0" using ne by (simp add: hd_conv_nth)
  obtain l where l: "l < length ps" "in_range (ps ! l) (-1)" using cov by blast
  then have l1: "le_stop (ps ! l) = -1" by (simp add: in_range_def order_antisym)
  have "\<not> l < length ps - 1" using disj [of l "length ps - 1"] l1 ne by auto
  then have "l = length ps - 1" using l(1) by simp
  then show "le_stop (last ps) = -1" using l1 ne by (simp add: last_conv_nth)
  assume i: "Suc i < length ps"
  then have lt: "le_stop (ps ! i) < le_start (ps ! Suc i)" using disj by simp
  obtain k where k: "k < length ps" "in_range (ps ! k) (le_stop (ps ! i) + 1)" using cov by blast
  have gt: "le_stop (ps ! i) < le_stop (ps ! i) + 1" using lt by (auto simp: not_less inc_less_eq_self_iff_eq simp flip: not_le)
  have "i < k"
  proof (rule ccontr)
    assume "\<not> i < k"
    then have "k = i \<or> le_stop (ps ! k) < le_start (ps ! i)" using disj [of k i] i by (cases k i rule: linorder_cases) auto
    then have "le_stop (ps ! k) \<le> le_stop (ps ! i)" using rok [of i] i by auto
    then show False using k(2) gt by (auto simp: in_range_def)
  qed
  then have "le_start (ps ! Suc i) \<le> le_stop (ps ! i) + 1"
    using mono [of "Suc i" k] k by (auto simp: in_range_def)
  then show "le_start (ps ! Suc i) = le_stop (ps ! i) + 1" using inc_le [OF lt] by simp
qed

lemma chain_from_nth:
  "ps \<noteq> [] \<Longrightarrow> le_start (hd ps) = prev + 1 \<Longrightarrow>
   (\<And>i. Suc i < length ps \<Longrightarrow> le_start (ps ! Suc i) = le_stop (ps ! i) + 1) \<Longrightarrow> chain prev ps"
proof (induction ps arbitrary: prev)
  case (Cons e es)
  have "le_start (es ! Suc i) = le_stop (es ! i) + 1" if "Suc i < length es" for i
    using Cons.prems(3) [of "Suc i"] that by simp
  then show ?case using Cons.IH [of "le_stop e"] Cons.prems(2) Cons.prems(3) [of 0]
    by (cases "es = []") (auto simp: hd_conv_nth)
qed simp

section \<open>Properties\<close>

lemma normalize_fold:
  "fold (\<lambda>e ret. if le_err e > 0 \<and> le_err e = ENOENT \<and> ret \<ge> 0 then ret + 1 else ret) es ret =
     (if ret \<ge> 0 then ret + int (length (filter (\<lambda>e. le_err e = ENOENT) es)) else ret)"
  by (induction es arbitrary: ret) auto

lemma dht_layout_normalize_eq:
  "dht_layout_normalize layout =
     (let a = dht_layout_anomalies (dht_layout_sort layout) in
      (if hole_cnt a = 0 \<and> overlap_cnt a = 0
       then int (length (filter (\<lambda>e. le_err e = ENOENT) (lay_list (dht_layout_sort layout)))) else -1,
       dht_layout_sort layout))"
  unfolding dht_layout_normalize_def by (simp add: Let_def normalize_fold)

lemma sorted_participants:
  assumes ok: "\<forall>e \<in> set (lay_list layout). range_ok e" and ne: "lay_list layout \<noteq> []"
  defines "zs \<equiv> lay_list (dht_layout_sort layout)"
  shows "mset zs = mset (lay_list layout)" "sorted (map le_start zs)"
    "sorted (map le_start (filter participates zs))"
    "\<forall>e \<in> set (filter participates zs). range_ok e \<and> le_start (hd zs) \<le> le_start e"
proof -
  note S = sort_entries_starts [OF ok]
  show m: "mset zs = mset (lay_list layout)" and st: "sorted (map le_start zs)"
    using S by (simp_all add: zs_def dht_layout_sort_def)
  show "sorted (map le_start (filter participates zs))"
    using st by (rule sorted_filter)
  have set: "set zs = set (lay_list layout)" using m by (metis set_mset_mset)
  then obtain z zt where z: "zs = z # zt" using ne by (cases zs) auto
  then show "\<forall>e \<in> set (filter participates zs). range_ok e \<and> le_start (hd zs) \<le> le_start e"
    using st ok set by auto
qed

lemma normalize_iff:
  assumes "lay_list layout \<noteq> []" "length (lay_list layout) < 4294967295"
    and "\<forall>e \<in> set (lay_list layout). range_ok e"
    and "dht_layout_normalize layout = (ret, layout')"
  defines "ps \<equiv> filter participates (lay_list layout')" and "s \<equiv> le_start (hd (lay_list layout'))"
  shows "0 \<le> ret \<longleftrightarrow> ps \<noteq> [] \<and> chain (s - 1) ps \<and> end_stop (s - 1) ps = s - 1"
proof -
  have l': "layout' = dht_layout_sort layout" using assms(4) by (simp add: dht_layout_normalize_eq Let_def)
  have len: "length (lay_list layout') = length (lay_list layout)"
    using sorted_participants(1) [OF assms(3,1)] l' by (metis size_mset)
  show ?thesis
    using assms(2,4) anomalies_zero_iff [of layout'] len unfolding dht_layout_normalize_eq ps_def s_def
    by (auto simp: Let_def l' split: if_splits)
qed

lemma normalize_cover:
  assumes "lay_list layout \<noteq> []" "length (lay_list layout) < 4294967295"
    and "\<forall>e \<in> set (lay_list layout). range_ok e"
    and "dht_layout_normalize layout = (ret, layout')" "0 \<le> ret"
  defines "ps \<equiv> filter participates (lay_list layout')"
  shows "\<exists>e \<in> set ps. in_range e h"
    "i < j \<Longrightarrow> j < length ps \<Longrightarrow> in_range (ps ! i) h \<Longrightarrow> in_range (ps ! j) h \<Longrightarrow>
       le_start (ps ! i) = 0 \<and> le_stop (ps ! i) = -1"
proof -
  have l': "layout' = dht_layout_sort layout" using assms(4) by (simp add: dht_layout_normalize_eq Let_def)
  note P = sorted_participants [OF assms(3,1), folded l', folded ps_def]
  note C = closed_chain_cover [OF _ _ _ P(3,4)]
  have "ps \<noteq> [] \<and> chain (le_start (hd (lay_list layout')) - 1) ps \<and>
      end_stop (le_start (hd (lay_list layout')) - 1) ps = le_start (hd (lay_list layout')) - 1"
    using normalize_iff [OF assms(1-4)] assms(5) by (simp add: ps_def)
  then show "\<exists>e \<in> set ps. in_range e h"
    "i < j \<Longrightarrow> j < length ps \<Longrightarrow> in_range (ps ! i) h \<Longrightarrow> in_range (ps ! j) h \<Longrightarrow>
       le_start (ps ! i) = 0 \<and> le_stop (ps ! i) = -1"
    using C by blast+
qed

lemma normalize_exact:
  assumes "lay_list layout \<noteq> []" "length (lay_list layout) < 4294967295"
    and "\<forall>e \<in> set (lay_list layout). range_ok e"
    and "dht_layout_normalize layout = (ret, layout')"
  defines "ps \<equiv> filter participates (lay_list layout')"
  assumes ex: "\<forall>h. \<exists>!i. i < length ps \<and> in_range (ps ! i) h"
  shows "0 \<le> ret"
proof -
  have l': "layout' = dht_layout_sort layout" using assms(4) by (simp add: dht_layout_normalize_eq Let_def)
  note P = sorted_participants [OF assms(3,1), folded l', folded ps_def]
  have a: "\<forall>h. \<exists>k < length ps. in_range (ps ! k) h" using ex by blast
  have b: "\<forall>h i j. i < j \<longrightarrow> j < length ps \<longrightarrow> in_range (ps ! i) h \<longrightarrow> \<not> in_range (ps ! j) h"
    using ex by (metis dual_order.strict_trans order_less_irrefl)
  have ok: "\<forall>e \<in> set ps. range_ok e" using P(4) by blast
  note c = exact_cover_chain [OF a b P(3) ok]
  let ?s = "le_start (hd (lay_list layout'))"
  have "?s \<le> le_start (hd ps)" using P(4) c(1) hd_in_set by blast
  then have s0: "?s = 0" using c(2) by simp
  have "chain (?s - 1) ps" by (rule chain_from_nth) (use c s0 in auto)
  then show ?thesis using normalize_iff [OF assms(1-4)] c s0 by (simp add: end_stop_last ps_def)
qed

text \<open>A layout over two subvolumes, used by the examples.\<close>

definition brick_a :: xlator where
  "brick_a = \<lparr>xl_addr = 1, xl_name = ''a''\<rparr>"

definition brick_b :: xlator where
  "brick_b = \<lparr>xl_addr = 2, xl_name = ''b''\<rparr>"

definition two_bricks :: dht_layout where
  "two_bricks = (dht_layout_new None 2)\<lparr>lay_list :=
     [\<lparr>le_err = 0, le_start = 0x80000000, le_stop = 0xffffffff, le_xlator = Some brick_b\<rparr>,
      \<lparr>le_err = 0, le_start = 0, le_stop = 0x7fffffff, le_xlator = Some brick_a\<rparr>]\<rparr>"

definition example_conf :: dht_conf where
  "example_conf = \<lparr>subvolumes = [brick_a, brick_b], file_layouts = [], decommissioned_bricks = [],
     dir_spread_cnt = 0, conf_gen = 0, do_weighting = False, randomize_by_gfid = False,
     subvol_chunks = None, extra_regex = None, rsync_regex = None\<rparr>"



text \<open>Two subvolumes that both claim the whole range pass the check: dht_layout_normalize
  finds neither hole nor overlap although every hash value is claimed twice, because the
  successor of the largest hash value is 0.\<close>

theorem full_range_overlap_undetected:
  "let e = \<lparr>le_err = 0, le_start = 0, le_stop = 0xffffffff, le_xlator = Some brick_a\<rparr>;
       f = e\<lparr>le_xlator := Some brick_b\<rparr>;
       layout = (dht_layout_new None 2)\<lparr>lay_list := [e, f]\<rparr>
   in fst (dht_layout_normalize layout) = 0 \<and> (\<forall>h. in_range e h \<and> in_range f h)"
proof -
  have "fst (dht_layout_normalize ((dht_layout_new None 2)\<lparr>lay_list :=
     [\<lparr>le_err = 0, le_start = 0, le_stop = 0xffffffff, le_xlator = Some brick_a\<rparr>,
      \<lparr>le_err = 0, le_start = 0, le_stop = 0xffffffff, le_xlator = Some brick_b\<rparr>]\<rparr>)) = 0"
    by code_simp
  moreover have "(0xffffffff :: u32) = -1" by simp
  then have "h \<le> (0xffffffff :: u32)" for h by (simp only: word_n1_ge)
  ultimately show ?thesis by (simp add: Let_def in_range_def)
qed

section \<open>Search\<close>



section \<open>Layouts on disk\<close>

lemma length_hton32 [simp]: "length (hton32 w) = 4"
  by (simp add: hton32_def)

lemma ntoh32_hton32 [simp]: "ntoh32 (hton32 w @ bs) = w"
proof (rule bit_word_eqI)
  fix n assume "n < LENGTH(32)"
  then show "bit (ntoh32 (hton32 w @ bs)) n = bit w n"
    by (cases "n < 8"; cases "n < 16"; cases "n < 24") (auto simp: hton32_def bit_simps)
qed

text \<open>C30: What dht_disk_layout_extract writes for an entry, dht_disk_layout_merge reads back: into
  any layout with a known type and at any position, it stores the range of the entry, leaves
  everything else but the type, and takes over the type when it is the user's.\<close>

theorem disk_layout_round_trip:
  assumes "pos < length (lay_list layout)" "pos' < length (lay_list layout')"
    and "lay_type layout = DHT_HASH_TYPE_DM \<or> lay_type layout = DHT_HASH_TYPE_DM_USER"
  shows "\<exists>raw. dht_disk_layout_extract layout pos = Some raw \<and>
    dht_disk_layout_merge layout' pos' (Some raw) =
      Some (0, layout'\<lparr>lay_type := (if lay_type layout = DHT_HASH_TYPE_DM_USER then lay_type layout else lay_type layout'),
        lay_list := (lay_list layout')[pos' := (lay_list layout' ! pos')
          \<lparr>le_start := le_start (lay_list layout ! pos), le_stop := le_stop (lay_list layout ! pos)\<rparr>]\<rparr>)"
proof -
  have "ntoh32 (hton32 w) = w" for w using ntoh32_hton32 [of w "[]"] by simp
  then show ?thesis
    using assms by (auto simp: dht_disk_layout_extract_def dht_disk_layout_merge_def Let_def)
qed

theorem disk_layout_round_trip_witness:
  "\<exists>raw. dht_disk_layout_extract two_bricks 0 = Some raw \<and>
     map_option (\<lambda>(ret, l). (ret, le_start (lay_list l ! 1), le_stop (lay_list l ! 1)))
       (dht_disk_layout_merge (dht_layout_new None 2) 1 (Some raw)) = Some (0, 0x80000000, 0xffffffff)"
  using disk_layout_round_trip [of 0 two_bricks 1 "dht_layout_new None 2"]
  by (auto simp: two_bricks_def dht_layout_new_def)

end
