(* ===== verification/DHT_Hash_Props.thy ===== *)
theory DHT_Hash_Props
  imports DHT_Hash
begin

unbundle bit_operations_syntax

text \<open>
  The Davies-Meyer hash against a reference definition: the message as a sequence of words, the
  last of them the padding with the remaining bytes shifted in, filled up with the padding to
  whole blocks of four words; all blocks but the last go through the short rounds, the last one
  through the long rounds.
\<close>

section \<open>Reference\<close>

fun dm_words :: "u32 \<Rightarrow> cstr \<Rightarrow> u32 list" where
  "dm_words pad (b0 # b1 # b2 # b3 # bs) = read_word [b0, b1, b2, b3] # dm_words pad bs"
| "dm_words pad bs = [shift_in pad bs]"

definition dm_padded :: "u32 \<Rightarrow> cstr \<Rightarrow> u32 list" where
  "dm_padded pad msg =
     dm_words pad msg @ replicate ((4 - length (dm_words pad msg) mod 4) mod 4) pad"

fun dm_blocks :: "u32 list \<Rightarrow> dm_array list" where
  "dm_blocks (a0 # a1 # a2 # a3 # ws) = DM a0 a1 a2 a3 # dm_blocks ws"
| "dm_blocks _ = []"

definition dm_reference :: "cstr \<Rightarrow> u32" where
  "dm_reference msg =
     (let bs = dm_blocks (dm_padded (dm_pad (length msg)) msg);
          h = fold (dm_round DM_PARTROUNDS) (butlast bs) (0x9464a485, 0x542e1a94)
      in case dm_round DM_FULLROUNDS (last bs) h of (h0, h1) \<Rightarrow> h0 XOR h1)"

section \<open>Lemmas\<close>

text \<open>The block the last loop builds.\<close>

definition dm_tail :: "u32 \<Rightarrow> cstr \<Rightarrow> dm_array" where
  "dm_tail pad msg =
     (case dm_tail_word pad (length msg div 4, length msg, msg) of (a0, st1) \<Rightarrow>
      case dm_tail_word pad st1 of (a1, st2) \<Rightarrow>
      case dm_tail_word pad st2 of (a2, st3) \<Rightarrow>
      case dm_tail_word pad st3 of (a3, st4) \<Rightarrow> DM a0 a1 a2 a3)"

lemma gf_dm_hashfn_tail:
  "gf_dm_hashfn msg =
     (case dm_quads (length msg div 16) msg (0x9464a485, 0x542e1a94) of (rest, h) \<Rightarrow>
      case dm_round DM_FULLROUNDS (dm_tail (dm_pad (length msg)) rest) h of (h0, h1) \<Rightarrow> h0 XOR h1)"
  if "fst (dm_quads (length msg div 16) msg (0x9464a485, 0x542e1a94)) =
    drop (16 * (length msg div 16)) msg"
proof -
  obtain rest h where q: "dm_quads (length msg div 16) msg (0x9464a485, 0x542e1a94) = (rest, h)"
    by (rule prod.exhaust)
  have "length rest = length msg - 16 * (length msg div 16)" using that q by simp
  moreover have "(length msg - 16 * (length msg div 16)) div 4 = length msg div 4 - 4 * (length msg div 16)"
    by linarith
  ultimately show ?thesis unfolding gf_dm_hashfn_def dm_tail_def by (simp add: Let_def q split: prod.split)
qed

text \<open>The words of the last loop as a list.\<close>

fun tail_words :: "nat \<Rightarrow> u32 \<Rightarrow> nat \<times> nat \<times> cstr \<Rightarrow> u32 list" where
  "tail_words 0 pad st = []"
| "tail_words (Suc n) pad st = (case dm_tail_word pad st of (a, st') \<Rightarrow> a # tail_words n pad st')"

lemma tail_words_pad: "tail_words n pad (0, 0, []) = replicate n pad"
  by (induction n) (auto simp: dm_tail_word_def)

lemma tail_words_4:
  "tail_words 4 pad st =
     (case dm_tail_word pad st of (a0, st1) \<Rightarrow> case dm_tail_word pad st1 of (a1, st2) \<Rightarrow>
      case dm_tail_word pad st2 of (a2, st3) \<Rightarrow> case dm_tail_word pad st3 of (a3, st4) \<Rightarrow> [a0, a1, a2, a3])"
  by (simp add: eval_nat_numeral split: prod.split)

lemma length_dm_words: "length (dm_words pad msg) = length msg div 4 + 1"
  by (induction pad msg rule: dm_words.induct) auto

lemma dm_words_short: "length msg < 4 \<Longrightarrow> dm_words pad msg = [shift_in pad msg]"
  by (cases "(pad, msg)" rule: dm_words.cases) auto

lemma dm_words_4: "4 \<le> length msg \<Longrightarrow> dm_words pad msg = read_word msg # dm_words pad (drop 4 msg)"
  by (cases "(pad, msg)" rule: dm_words.cases) auto

lemma tail_words_eq:
  "length msg < 4 * n \<Longrightarrow> tail_words n pad (length msg div 4, length msg, msg) =
     dm_words pad msg @ replicate (n - length (dm_words pad msg)) pad"
proof (induction n arbitrary: msg)
  case (Suc n)
  show ?case
  proof (cases "length msg < 4")
    case True
    then show ?thesis by (simp add: dm_tail_word_def tail_words_pad dm_words_short)
  next
    case False
    then have "length msg div 4 \<noteq> 0" "length msg div 4 - 1 = length (drop 4 msg) div 4" by auto
    then show ?thesis using False Suc.IH [of "drop 4 msg"] Suc.prems
      by (simp add: dm_tail_word_def dm_words_4)
  qed
qed simp

lemma dm_tail_short:
  assumes "length msg < 16"
  shows "dm_blocks (dm_padded pad msg) = [dm_tail pad msg]"
proof -
  have "length msg div 4 < 4" using assms by simp
  then have "length (dm_words pad msg) \<in> {1, 2, 3, 4}" unfolding length_dm_words by auto
  then have "(4 - length (dm_words pad msg) mod 4) mod 4 = 4 - length (dm_words pad msg)" by auto
  then have "dm_padded pad msg = tail_words 4 pad (length msg div 4, length msg, msg)"
    unfolding dm_padded_def using tail_words_eq [of msg 4 pad] assms by simp
  then show ?thesis unfolding tail_words_4 dm_tail_def by (simp split: prod.split)
qed

lemma dm_padded_16:
  assumes "16 \<le> length msg"
  shows "dm_padded pad msg = read_word msg # read_word (drop 4 msg) # read_word (drop 8 msg) #
    read_word (drop 12 msg) # dm_padded pad (drop 16 msg)"
proof -
  have "dm_words pad msg = read_word msg # read_word (drop 4 msg) # read_word (drop 8 msg) #
      read_word (drop 12 msg) # dm_words pad (drop 16 msg)"
    using assms by (simp add: dm_words_4)
  then show ?thesis unfolding dm_padded_def by simp
qed

lemma dm_quads_blocks:
  "\<exists>rest h'. dm_quads (length msg div 16) msg h = (rest, h') \<and> rest = drop (16 * (length msg div 16)) msg \<and>
     dm_blocks (dm_padded pad msg) \<noteq> [] \<and>
     h' = fold (dm_round DM_PARTROUNDS) (butlast (dm_blocks (dm_padded pad msg))) h \<and>
     last (dm_blocks (dm_padded pad msg)) = dm_tail pad rest"
proof (induction "length msg div 16" arbitrary: msg h)
  case 0
  then have "length msg < 16" by (simp add: div_eq_0_iff)
  then show ?case by (simp add: dm_tail_short)
next
  case (Suc n)
  then have l: "16 \<le> length msg" "n = length (drop 16 msg) div 16" by auto
  let ?b = "DM (read_word msg) (read_word (drop 4 msg)) (read_word (drop 8 msg)) (read_word (drop 12 msg))"
  have b: "dm_blocks (dm_padded pad msg) = ?b # dm_blocks (dm_padded pad (drop 16 msg))"
    using dm_padded_16 [OF l(1)] by simp
  show ?case using Suc.hyps(1) [OF l(2), of "dm_round DM_PARTROUNDS ?b h"] l(2) Suc.hyps(2) [symmetric]
    unfolding b by (auto simp: add.commute)
qed

section \<open>Properties\<close>

text \<open>C14: gf_dm_hashfn computes the reference hash on every message: its word, quad and byte
  counters split the message into exactly the padded blocks.\<close>

theorem gf_dm_hashfn_reference: "gf_dm_hashfn msg = dm_reference msg"
proof -
  obtain rest h' where q: "dm_quads (length msg div 16) msg (0x9464a485, 0x542e1a94) = (rest, h')"
    "rest = drop (16 * (length msg div 16)) msg"
    "h' = fold (dm_round DM_PARTROUNDS) (butlast (dm_blocks (dm_padded (dm_pad (length msg)) msg))) (0x9464a485, 0x542e1a94)"
    "last (dm_blocks (dm_padded (dm_pad (length msg)) msg)) = dm_tail (dm_pad (length msg)) rest"
    using dm_quads_blocks [of msg "(0x9464a485, 0x542e1a94)" "dm_pad (length msg)"] by blast
  have "gf_dm_hashfn msg =
      (case dm_round DM_FULLROUNDS (dm_tail (dm_pad (length msg)) rest) h' of (h0, h1) \<Rightarrow> h0 XOR h1)"
    using gf_dm_hashfn_tail [of msg] q(2) unfolding q(1) prod.case fst_conv by blast
  then show ?thesis unfolding dm_reference_def Let_def q(3,4) .
qed

section \<open>A known hash\<close>

text \<open>Evaluating the rounds one at a time.\<close>

lemma dm_step:
  "acc + 0x9E3779B9 = acc' \<Longrightarrow>
   b0 + ((push_bit 4 b1 + a0) XOR (b1 + acc') XOR (drop_bit 5 b1 + a1)) = b0' \<Longrightarrow>
   b1 + ((push_bit 4 b0' + a2) XOR (b0' + acc') XOR (drop_bit 5 b0' + a3)) = b1' \<Longrightarrow>
   dm_loop n (DM a0 a1 a2 a3) acc' b0' b1' = r \<Longrightarrow>
   dm_loop (Suc n) (DM a0 a1 a2 a3) acc b0 b1 = r"
  by (simp add: Let_def)

lemma dm_loop_b:
  "dm_loop (Suc (Suc (Suc (Suc (Suc (Suc (Suc (Suc (Suc (Suc 0))))))))))
     (DM 0x2022f62 0x2020202 0x2020202 0x2020202) 0 0x9464a485 0x542e1a94 = (0x34885abf, 0xf04331c3)"
  apply (rule dm_step [where acc' = "0x9e3779b9" and b0' = "0x4689e2be" and b1' = "0xde853b16"], simp, simp, simp)
  apply (rule dm_step [where acc' = "0x3c6ef372" and b0' = "0x3ee1c84e" and b1' = "0x673c687c"], simp, simp, simp)
  apply (rule dm_step [where acc' = "0xdaa66d2b" and b0' = "0x6ff3500e" and b1' = "0xb56b8bd5"], simp, simp, simp)
  apply (rule dm_step [where acc' = "0x78dde6e4" and b0' = "0xe1521079" and b1' = "0xf96bf81f"], simp, simp, simp)
  apply (rule dm_step [where acc' = "0x1715609d" and b0' = "0x62df98a5" and b1' = "0x4c8383f6"], simp, simp, simp)
  apply (rule dm_step [where acc' = "0xb54cda56" and b0' = "0x326bc754" and b1' = "0x19173aca"], simp, simp, simp)
  apply (rule dm_step [where acc' = "0x5384540f" and b0' = "0x2f90b057" and b1' = "0x947dbf5a"], simp, simp, simp)
  apply (rule dm_step [where acc' = "0xf1bbcdc8" and b0' = "0xf8d2f833" and b1' = "0xf59864"], simp, simp, simp)
  apply (rule dm_step [where acc' = "0x8ff34781" and b0' = "0x7c8dbcb5" and b1' = "0xc4b03ee7"], simp, simp, simp)
  apply (rule dm_step [where acc' = "0x2e2ac13a" and b0' = "0x34885abf" and b1' = "0xf04331c3"], simp, simp, simp)
  apply simp
  done

lemma hash_of_b: "gf_dm_hashfn [47, 98] = 0x8c9db313"
proof -
  have r: "(10 :: nat) = Suc (Suc (Suc (Suc (Suc (Suc (Suc (Suc (Suc (Suc 0)))))))))" by simp
  have p: "dm_pad (Suc (Suc 0)) = 0x2020202" by (simp add: dm_pad_def Let_def)
  have t: "dm_tail_word 0x2020202 (0, Suc (Suc 0), [47, 98]) = (0x2022f62, 0, 0, [])"
    "dm_tail_word 0x2020202 (0, 0, []) = (0x2020202, 0, 0, [])"
    by (simp_all add: dm_tail_word_def)
  show ?thesis
    unfolding gf_dm_hashfn_def dm_round_def r
    by (simp add: Let_def p t dm_loop_b del: dm_loop.simps)
qed

end
