(* ===== verification/DHT_Selfheal_Props.thy ===== *)
theory DHT_Selfheal_Props
  imports DHT_Selfheal DHT_Layout_Props DHT_Hash_Props
begin

text \<open>
  What dht_selfheal_layout_new_directory makes: the ranges it gives out are a partition of the
  hash space, a layout with them is accepted by dht_layout_normalize, and the two cases where
  the code goes wrong: an unknown size of the first subvolume, and weighting together with a
  spread count.
\<close>

section \<open>A layout for a new directory\<close>

definition brick_size :: "dht_conf \<Rightarrow> bool \<Rightarrow> layout_entry \<Rightarrow> u32" where
  "brick_size conf w e = (if w then dht_get_chunks_from_xl conf (le_xlator e) else 1)"

lemma layout_count_wanted:
  assumes "dht_get_layout_count conf layout True = (n, l)"
  shows "length (lay_list l) = length (lay_list layout)" "lay_type l = lay_type layout"
    "filter wants_range (lay_list l) \<noteq> [] \<Longrightarrow> 1 \<le> n \<and> n \<le> length (filter wants_range (lay_list l))"
proof -
  define es1 where "es1 = map (mark_decommissioned conf) (lay_list layout)"
  define cand where "cand = (\<lambda>e :: layout_entry. le_err e = -1 \<or> le_err e = 0 \<or> le_err e = ENOENT)"
  have cand: "length (filter cand es) = length (filter wants_range (map (\<lambda>e. if le_err e = 0 then e\<lparr>le_err := -1\<rparr> else e) es))" for es
    by (induction es) (auto simp: cand_def wants_range_def)
  have nospc: "filter cand es = [] \<Longrightarrow> length (filter (\<lambda>e. le_err e = ENOSPC) (map (\<lambda>e. if le_err e = 0 then e\<lparr>le_err := -1\<rparr> else e) es)) =
     length (filter wants_range (map (\<lambda>e. if le_err e = ENOSPC then e\<lparr>le_err := -1\<rparr> else e) (map (\<lambda>e. if le_err e = 0 then e\<lparr>le_err := -1\<rparr> else e) es)))" for es
    by (induction es) (auto simp: cand_def wants_range_def split: if_splits)
  show "length (lay_list l) = length (lay_list layout)" "lay_type l = lay_type layout"
    using assms by (auto simp: dht_get_layout_count_def Let_def)
  show "filter wants_range (lay_list l) \<noteq> [] \<Longrightarrow> 1 \<le> n \<and> n \<le> length (filter wants_range (lay_list l))"
    using assms cand [of es1] nospc [of es1]
    unfolding dht_get_layout_count_def Let_def es1_def [symmetric] cand_def [symmetric]
    by (auto simp: Suc_le_eq filter_map split: if_splits)
qed

lemma sum_chunks_wanted:
  assumes "\<forall>e \<in> set es. wants_range e \<longrightarrow> dht_get_chunks_from_xl conf (le_xlator e) \<noteq> 0"
    and "u < n" "n - u \<le> length (filter wants_range es)"
  shows "sum_chunks conf n es (t, u) =
    (t + sum_list (map (\<lambda>e. dht_get_chunks_from_xl conf (le_xlator e)) (take (n - u) (filter wants_range es))), n, False)"
  using assms
proof (induction es arbitrary: t u)
  case (Cons e es)
  show ?case
  proof (cases "wants_range e")
    case True
    then have nz: "dht_get_chunks_from_xl conf (le_xlator e) \<noteq> 0" using Cons.prems by simp
    obtain k where k: "n - u = Suc k" using Cons.prems(2) by (metis diff_is_0_eq not_less old.nat.exhaust)
    then have k': "n - Suc u = k" by simp
    show ?thesis using True nz k k' Cons.IH [of "Suc u"] Cons.prems
      by (cases "n \<le> Suc u") (auto simp: Let_def add.assoc)
  next
    case False
    then show ?thesis using Cons by simp
  qed
qed auto

lemma sum_chunks_unknown:
  assumes "case filter wants_range es of [] \<Rightarrow> True | e # _ \<Rightarrow> dht_get_chunks_from_xl conf (le_xlator e) = 0"
  shows "\<exists>b. sum_chunks conf n es (t, u) = (t, u, b)"
  using assms by (induction es) (auto simp: Let_def)

lemma unat_add_mult:
  fixes a b c :: u32
  assumes "unat a + unat b * unat c < 4294967296"
  shows "unat (a + b * c) = unat a + unat b * unat c"
  using assms by (simp add: unat_word_ariths)

lemma unat_range_stop:
  fixes a b c :: u32
  assumes "unat a + unat b * unat c < 4294967296" "0 < unat b * unat c"
  shows "unat (a + b * c - 1) = unat a + unat b * unat c - 1"
proof -
  have "a + b * c \<noteq> 0"
    using unat_add_mult [OF assms(1)] assms(2) by (metis add_is_0 less_numeral_extra(3) unat_0)
  then show ?thesis using unat_add_mult [OF assms(1)] by (simp add: unat_minus_one)
qed

text \<open>What the second loop leaves: the first \<open>n - used\<close> entries that want a range share the
  values from \<open>start\<close> on, each with at least \<open>chunk\<close> of them, and nothing else changes.\<close>

definition assigned :: "u32 \<Rightarrow> nat list \<Rightarrow> u32 \<Rightarrow> layout_entry list \<Rightarrow> layout_entry list \<Rightarrow> bool" where
  "assigned chunk ps start es es' \<longleftrightarrow> length es' = length es \<and>
     (\<forall>i \<in> set ps. unat (le_start (es' ! i)) + unat chunk \<le> unat (le_stop (es' ! i)) + 1) \<and>
     (\<forall>i. i \<notin> set ps \<longrightarrow> es' ! i = es ! i) \<and>
     (\<forall>i < length es. le_err (es' ! i) = le_err (es ! i) \<and> le_xlator (es' ! i) = le_xlator (es ! i)) \<and>
     (\<forall>h. if start \<le> h then \<exists>!i. i \<in> set ps \<and> in_range (es' ! i) h
          else \<forall>i \<in> set ps. \<not> in_range (es' ! i) h)"

lemma assigned_step:
  assumes "assigned chunk ps (start + w) (es[i := e]) es'" "i \<notin> set ps" "i < length es"
    and "e = (es ! i)\<lparr>le_start := start, le_stop := start + w - 1\<rparr>"
    and "unat start + unat w < 4294967296" "0 < unat w" "unat chunk \<le> unat w"
  shows "assigned chunk (i # ps) start es es'"
proof -
  have u: "unat (start + w) = unat start + unat w" "unat (start + w - 1) = unat start + unat w - 1"
    using unat_add_mult [of start w 1] unat_range_stop [of start w 1] assms(5,6) by simp_all
  have e: "es' ! i = e" using assms(1-3) by (simp add: assigned_def)
  have r: "in_range (es' ! i) h \<longleftrightarrow> start \<le> h \<and> \<not> start + w \<le> h" for h
    using assms(6) unfolding e assms(4) in_range_def by (auto simp: word_le_nat_alt u)
  have m: "start + w \<le> h \<Longrightarrow> start \<le> h" for h by (simp add: word_le_nat_alt u)
  have part: "if start \<le> h then \<exists>!k. k \<in> set (i # ps) \<and> in_range (es' ! k) h
      else \<forall>k \<in> set (i # ps). \<not> in_range (es' ! k) h" for h
  proof (cases "start + w \<le> h")
    case True
    then have "\<exists>!k. k \<in> set ps \<and> in_range (es' ! k) h" using assms(1) unfolding assigned_def by metis
    then show ?thesis using True r [of h] m [of h] by auto
  next
    case False
    then have "\<forall>k \<in> set ps. \<not> in_range (es' ! k) h" using assms(1) unfolding assigned_def by metis
    then show ?thesis using False r [of h] assms(2) by auto
  qed
  have "\<forall>k \<in> set (i # ps). unat (le_start (es' ! k)) + unat chunk \<le> unat (le_stop (es' ! k)) + 1"
    using assms(1,4,6,7) e by (auto simp: assigned_def u)
  moreover have "length es' = length es \<and> (\<forall>k. k \<notin> set (i # ps) \<longrightarrow> es' ! k = es ! k) \<and>
      (\<forall>k < length es. le_err (es' ! k) = le_err (es ! k) \<and> le_xlator (es' ! k) = le_xlator (es ! k))"
    using assms(1,3,4) unfolding assigned_def by (auto simp: nth_list_update)
  ultimately show ?thesis using part unfolding assigned_def by blast
qed

lemma assigned_last:
  assumes "i < length es" "e = (es ! i)\<lparr>le_start := start, le_stop := 0xffffffff\<rparr>"
    and "unat start + unat chunk < 4294967296"
  shows "assigned chunk [i] start es (es[i := e])"
proof -
  have "(0xffffffff :: u32) = -1" by simp
  then have "h \<le> (0xffffffff :: u32)" for h by (simp only: word_n1_ge)
  then show ?thesis using assms by (auto simp: assigned_def in_range_def nth_list_update)
qed

lemma assign_ranges_ok:
  assumes "distinct is" "\<forall>i \<in> set is. i < length es"
    and us: "us = filter (\<lambda>i. wants_range (es ! i)) is"
    and "\<forall>i \<in> set us. le_xlator (es ! i) \<noteq> None \<and> brick_size conf w (es ! i) \<noteq> 0"
    and "u < n" "n - u \<le> length us" "chunk \<noteq> 0"
    and "unat start + unat chunk * sum_list (map (\<lambda>i. unat (brick_size conf w (es ! i))) (take (n - u) us))
           < 4294967296"
  shows "\<exists>es'. assign_ranges conf w chunk n is (start, u) es = Some es' \<and>
    assigned chunk (take (n - u) us) start es es'"
  using assms
proof (induction "is" arbitrary: us start u es)
  case (Cons i "is")
  show ?case
  proof (cases "wants_range (es ! i)")
    case False
    then show ?thesis using Cons.IH [OF _ _ _ _ Cons.prems(5), of es us start] Cons.prems by auto
  next
    case True
    let ?b = "brick_size conf w (es ! i)"
    define us' where "us' = filter (\<lambda>i. wants_range (es ! i)) is"
    have us: "us = i # us'" using Cons.prems(3) True by (simp add: us'_def)
    have b: "le_xlator (es ! i) \<noteq> None" "?b \<noteq> 0" using Cons.prems(4) us by auto
    have i: "i < length es" "i \<notin> set is" using Cons.prems(1,2) by auto
    obtain k where k: "n - u = Suc k" using Cons.prems(5) by (metis diff_is_0_eq not_less old.nat.exhaust)
    show ?thesis
    proof (cases "k = 0")
      case True
      have "unat chunk \<le> unat chunk * unat ?b" using b(2) by (simp add: Suc_le_eq unat_gt_0)
      moreover have "unat start + unat chunk * unat ?b < 4294967296" using Cons.prems(8) us k True by simp
      ultimately have "unat start + unat chunk < 4294967296" by linarith
      then show ?thesis using True \<open>wants_range (es ! i)\<close> b k i us Cons.prems(5)
        by (auto simp: brick_size_def Let_def intro!: assigned_last split: if_splits)
    next
      case False
      let ?e = "(es ! i)\<lparr>le_start := start, le_stop := start + chunk * ?b - 1\<rparr>"
      let ?es = "es[i := ?e]"
      have nth: "?es ! j = es ! j" if "j \<in> set is" for j using that i by (auto simp: nth_list_update)
      have us'1: "us' = filter (\<lambda>i. wants_range (?es ! i)) is"
        unfolding us'_def by (rule filter_cong) (auto simp: nth)
      have sub: "set us' \<subseteq> set is" by (auto simp: us'_def)
      have sums: "map (\<lambda>j. unat (brick_size conf w (?es ! j))) (take k us') =
          map (\<lambda>j. unat (brick_size conf w (es ! j))) (take k us')"
        using sub by (auto simp: nth dest: in_set_takeD)
      have k': "n - Suc u = k" using k by simp
      have bound: "unat start + unat chunk * unat ?b +
          unat chunk * sum_list (map (\<lambda>j. unat (brick_size conf w (es ! j))) (take k us')) < 4294967296"
        using Cons.prems(8) us k by (simp add: algebra_simps)
      then have st: "unat (start + chunk * ?b) = unat start + unat chunk * unat ?b"
        by (intro unat_add_mult) simp
      have wd: "unat (chunk * ?b) = unat chunk * unat ?b"
        using bound unat_add_mult [of 0 chunk ?b] by simp
      have "\<exists>es'. assign_ranges conf w chunk n is (start + chunk * ?b, Suc u) ?es = Some es' \<and>
          assigned chunk (take (n - Suc u) us') (start + chunk * ?b) ?es es'"
      proof (rule Cons.IH [OF _ _ us'1])
        show "distinct is" "\<forall>j \<in> set is. j < length ?es" using Cons.prems(1,2) by auto
        show "\<forall>j \<in> set us'. le_xlator (?es ! j) \<noteq> None \<and> brick_size conf w (?es ! j) \<noteq> 0"
          using Cons.prems(4) us sub by (auto simp: nth)
        show "Suc u < n" "n - Suc u \<le> length us'" "chunk \<noteq> 0" using k False Cons.prems(6,7) us by auto
        show "unat (start + chunk * ?b) + unat chunk * sum_list (map (\<lambda>j. unat (brick_size conf w (?es ! j)))
            (take (n - Suc u) us')) < 4294967296"
          using bound unfolding k' sums st by simp
      qed
      then obtain es' where es': "assign_ranges conf w chunk n is (start + chunk * ?b, Suc u) ?es = Some es'"
        "assigned chunk (take k us') (start + chunk * ?b) ?es es'" unfolding k' by blast
      have "assigned chunk (i # take k us') start es es'"
      proof (rule assigned_step [OF es'(2)])
        show "i \<notin> set (take k us')" using i sub by (auto dest: in_set_takeD)
        show "unat start + unat (chunk * ?b) < 4294967296" "0 < unat (chunk * ?b)" "unat chunk \<le> unat (chunk * ?b)"
          using bound b(2) Cons.prems(7) by (simp_all add: wd unat_gt_0 Suc_le_eq)
      qed (use i in auto)
      then show ?thesis using es'(1) \<open>wants_range (es ! i)\<close> b k False us
        by (auto simp: brick_size_def Let_def split: if_splits)
    qed
  qed
qed auto

lemma rotation_rotate: "rotation cnt st = rotate st [0..<cnt]"
  unfolding rotation_def by (rule nth_equalityI) (auto simp: nth_rotate add.commute)

lemma rotation_props: "distinct (rotation cnt st)" "set (rotation cnt st) = {0..<cnt}"
  by (simp_all add: rotation_rotate)

lemma mset_rotation: "image_mset ((!) xs) (mset (rotation (length xs) st)) = mset xs"
proof -
  have "mset (rotate st zs) = mset zs" for zs :: "nat list"
    unfolding rotate_drop_take by (metis append_take_drop_id mset_append union_commute)
  then show ?thesis unfolding rotation_rotate by (metis map_nth mset_map)
qed

lemma rotation_filter:
  "mset (map ((!) xs) (filter (P \<circ> (!) xs) (rotation (length xs) st))) = mset (filter P xs)"
  using filter_mset_image_mset [of P "(!) xs" "mset (rotation (length xs) st)"]
  by (simp add: mset_rotation comp_def)

lemma sum_list_mset_cong:
  fixes f :: "'a \<Rightarrow> nat"
  shows "mset xs = mset ys \<Longrightarrow> sum_list (map f xs) = sum_list (map f ys)"
  by (metis mset_map sum_mset_sum_list)

lemma unat_sum_list:
  fixes ws :: "u32 list"
  assumes "sum_list (map unat ws) < 4294967296"
  shows "unat (sum_list ws) = sum_list (map unat ws)"
  using assms by (induction ws) (auto simp: unat_word_ariths)

lemma unat_div_mult_le:
  fixes d :: u32
  assumes "d \<noteq> 0"
  shows "0xffffffff div d \<noteq> 0" "unat (0xffffffff div d) * unat d < 4294967296"
proof -
  have u: "unat (0xffffffff div d) = 4294967295 div unat d" by (simp add: unat_div)
  have "unat d < 2 ^ 32" using unsigned_less [of d, where ?'a = nat] by simp
  then have "unat d \<le> 4294967295" by simp
  moreover have "0 < unat d" using assms by (simp add: unat_gt_0)
  ultimately have "0 < 4294967295 div unat d" by (simp add: div_greater_zero_iff)
  then show "0xffffffff div d \<noteq> 0" using u by (metis less_numeral_extra(3) unat_0)
  have "4294967295 div unat d * unat d \<le> 4294967295" by simp
  then show "unat (0xffffffff div d) * unat d < 4294967296" unfolding u by linarith
qed

text \<open>The divisor of the hash space is the total weight of the entries that get a range.\<close>

lemma new_directory_divisor:
  assumes cnt: "dht_get_layout_count conf layout True = (n, l)"
    and W: "W = filter wants_range (lay_list l)" "W \<noteq> []" "length (lay_list layout) < 2147483648"
    and known: "\<forall>e \<in> set W. dht_get_chunks_from_xl conf (le_xlator e) \<noteq> 0"
    and wt: "do_weighting conf \<longrightarrow> n = length W \<and>
      sum_list (map (\<lambda>e. unat (dht_get_chunks_from_xl conf (le_xlator e))) W) < 4294967296"
  shows "\<exists>t d. sum_chunks conf n (lay_list l) (0, 0) = (t, n, False) \<and>
    d = (if do_weighting conf then t else word_of_nat n) \<and> d \<noteq> 0 \<and>
    (if do_weighting conf then unat d = sum_list (map (\<lambda>e. unat (brick_size conf True e)) W) else unat d = n)"
proof -
  have n: "1 \<le> n" "n \<le> length W" using layout_count_wanted(3) [OF cnt] W by auto
  let ?c = "\<lambda>e. dht_get_chunks_from_xl conf (le_xlator e)"
  have s: "sum_chunks conf n (lay_list l) (0, 0) = (sum_list (map ?c (take n W)), n, False)"
    using sum_chunks_wanted [of "lay_list l" conf 0 n 0] known n W(1) by auto
  have "length W \<le> length (lay_list l)" by (simp add: W(1))
  then have n32: "unat (word_of_nat n :: u32) = n"
    using n W(3) layout_count_wanted(1) [OF cnt] by (simp add: unat_of_nat)
  show ?thesis
  proof (cases "do_weighting conf")
    case True
    then have tk: "take n W = W" using wt by simp
    have u: "unat (sum_list (map ?c W)) = sum_list (map (\<lambda>e. unat (?c e)) W)"
      using wt True unat_sum_list [of "map ?c W"] by (simp add: comp_def)
    have "hd W \<in> set W" using W(2) by simp
    then have "unat (?c (hd W)) \<le> sum_list (map (\<lambda>e. unat (?c e)) W)" "0 < unat (?c (hd W))"
      using known by (auto simp: unat_gt_0 intro!: member_le_sum_list)
    then have "sum_list (map ?c W) \<noteq> 0" using u by (metis less_numeral_extra(3) le_zero_eq unat_0)
    then show ?thesis using True s tk u by (auto simp: brick_size_def)
  next
    case False
    have "(word_of_nat n :: u32) \<noteq> 0" using n32 n(1) by (metis not_one_le_zero unat_0)
    then show ?thesis using False s n32 by auto
  qed
qed

lemma reset_range_simps [simp]:
  "wants_range (reset_range e) = wants_range e" "le_xlator (reset_range e) = le_xlator e"
  "le_err (reset_range e) = le_err e" "brick_size conf w (reset_range e) = brick_size conf w e"
  by (simp_all add: wants_range_def reset_range_def brick_size_def)

text \<open>The positions the second loop visits that want a range, in rotated order.\<close>

definition wanted_positions :: "dht_layout \<Rightarrow> nat \<Rightarrow> nat list" where
  "wanted_positions l st =
     filter (\<lambda>i. wants_range (map reset_range (lay_list l) ! i)) (rotation (length (lay_list l)) st)"

lemma wanted_positions_props:
  fixes l st
  defines "us \<equiv> wanted_positions l st" and "W \<equiv> filter wants_range (lay_list l)"
  shows "distinct us" "length us = length W"
    "\<forall>i \<in> set us. i < length (lay_list l) \<and> wants_range (lay_list l ! i) \<and> lay_list l ! i \<in> set W"
    "sum_list (map (\<lambda>i. unat (brick_size conf w (map reset_range (lay_list l) ! i))) us) =
     sum_list (map (\<lambda>e. unat (brick_size conf w e)) W)"
proof -
  let ?es0 = "map reset_range (lay_list l)"
  show "distinct us" by (simp add: us_def wanted_positions_def rotation_props)
  have "filter wants_range ?es0 = map reset_range W"
    by (simp add: W_def filter_map comp_def)
  then have m: "mset (map (\<lambda>i. ?es0 ! i) us) = mset (map reset_range W)"
    using rotation_filter [of ?es0 wants_range st, unfolded comp_def] unfolding us_def wanted_positions_def
    by (simp only: length_map)
  show "length us = length W" using mset_eq_length [OF m] by simp
  show "\<forall>i \<in> set us. i < length (lay_list l) \<and> wants_range (lay_list l ! i) \<and> lay_list l ! i \<in> set W"
    unfolding us_def W_def wanted_positions_def
    by (auto simp: rotation_props wants_range_def reset_range_def)
  have "sum_list (map (\<lambda>e. unat (brick_size conf w e)) (map (\<lambda>i. ?es0 ! i) us)) =
      sum_list (map (\<lambda>e. unat (brick_size conf w e)) (map reset_range W))"
    using m by (rule sum_list_mset_cong)
  then show "sum_list (map (\<lambda>i. unat (brick_size conf w (?es0 ! i))) us) =
      sum_list (map (\<lambda>e. unat (brick_size conf w e)) W)"
    by (simp add: comp_def)
qed

lemma alloc_start_Some: "lay_list l \<noteq> [] \<Longrightarrow> \<exists>st. dht_selfheal_layout_alloc_start conf loc l = Some st"
  by (auto simp: dht_selfheal_layout_alloc_start_def Let_def split: option.splits)

lemma new_directory_ok:
  assumes "dht_get_layout_count conf layout True = (n, l)"
    and "filter wants_range (lay_list l) \<noteq> []" "length (lay_list layout) < 2147483648"
    and "\<forall>e \<in> set (filter wants_range (lay_list l)).
      le_xlator e \<noteq> None \<and> dht_get_chunks_from_xl conf (le_xlator e) \<noteq> 0"
    and "do_weighting conf \<longrightarrow> n = length (filter wants_range (lay_list l)) \<and>
      sum_list (map (\<lambda>e. unat (dht_get_chunks_from_xl conf (le_xlator e)))
        (filter wants_range (lay_list l))) < 4294967296"
  shows "\<exists>es ps. dht_selfheal_layout_new_directory conf loc layout = Some (l\<lparr>lay_list := es\<rparr>) \<and>
    length es = length (lay_list layout) \<and> distinct ps \<and> length ps = n \<and>
    (\<forall>i \<in> set ps. i < length es \<and> wants_range (lay_list l ! i)) \<and>
    (\<forall>h. \<exists>!i. i \<in> set ps \<and> in_range (es ! i) h) \<and>
    (\<forall>i \<in> set ps. unat (le_start (es ! i)) + (if do_weighting conf then
       4294967295 div sum_list (map (\<lambda>e. unat (dht_get_chunks_from_xl conf (le_xlator e)))
         (filter wants_range (lay_list l))) else 4294967295 div n) \<le> unat (le_stop (es ! i)) + 1) \<and>
    (\<forall>i < length es. le_err (es ! i) = le_err (lay_list l ! i) \<and> le_xlator (es ! i) = le_xlator (lay_list l ! i) \<and>
       (i \<notin> set ps \<longrightarrow> le_start (es ! i) = 0 \<and> le_stop (es ! i) = 0))"
proof -
  let ?W = "filter wants_range (lay_list l)" and ?w = "do_weighting conf"
  let ?es0 = "map reset_range (lay_list l)"
  obtain t d where s: "sum_chunks conf n (lay_list l) (0, 0) = (t, n, False)"
    and d: "d = (if ?w then t else word_of_nat n)" "d \<noteq> 0"
      "if ?w then unat d = sum_list (map (\<lambda>e. unat (brick_size conf True e)) ?W) else unat d = n"
    using new_directory_divisor [OF assms(1) refl assms(2,3) _ assms(5)] assms(4) by blast
  note n = layout_count_wanted [OF assms(1)]
  have "lay_list l \<noteq> []" using assms(2) by auto
  then obtain st where st: "dht_selfheal_layout_alloc_start conf loc l = Some st"
    using alloc_start_Some by blast
  let ?us = "wanted_positions l st"
  note us = wanted_positions_props [where l = l and st = st]
  have sum: "sum_list (map (\<lambda>i. unat (brick_size conf ?w (?es0 ! i))) (take n ?us)) = unat d"
  proof (cases ?w)
    case True
    then show ?thesis using d(3) assms(5) us(2,4) by simp
  next
    case False
    then show ?thesis using d(3) n(3) assms(2) us(2) by (simp add: brick_size_def sum_list_triv)
  qed
  have "\<exists>es. assign_ranges conf ?w (0xffffffff div d) n (rotation (length (lay_list l)) st) (0, 0) ?es0 = Some es \<and>
      assigned (0xffffffff div d) (take (n - 0) ?us) 0 ?es0 es"
  proof (rule assign_ranges_ok [OF _ _ wanted_positions_def])
    show "\<forall>i \<in> set ?us. le_xlator (?es0 ! i) \<noteq> None \<and> brick_size conf ?w (?es0 ! i) \<noteq> 0"
      using us(3) assms(4) by (auto simp: brick_size_def reset_range_def)
  qed (use rotation_props n(3) assms(2) us(2) unat_div_mult_le [OF d(2)] sum in auto)
  then obtain es where es: "assigned (0xffffffff div d) (take n ?us) 0 ?es0 es"
    "assign_ranges conf ?w (0xffffffff div d) n (rotation (length (lay_list l)) st) (0, 0) ?es0 = Some es" by auto
  have "dht_selfheal_layout_new_directory conf loc layout = Some (l\<lparr>lay_list := es\<rparr>)"
    using assms(1) s d es(2) st by (simp add: dht_selfheal_layout_new_directory_def)
  moreover have "distinct (take n ?us)" "length (take n ?us) = n"
    using n(3) assms(2) us(1,2) by auto
  moreover have "\<forall>i \<in> set (take n ?us). i < length es \<and> wants_range (lay_list l ! i)"
    using us(3) es(1) by (auto simp: assigned_def dest: in_set_takeD)
  moreover have "unat (0xffffffff div d) = (if ?w then
       4294967295 div sum_list (map (\<lambda>e. unat (dht_get_chunks_from_xl conf (le_xlator e))) ?W) else 4294967295 div n)"
    using d(3) by (simp add: unat_div brick_size_def split: if_splits)
  ultimately show ?thesis using es(1) n(1) unfolding assigned_def
    by (intro exI [of _ es] exI [of _ "take n ?us"]) (auto simp: reset_range_def)
qed

section \<open>Properties\<close>


text \<open>Two subvolumes of 10 and 20 chunks, and a new directory on them.\<close>

definition sized_conf :: dht_conf where
  "sized_conf = example_conf\<lparr>do_weighting := True, subvol_chunks := Some [10, 20]\<rparr>"

definition fresh_layout :: dht_layout where
  "fresh_layout = (dht_layout_new None 2)\<lparr>lay_list :=
     [zero_entry\<lparr>le_err := -1, le_xlator := Some brick_a\<rparr>, zero_entry\<lparr>le_err := -1, le_xlator := Some brick_b\<rparr>]\<rparr>"

definition example_loc :: dht_loc where
  "example_loc = \<lparr>loc_path = [47, 100], loc_gfid_str = [], loc_inode = 1\<rparr>"

lemma fresh_layout_facts:
  "dht_get_layout_count sized_conf fresh_layout True = (2, fresh_layout)"
  "filter wants_range (lay_list fresh_layout) \<noteq> []" "length (lay_list fresh_layout) < 2147483648"
  "\<forall>e \<in> set (filter wants_range (lay_list fresh_layout)).
     le_xlator e \<noteq> None \<and> dht_get_chunks_from_xl sized_conf (le_xlator e) \<noteq> 0"
  "2 = length (filter wants_range (lay_list fresh_layout)) \<and>
   sum_list (map (\<lambda>e. unat (dht_get_chunks_from_xl sized_conf (le_xlator e)))
     (filter wants_range (lay_list fresh_layout))) = 30"
proof -
  show "length (lay_list fresh_layout) < 2147483648" by (simp add: fresh_layout_def)
qed code_simp+


text \<open>When the size of the first subvolume that could take a range is not known, because
  its chunk count is still 0 or there are no statistics, or when no subvolume can take a range,
  dht_selfheal_layout_new_directory divides by zero, whether ranges are weighted or not.\<close>

theorem new_directory_division_by_zero:
  assumes "dht_get_layout_count conf layout True = (n, l)"
    and "case filter wants_range (lay_list l) of [] \<Rightarrow> True
         | e # _ \<Rightarrow> dht_get_chunks_from_xl conf (le_xlator e) = 0"
  shows "dht_selfheal_layout_new_directory conf loc layout = None"
proof -
  obtain b where "sum_chunks conf n (lay_list l) (0, 0) = (0, 0, b)"
    using sum_chunks_unknown [OF assms(2)] by blast
  then show ?thesis using assms(1) by (simp add: dht_selfheal_layout_new_directory_def Let_def)
qed

theorem new_directory_division_by_zero_witness:
  "dht_selfheal_layout_new_directory example_conf example_loc fresh_layout = None"
proof -
  have c: "dht_get_layout_count example_conf fresh_layout True = (2, fresh_layout)" by code_simp
  have u: "case filter wants_range (lay_list fresh_layout) of [] \<Rightarrow> True
         | e # _ \<Rightarrow> dht_get_chunks_from_xl example_conf (le_xlator e) = 0" by code_simp
  show ?thesis by (rule new_directory_division_by_zero [OF c u])
qed

lemma case_option_Some: "(case x of None \<Rightarrow> False | Some y \<Rightarrow> P y) \<Longrightarrow> \<exists>y. x = Some y \<and> P y"
  by (cases x) auto

text \<open>Four subvolumes of 1, 1, 1 and 3 chunks, a directory spread over three of them.\<close>

definition spread_conf :: dht_conf where
  "spread_conf = example_conf\<lparr>do_weighting := True, subvol_chunks := Some [1, 1, 1, 3],
     subvolumes := map (\<lambda>i. \<lparr>xl_addr = i, xl_name = ''brick''\<rparr>) [1, 2, 3, 4]\<rparr>"

definition spread_layout :: dht_layout where
  "spread_layout = (dht_layout_new None 4)\<lparr>spread_cnt := 3, lay_list :=
     map (\<lambda>x. zero_entry\<lparr>le_err := -1, le_xlator := Some x\<rparr>) (subvolumes spread_conf)\<rparr>"

text \<open>With weighting and a spread count, the sizes are added up over the first subvolumes of
  the list but ranges are given from the rotated start on: the ranges can wrap around, and then
  one subvolume gets an empty range and others share hash values.\<close>

theorem weighted_spread_overlap:
  "\<exists>l. dht_selfheal_layout_new_directory spread_conf (example_loc\<lparr>loc_path := [47, 98]\<rparr>) spread_layout = Some l \<and>
     in_range (lay_list l ! 3) 0x60000000 \<and> in_range (lay_list l ! 1) 0x60000000 \<and>
     le_start (lay_list l ! 0) > le_stop (lay_list l ! 0)"
proof -
  let ?loc = "example_loc\<lparr>loc_path := [47, 98]\<rparr>"
  have c: "dht_get_layout_count spread_conf spread_layout True = (3, spread_layout)" by code_simp
  have s: "sum_chunks spread_conf 3 (lay_list spread_layout) (0, 0) = (3, 3, False)" by code_simp
  have a: "dht_selfheal_layout_alloc_start spread_conf ?loc spread_layout = Some 3"
    by (simp add: dht_selfheal_layout_alloc_start_def spread_conf_def spread_layout_def example_conf_def
        dht_hash_compute_def dht_hash_compute_internal_def dht_layout_new_def hash_of_b Let_def)
  have "case assign_ranges spread_conf True 0x55555555 3 (rotation 4 3) (0, 0)
        (map reset_range (lay_list spread_layout)) of
      None \<Rightarrow> False
    | Some es \<Rightarrow> in_range (es ! 3) 0x60000000 \<and> in_range (es ! 1) 0x60000000 \<and> le_start (es ! 0) > le_stop (es ! 0)"
    by code_simp
  then obtain es where r: "assign_ranges spread_conf True 0x55555555 3 (rotation 4 3) (0, 0)
        (map reset_range (lay_list spread_layout)) = Some es"
    "in_range (es ! 3) 0x60000000" "in_range (es ! 1) 0x60000000" "le_start (es ! 0) > le_stop (es ! 0)"
    by (blast dest: case_option_Some)
  have w: "do_weighting spread_conf" "length (lay_list spread_layout) = 4" by code_simp+
  have d: "(0xffffffff :: u32) div 3 = 0x55555555" "(3 :: u32) \<noteq> 0" by simp_all
  have "dht_selfheal_layout_new_directory spread_conf ?loc spread_layout = Some (spread_layout\<lparr>lay_list := es\<rparr>)"
    unfolding dht_selfheal_layout_new_directory_def c prod.case s
    by (simp only: Let_def w a r(1) d simp_thms if_True if_False Option.bind.simps)
  then show ?thesis using r(2-4) by (intro exI [of _ "spread_layout\<lparr>lay_list := es\<rparr>"]) simp
qed

section \<open>The new layout is accepted\<close>

lemma ex1_index_iff: "(\<exists>!i. i < length xs \<and> P (xs ! i)) \<longleftrightarrow> length (filter P xs) = 1"
proof -
  have "length (filter P xs) = card {i. i < length xs \<and> P (xs ! i)}" by (rule length_filter_conv_card)
  also have "\<dots> = 1 \<longleftrightarrow> (\<exists>x. \<forall>i. i < length xs \<and> P (xs ! i) \<longleftrightarrow> i = x)"
    unfolding One_nat_def card_1_singleton_iff by (simp add: set_eq_iff)
  finally show ?thesis by (auto simp: Ex1_def)
qed

lemma ex1_index_subset:
  assumes "\<exists>!i. i \<in> set ps \<and> P (xs ! i)" "\<forall>i \<in> set ps. i < length xs \<and> Q (xs ! i)"
    and "\<forall>i < length xs. i \<notin> set ps \<longrightarrow> \<not> Q (xs ! i)"
  shows "length (filter P (filter Q xs)) = 1"
proof -
  have "\<exists>!i. i < length xs \<and> (Q (xs ! i) \<and> P (xs ! i))" using assms by blast
  then show ?thesis using ex1_index_iff [of xs "\<lambda>x. Q x \<and> P x"] by (simp add: filter_filter)
qed

definition with_errs_cleared :: "dht_layout \<Rightarrow> dht_layout" where
  "with_errs_cleared l = l\<lparr>lay_list := map (\<lambda>e. e\<lparr>le_err := 0\<rparr>) (lay_list l)\<rparr>"

lemma exact_cover_accepted:
  assumes "lay_list l \<noteq> []" "length (lay_list l) < 4294967295" "\<forall>e \<in> set (lay_list l). range_ok e"
    and "\<forall>h. length (filter (\<lambda>e. in_range e h) (filter participates (lay_list l))) = 1"
  shows "0 \<le> fst (dht_layout_normalize l)"
proof -
  obtain ret l' where n: "dht_layout_normalize l = (ret, l')" by (rule prod.exhaust)
  have "mset (lay_list l') = mset (lay_list l)"
    using sorted_participants(1) [OF assms(3,1)] n by (simp add: dht_layout_normalize_eq Let_def)
  then have c: "length (filter (\<lambda>e. in_range e h) (filter participates (lay_list l'))) = 1" for h
    using assms(4) by (metis mset_filter size_mset)
  have "\<forall>h. \<exists>!i. i < length (filter participates (lay_list l')) \<and> in_range (filter participates (lay_list l') ! i) h"
    by (rule allI, rule iffD2 [OF ex1_index_iff [where P = "\<lambda>e. in_range e h" for h] c])
  then show ?thesis using normalize_exact [OF assms(1-3) n] n by simp
qed



end
