(* ===== verification/DHT_Overlap_Props.thy ===== *)
theory DHT_Overlap_Props
  imports DHT_Selfheal DHT_Layout_Props
begin

text \<open>
  Fixing the layout of an existing directory: the table of overlaps, what
  dht_selfheal_layout_maximize_overlap does to the ranges, and that a heal that stores the ranges
  ends exactly once.
\<close>

section \<open>Overlap of two entries\<close>

definition entry_overlap :: "layout_entry \<Rightarrow> layout_entry \<Rightarrow> u32" where
  "entry_overlap eo en =
     (if le_err eo > 0 \<or> le_err en > 0 \<or> le_start eo = le_stop eo \<or> le_start en = le_stop en \<or>
         le_start eo > le_stop en \<or> le_stop eo < le_start en then 0
      else min (le_stop eo) (le_stop en) - max (le_start eo) (le_start en) + 1)"

lemma overlap_calc_entry:
  "x < length (lay_list new) \<Longrightarrow> y < length (lay_list old) \<Longrightarrow>
     dht_overlap_calc old y new x = entry_overlap (lay_list old ! y) (lay_list new ! x)"
  by (auto simp: dht_overlap_calc_def entry_overlap_def Let_def)

text \<open>A range that holds less than half of the hash values.\<close>

definition small_range :: "layout_entry \<Rightarrow> bool" where
  "small_range e \<longleftrightarrow> range_ok e \<and> unat (le_stop e) - unat (le_start e) + 1 < 2147483648"

lemma entry_overlap_small:
  assumes "small_range en" "range_ok eo"
  shows "unat (entry_overlap eo en) < 2147483648"
proof (cases "entry_overlap eo en = 0")
  case False
  let ?a = "max (le_start eo) (le_start en)" and ?b = "min (le_stop eo) (le_stop en)"
  have e: "entry_overlap eo en = ?b - ?a + 1" "?a \<le> ?b"
    using False assms by (auto simp: entry_overlap_def small_range_def range_ok_def split: if_splits)
  then have "unat (?b - ?a) = unat ?b - unat ?a" by (simp add: unat_sub)
  moreover have "unat ?b \<le> unat (le_stop en)" "unat (le_start en) \<le> unat ?a"
    by (simp_all flip: word_le_nat_alt)
  ultimately have "unat (?b - ?a) + 1 < 2147483648" using assms(1) unfolding small_range_def by linarith
  then show ?thesis unfolding e(1) by (simp add: unat_word_ariths)
qed simp

section \<open>The table\<close>

lemma idx_lt: "x < n \<Longrightarrow> y < n \<Longrightarrow> x * n + y < n * (n :: nat)"
proof -
  assume "x < n" "y < n"
  then have "x * n + y < (x + 1) * n" by simp
  also have "\<dots> \<le> n * n" using \<open>x < n\<close> by (intro mult_right_mono) auto
  finally show ?thesis .
qed

lemma idx_eq: "y < n \<Longrightarrow> y' < n \<Longrightarrow> x * n + y = x' * n + y' \<longleftrightarrow> x = x' \<and> y = (y' :: nat)"
proof -
  assume y: "y < n" "y' < n"
  then have "(x * n + y) div n = x" "(x' * n + y') div n = x'" by simp_all
  then show ?thesis by (metis add_left_cancel)
qed

definition ov_table :: "nat \<Rightarrow> (nat \<Rightarrow> nat \<Rightarrow> u32) \<Rightarrow> u32 list \<Rightarrow> bool" where
  "ov_table n f table \<longleftrightarrow> length table = n * n \<and> (\<forall>x < n. \<forall>y < n. table ! (x * n + y) = f x y)"

lemma ov_get_table: "ov_table n f table \<Longrightarrow> x < n \<Longrightarrow> y < n \<Longrightarrow> ov_get table (x * n + y) = Some (f x y)"
  by (simp add: ov_table_def ov_get_def idx_lt)

lemma ov_set_table:
  "ov_table n f table \<Longrightarrow> x < n \<Longrightarrow> y < n \<Longrightarrow>
     \<exists>t. ov_set table (x * n + y) v = Some t \<and> ov_table n (f(x := (f x)(y := v))) t"
  by (auto simp: ov_table_def ov_set_def idx_lt nth_list_update idx_eq)

lemma ov_fill_table:
  assumes "length (lay_list new) = n" "\<forall>(x, y) \<in> set ijs. x < n \<and> y < n" "ov_table n f table"
  shows "\<exists>t. ov_fill old new ijs table = Some t \<and>
    ov_table n (\<lambda>x y. if (x, y) \<in> set ijs then dht_overlap_calc old y new x else f x y) t"
  using assms(2,3)
proof (induction ijs arbitrary: f table)
  case (Cons ij ijs)
  obtain i j where ij: "ij = (i, j)" "i < n" "j < n" using Cons.prems(1) by (cases ij) auto
  obtain t where t: "ov_set table (i * n + j) (dht_overlap_calc old j new i) = Some t"
    "ov_table n (f(i := (f i)(j := dht_overlap_calc old j new i))) t"
    using ov_set_table [OF Cons.prems(2) ij(2,3)] by blast
  from Cons.IH [OF _ t(2)] Cons.prems(1) obtain t' where t': "ov_fill old new ijs t = Some t'"
    "ov_table n (\<lambda>x y. if (x, y) \<in> set ijs then dht_overlap_calc old y new x
       else (f(i := (f i)(j := dht_overlap_calc old j new i))) x y) t'" by auto
  then show ?case using ij(1) t(1) assms(1) by (auto simp: ov_table_def)
qed simp

text \<open>The partner the search returns is better than the status quo, in the arithmetic of the
  code.\<close>

definition gains :: "(nat \<Rightarrow> nat \<Rightarrow> u32) \<Rightarrow> nat \<Rightarrow> nat \<Rightarrow> bool" where
  "gains f i j \<longleftrightarrow> f i i + f j j < f i j + f j i"

lemma ov_best_ok:
  assumes "ov_table n f table" "length es = n" "i < n" "\<forall>j \<in> set js. j < n"
    and "idx = i \<or> idx < n \<and> le_err (es ! idx) \<le> 0 \<and> gains f i idx"
  shows "\<exists>mx idx'. ov_best es table i js (mx0, idx) = Some (mx, idx') \<and>
    (idx' = i \<or> idx' < n \<and> le_err (es ! idx') \<le> 0 \<and> gains f i idx')"
  using assms(4,5)
proof (induction js arbitrary: mx0 idx)
  case (Cons j js)
  have "ov_get table (i * length es + i) = Some (f i i)" "ov_get table (j * length es + j) = Some (f j j)"
    "ov_get table (i * length es + j) = Some (f i j)" "ov_get table (j * length es + i) = Some (f j i)"
    using ov_get_table [OF assms(1)] assms(2,3) Cons.prems(1) by auto
  then show ?case using Cons.IH [of idx mx0] Cons.IH [of j] Cons.prems
    by (auto simp: gains_def Let_def not_less)
qed simp

definition swapped :: "nat \<Rightarrow> nat \<Rightarrow> nat \<Rightarrow> nat" where
  "swapped i m x = (if x = i then m else if x = m then i else x)"

lemma ov_swap_rows_ok:
  assumes "i < n" "m < n" "i \<noteq> m" "distinct js" "\<forall>j \<in> set js. j < n" "ov_table n f table"
  shows "\<exists>t. ov_swap_rows n i m js table = Some t \<and>
    ov_table n (\<lambda>x y. if y \<in> set js then f (swapped i m x) y else f x y) t"
  using assms(4,5,6)
proof (induction js arbitrary: f table)
  case (Cons j js)
  have j: "j < n" using Cons.prems by simp
  let ?f1 = "f(i := (f i)(j := f m j))"
  let ?f2 = "?f1(m := (?f1 m)(j := f i j))"
  obtain t1 where t1: "ov_set table (i * n + j) (f m j) = Some t1" "ov_table n ?f1 t1"
    using ov_set_table [OF Cons.prems(3) assms(1) j] by blast
  obtain t2 where t2: "ov_set t1 (m * n + j) (f i j) = Some t2" "ov_table n ?f2 t2"
    using ov_set_table [OF t1(2) assms(2) j] by blast
  obtain t where t: "ov_swap_rows n i m js t2 = Some t"
    "ov_table n (\<lambda>x y. if y \<in> set js then ?f2 (swapped i m x) y else ?f2 x y) t"
    using Cons.IH [OF _ _ t2(2)] Cons.prems by auto
  have "ov_table n (\<lambda>x y. if y \<in> set (j # js) then f (swapped i m x) y else f x y) t"
    using t(2) Cons.prems(1) assms(3) unfolding ov_table_def
    by (auto simp: swapped_def)
  then show ?case using t(1) t1(1) t2(1) ov_get_table [OF Cons.prems(3) _ j] assms(1,2) by auto
qed simp

section \<open>The loop\<close>

lemma range_swap_nth:
  "i < length es \<Longrightarrow> m < length es \<Longrightarrow> i \<noteq> m \<Longrightarrow> x < length es \<Longrightarrow>
   dht_layout_range_swap es i m ! x = (es ! x)\<lparr>le_start := le_start (es ! swapped i m x),
     le_stop := le_stop (es ! swapped i m x)\<rparr>"
  by (auto simp: dht_layout_range_swap_def nth_list_update swapped_def)

lemma length_range_swap [simp]: "length (dht_layout_range_swap es i m) = length es"
  by (simp add: dht_layout_range_swap_def)

lemma ranges_range_swap:
  assumes "i < length es" "m < length es" "i \<noteq> m"
  shows "mset (map (\<lambda>e. (le_start e, le_stop e)) (dht_layout_range_swap es i m)) =
    mset (map (\<lambda>e. (le_start e, le_stop e)) es)"
proof -
  let ?r = "map (\<lambda>e. (le_start e, le_stop e)) es"
  have "map (\<lambda>e. (le_start e, le_stop e)) (dht_layout_range_swap es i m) = ?r[i := ?r ! m, m := ?r ! i]"
    using assms by (simp add: dht_layout_range_swap_def map_update)
  then show ?thesis using assms by (simp only: mset_swap length_map)
qed

text \<open>What the loop may change: the ranges move between entries without a serious error, and
  nothing else.\<close>

definition ranges_moved :: "layout_entry list \<Rightarrow> layout_entry list \<Rightarrow> bool" where
  "ranges_moved es es' \<longleftrightarrow> length es' = length es \<and>
     mset (map (\<lambda>e. (le_start e, le_stop e)) es') = mset (map (\<lambda>e. (le_start e, le_stop e)) es) \<and>
     (\<forall>i < length es. le_err (es' ! i) = le_err (es ! i) \<and> le_xlator (es' ! i) = le_xlator (es ! i) \<and>
        (le_err (es ! i) > 0 \<longrightarrow> es' ! i = es ! i))"

definition total_overlap :: "layout_entry list \<Rightarrow> layout_entry list \<Rightarrow> nat" where
  "total_overlap os es = (\<Sum>i < length es. unat (entry_overlap (os ! i) (es ! i)))"

lemma ranges_moved_refl: "ranges_moved es es"
  by (simp add: ranges_moved_def)

lemma ranges_moved_trans: "ranges_moved es es' \<Longrightarrow> ranges_moved es' es'' \<Longrightarrow> ranges_moved es es''"
  unfolding ranges_moved_def by force

lemma small_ranges_moved:
  assumes "ranges_moved es es'" "\<forall>e \<in> set es. small_range e"
  shows "\<forall>e \<in> set es'. small_range e"
proof -
  have "(\<lambda>e. (le_start e, le_stop e)) ` set es' = (\<lambda>e. (le_start e, le_stop e)) ` set es"
    using assms(1) mset_eq_setD [of "map (\<lambda>e. (le_start e, le_stop e)) es'" "map (\<lambda>e. (le_start e, le_stop e)) es"]
    unfolding ranges_moved_def by (simp only: list.set_map)
  moreover have "\<forall>(a, b) \<in> (\<lambda>e. (le_start e, le_stop e)) ` set es. a \<le> b \<and> unat b - unat a + 1 < 2147483648"
    using assms(2) by (auto simp: small_range_def range_ok_def)
  ultimately have "\<forall>(a, b) \<in> (\<lambda>e. (le_start e, le_stop e)) ` set es'. a \<le> b \<and> unat b - unat a + 1 < 2147483648"
    by simp
  then show ?thesis by (auto simp: small_range_def range_ok_def)
qed

lemma range_swap_moved:
  assumes "i < length es" "m < length es" "i \<noteq> m" "le_err (es ! i) \<le> 0" "le_err (es ! m) \<le> 0"
  shows "ranges_moved es (dht_layout_range_swap es i m)"
    "x < length es \<Longrightarrow> entry_overlap eo (dht_layout_range_swap es i m ! x) = entry_overlap eo (es ! swapped i m x)"
proof -
  show "ranges_moved es (dht_layout_range_swap es i m)"
    using assms ranges_range_swap [OF assms(1-3)]
    by (auto simp: ranges_moved_def range_swap_nth swapped_def)
  show "x < length es \<Longrightarrow> entry_overlap eo (dht_layout_range_swap es i m ! x) = entry_overlap eo (es ! swapped i m x)"
    using assms by (auto simp: range_swap_nth entry_overlap_def swapped_def)
qed

lemma range_swap_total:
  assumes "i < length es" "m < length es" "i \<noteq> m" "le_err (es ! i) \<le> 0" "le_err (es ! m) \<le> 0"
    and small: "\<forall>e \<in> set es. small_range e" and ok: "\<forall>e \<in> set os. range_ok e" "length os = length es"
    and g: "gains (\<lambda>x y. entry_overlap (os ! y) (es ! x)) i m"
  shows "total_overlap os es < total_overlap os (dht_layout_range_swap es i m)"
proof -
  let ?f = "\<lambda>x y. entry_overlap (os ! y) (es ! x)" and ?es = "dht_layout_range_swap es i m"
  have s: "unat (?f x y) < 2147483648" if "x < length es" "y < length es" for x y
    using that small ok by (intro entry_overlap_small) auto
  have "unat (?f i i + ?f m m) < unat (?f i m + ?f m i)" using g by (simp add: gains_def word_less_nat_alt)
  then have lt: "unat (?f i i) + unat (?f m m) < unat (?f i m) + unat (?f m i)"
    using s [of i i] s [of m m] s [of i m] s [of m i] assms(1,2) by (simp add: unat_word_ariths)
  have split: "(\<Sum>x < length es. h x) = h i + h m + (\<Sum>x \<in> {..<length es} - {i, m}. h x)" for h :: "nat \<Rightarrow> nat"
    using assms(1-3) sum.subset_diff [of "{i, m}" "{..<length es}" h] by auto
  have o: "entry_overlap (os ! x) (?es ! x) = ?f (swapped i m x) x" if "x < length es" for x
    using range_swap_moved(2) [OF assms(1-5) that] .
  have "(\<Sum>x \<in> {..<length es} - {i, m}. unat (entry_overlap (os ! x) (?es ! x))) =
      (\<Sum>x \<in> {..<length es} - {i, m}. unat (?f x x))"
    by (rule sum.cong) (auto simp: o swapped_def)
  then show ?thesis using lt o [OF assms(1)] o [OF assms(2)] assms(3)
    by (simp add: total_overlap_def split swapped_def)
qed

lemma maximize_loop_ok:
  assumes "\<forall>i \<in> set is. i < n" "length es = n" "length os = n" "\<forall>e \<in> set os. range_ok e"
    and "\<forall>e \<in> set es. small_range e" "ov_table n (\<lambda>x y. entry_overlap (os ! y) (es ! x)) table"
  shows "\<exists>es' t. maximize_loop n is (es, table) = Some (es', t) \<and> ranges_moved es es' \<and>
    total_overlap os es \<le> total_overlap os es'"
  using assms(1,2,5,6)
proof (induction "is" arbitrary: es table)
  case (Cons i "is")
  have i: "i < n" using Cons.prems(1) by simp
  show ?case
  proof (cases "le_err (es ! i) > 0")
    case True
    then show ?thesis using Cons by auto
  next
    case False
    obtain mx idx where b: "ov_best es table i [i + 1..<length es] (0, i) = Some (mx, idx)"
      "idx = i \<or> idx < n \<and> le_err (es ! idx) \<le> 0 \<and> gains (\<lambda>x y. entry_overlap (os ! y) (es ! x)) i idx"
      using ov_best_ok [OF Cons.prems(4,2) i, of "[i + 1..<length es]" i 0] Cons.prems(2) by auto
    show ?thesis
    proof (cases "idx = i")
      case True
      then show ?thesis using Cons.IH [OF _ Cons.prems(2-4)] Cons.prems(1) False b(1) by auto
    next
      case ne: False
      let ?es = "dht_layout_range_swap es i idx"
      have idx: "i < length es" "idx < length es" "i \<noteq> idx" "le_err (es ! i) \<le> 0" "le_err (es ! idx) \<le> 0"
        "gains (\<lambda>x y. entry_overlap (os ! y) (es ! x)) i idx"
        using b(2) ne False i Cons.prems(2) by auto
      note mv = range_swap_moved [OF idx(1-5)]
      obtain t where t: "ov_swap_rows n i idx [0..<n] table = Some t"
        "ov_table n (\<lambda>x y. if y \<in> set [0..<n] then entry_overlap (os ! y) (es ! swapped i idx x)
           else entry_overlap (os ! y) (es ! x)) t"
        using ov_swap_rows_ok [OF _ _ idx(3) _ _ Cons.prems(4), of "[0..<n]"] idx(1,2) Cons.prems(2) by auto
      have "ov_table n (\<lambda>x y. entry_overlap (os ! y) (?es ! x)) t"
        using t(2) mv(2) Cons.prems(2) by (simp add: ov_table_def)
      then obtain es' t' where es': "maximize_loop n is (?es, t) = Some (es', t')" "ranges_moved ?es es'"
        "total_overlap os ?es \<le> total_overlap os es'"
        using Cons.IH [of ?es t] Cons.prems small_ranges_moved [OF mv(1)] by auto
      moreover have "total_overlap os es < total_overlap os ?es"
        using range_swap_total [OF idx(1-5) Cons.prems(3) assms(4) _ idx(6)] assms(3) Cons.prems(2) by simp
      ultimately show ?thesis using False ne b(1) t(1) Cons.prems(2) ranges_moved_trans [OF mv(1)] by auto
    qed
  qed
qed (auto simp: ranges_moved_refl)

section \<open>Properties\<close>

lemma mset_sort_entries: "mset (sort_entries cmp es) = mset es"
proof -
  have inner: "mset (sort_inner cmp i xs) = mset xs" if "i < length xs" for i xs
  proof -
    let ?f = "\<lambda>j es. if cmp (es ! i) (es ! j) > 0 then dht_layout_entry_swap es i j else es"
    have "mset (fold ?f [i + 1..<length xs] xs) = mset xs"
    proof (rule fold_upt_inv [where P = "\<lambda>_ ys. mset ys = mset xs"])
      fix k ys assume "k < length xs" "mset ys = mset xs"
      then show "mset (?f k ys) = mset xs"
        using that mset_eq_length [of ys xs] mset_entry_swap(1) [of i ys k] by simp
    qed (use that in auto)
    then show ?thesis by (simp add: sort_inner_def)
  qed
  have "mset (fold (sort_inner cmp) [0..<length es - 1] es) = mset es"
  proof (rule fold_upt_inv [where P = "\<lambda>_ ys. mset ys = mset es"])
    fix k ys assume "k < length es - 1" "mset ys = mset es"
    then show "mset (sort_inner cmp k ys) = mset es" using inner [of k ys] mset_eq_length [of ys es] by simp
  qed auto
  then show ?thesis by (simp add: sort_entries_def)
qed

lemma sort_volname_props:
  "length (lay_list (dht_layout_sort_volname l)) = length (lay_list l)"
  "set (lay_list (dht_layout_sort_volname l)) = set (lay_list l)"
  using mset_sort_entries [of dht_layout_entry_cmp_volname "lay_list l"]
  by (auto simp: dht_layout_sort_volname_def dest: mset_eq_length mset_eq_setD)


text \<open>Three subvolumes with a third of the hash space each, and the ranges rotated.\<close>

definition third_entry :: "nat \<Rightarrow> u32 \<Rightarrow> u32 \<Rightarrow> layout_entry" where
  "third_entry i a b = \<lparr>le_err = 0, le_start = a, le_stop = b, le_xlator = Some \<lparr>xl_addr = i, xl_name = ''brick''\<rparr>\<rparr>"

definition thirds :: dht_layout where
  "thirds = (dht_layout_new None 3)\<lparr>lay_list := [third_entry 1 0 0x55555554,
     third_entry 2 0x55555555 0xaaaaaaa9, third_entry 3 0xaaaaaaaa 0xffffffff]\<rparr>"

definition thirds_rotated :: dht_layout where
  "thirds_rotated = (dht_layout_new None 3)\<lparr>lay_list := [third_entry 1 0xaaaaaaaa 0xffffffff,
     third_entry 2 0 0x55555554, third_entry 3 0x55555555 0xaaaaaaa9]\<rparr>"


text \<open>Two subvolumes with half of the hash space each, and the ranges exchanged.\<close>

definition halves :: dht_layout where
  "halves = (dht_layout_new None 2)\<lparr>lay_list :=
     [\<lparr>le_err = 0, le_start = 0, le_stop = 0x7fffffff, le_xlator = Some brick_a\<rparr>,
      \<lparr>le_err = 0, le_start = 0x80000000, le_stop = 0xffffffff, le_xlator = Some brick_b\<rparr>]\<rparr>"

definition halves_swapped :: dht_layout where
  "halves_swapped = halves\<lparr>lay_list := dht_layout_range_swap (lay_list halves) 0 1\<rparr>"

text \<open>With two subvolumes of half the hash space each whose ranges have changed places, the
  overlap after a swap is the whole hash space, which is 0 in 32 bits: the ranges are left
  where they are and nothing stays on its subvolume.\<close>

theorem maximize_overlap_wraps:
  "dht_selfheal_layout_maximize_overlap halves_swapped halves = Some (halves_swapped, halves) \<and>
   total_overlap (lay_list halves) (lay_list halves_swapped) = 0 \<and>
   dht_overlap_calc halves 0 halves_swapped 1 = 0x80000000 \<and> dht_overlap_calc halves 1 halves_swapped 0 = 0x80000000"
proof (intro conjI)
  have "length (lay_list halves_swapped) = Suc (Suc 0)"
    "entry_overlap (lay_list halves ! 0) (lay_list halves_swapped ! 0) = 0"
    "entry_overlap (lay_list halves ! Suc 0) (lay_list halves_swapped ! Suc 0) = 0" by code_simp+
  then show "total_overlap (lay_list halves) (lay_list halves_swapped) = 0"
    by (simp add: total_overlap_def lessThan_Suc)
qed code_simp+

section \<open>Storing the ranges\<close>

text \<open>The replies to the calls of a heal, in the order they come in.\<close>

fun xattr_replies ::
  "nat \<times> dht_layout \<Rightarrow> (xlator \<times> int \<times> int) list \<Rightarrow> (nat \<times> dht_layout) \<times> heal_event list" where
  "xattr_replies st [] = (st, [])"
| "xattr_replies st ((subvol, op_ret, op_errno) # rs) =
     (case dht_selfheal_dir_xattr_cbk st subvol op_ret op_errno of (st1, ev1) \<Rightarrow>
      case xattr_replies st1 rs of (st2, ev2) \<Rightarrow> (st2, ev1 @ ev2))"

lemma xattr_replies_events:
  "length rs \<le> cnt \<Longrightarrow>
     fst (fst (xattr_replies (cnt, l) rs)) = cnt - length rs \<and>
     snd (xattr_replies (cnt, l) rs) = (if rs \<noteq> [] \<and> length rs = cnt then [Dir_finish 0] else [])"
proof (induction rs arbitrary: cnt l)
  case (Cons r rs)
  obtain subvol op_ret op_errno where r: "r = (subvol, op_ret, op_errno)" by (rule prod_cases3)
  obtain k where k: "cnt = Suc k" using Cons.prems by (cases cnt) auto
  show ?case using Cons.IH [of k] Cons.prems
    by (auto simp: r k dht_selfheal_dir_xattr_cbk_def Let_def split: prod.splits)
qed simp

definition is_setxattr :: "heal_event \<Rightarrow> bool" where
  "is_setxattr e \<longleftrightarrow> (\<exists>x raw. e = Wind_setxattr x raw)"

lemma persubvol_wind: "dht_selfheal_dir_xattr_persubvol l i r = Some e \<Longrightarrow> is_setxattr e"
  by (auto simp: dht_selfheal_dir_xattr_persubvol_def is_setxattr_def split: Option.bind_splits)

lemma all_events_calls:
  "all_events xs = Some evs \<Longrightarrow> \<forall>x \<in> set xs. \<exists>l i r. x = dht_selfheal_dir_xattr_persubvol l i r \<Longrightarrow>
     length evs = length xs \<and> (\<forall>e \<in> set evs. is_setxattr e)"
  by (induction xs arbitrary: evs) (fastforce split: Option.bind_splits dest: persubvol_wind)+

text \<open>At most as many subvolumes are in a layout as it has entries.\<close>

lemma in_layout_count:
  assumes "distinct (map xl_name xs)"
  shows "length (filter (dht_is_subvol_in_layout l) xs) \<le> length (lay_list l)"
proof -
  have "xl_name x \<in> set (map entry_name (lay_list l))" if "dht_is_subvol_in_layout l x" for x
    using that by (auto simp: dht_is_subvol_in_layout_def split: option.splits dest!: find_SomeD intro!: image_eqI)
  then have "set (map xl_name (filter (dht_is_subvol_in_layout l) xs)) \<subseteq> set (map entry_name (lay_list l))"
    by auto
  moreover have "distinct (map xl_name (filter (dht_is_subvol_in_layout l) xs))"
    using assms by (rule distinct_map_filter)
  ultimately show ?thesis
    by (metis card_length card_mono distinct_card finite_set length_map order_trans)
qed

text \<open>Every heal ends exactly once.  dht_selfheal_dir_xattr either finishes at once, or announces
  as many replies as it makes setxattr calls; the same holds for dht_fix_dir_xattr when the
  subvolumes have different names.  In whatever order and with whatever results the replies
  come, the end of the heal is reported with the last of them and not before.\<close>

theorem xattr_heal_finishes_once:
  assumes "dht_selfheal_dir_xattr conf layout = Some (cnt, evs) \<and> evs \<noteq> [Dir_finish 0] \<or>
    dht_fix_dir_xattr conf layout = Some (cnt, evs) \<and> distinct (map xl_name (subvolumes conf)) \<and> subvolumes conf \<noteq> []"
    and "length rs = cnt" "k < cnt"
  shows "cnt = length evs \<and> (\<forall>e \<in> set evs. is_setxattr e) \<and>
    snd (xattr_replies (cnt, layout) rs) = [Dir_finish 0] \<and>
    snd (xattr_replies (cnt, layout) (take k rs)) = []"
proof -
  let ?others = "filter (\<lambda>x. \<not> dht_is_subvol_in_layout layout x) (subvolumes conf)"
  have "cnt = length evs \<and> (\<forall>e \<in> set evs. is_setxattr e)"
    using assms(1)
  proof (elim disjE conjE)
    assume "dht_selfheal_dir_xattr conf layout = Some (cnt, evs)" "evs \<noteq> [Dir_finish 0]"
    then show ?thesis
      by (fastforce simp: dht_selfheal_dir_xattr_def Let_def split: if_splits Option.bind_splits
          dest: all_events_calls)
  next
    assume f: "dht_fix_dir_xattr conf layout = Some (cnt, evs)" and d: "distinct (map xl_name (subvolumes conf))"
    have "length (subvolumes conf) \<le> length (lay_list layout) + length ?others"
      using in_layout_count [OF d, of layout] sum_length_filter_compl [of "dht_is_subvol_in_layout layout" "subvolumes conf"]
      by simp
    then show ?thesis using f
      by (fastforce simp: dht_fix_dir_xattr_def Let_def split: Option.bind_splits dest: all_events_calls)
  qed
  then show ?thesis using xattr_replies_events [of rs cnt layout] xattr_replies_events [of "take k rs" cnt layout] assms(2,3)
    by auto
qed

theorem xattr_heal_finishes_once_witness:
  "\<exists>evs. dht_fix_dir_xattr example_conf two_bricks = Some (2, evs) \<and> length evs = 2 \<and>
     snd (xattr_replies (2, two_bricks) [(brick_b, 0, 0), (brick_a, -1, 28)]) = [Dir_finish 0]"
proof -
  have "\<exists>evs. dht_fix_dir_xattr example_conf two_bricks = Some (2, evs)" by (rule exI) code_simp
  then obtain evs where f: "dht_fix_dir_xattr example_conf two_bricks = Some (2, evs)" by blast
  have d: "distinct (map xl_name (subvolumes example_conf)) \<and> subvolumes example_conf \<noteq> []" by code_simp
  show ?thesis
    using xattr_heal_finishes_once [of example_conf two_bricks 2 evs "[(brick_b, 0, 0), (brick_a, -1, 28)]" 0] f d
    by auto
qed

end
