(* ===== verification/Iatt.thy ===== *)
theory Iatt
  imports GF_Prelude
begin

unbundle bit_operations_syntax

text \<open>
  The file attributes of libglusterfs/src/iatt.h that the access-control translator reads, and
  their conversion from and to the mode of stat(2).
\<close>

section \<open>Definitions\<close>

datatype ia_type = IA_INVAL | IA_IFREG | IA_IFDIR | IA_IFLNK | IA_IFBLK | IA_IFCHR | IA_IFIFO | IA_IFSOCK

record ia_rwx =
  rwx_read :: bool
  rwx_write :: bool
  rwx_exec :: bool

record ia_prot =
  suid :: bool
  sgid :: bool
  sticky :: bool
  prot_owner :: ia_rwx
  prot_group :: ia_rwx
  prot_other :: ia_rwx

record iatt =
  ia_type :: ia_type
  ia_prot :: ia_prot
  ia_uid :: nat
  ia_gid :: nat

type_synonym mode_t = u32

abbreviation (input) S_IFMT :: mode_t where "S_IFMT \<equiv> 0xf000"
abbreviation (input) S_ISUID :: mode_t where "S_ISUID \<equiv> 0x800"
abbreviation (input) S_ISGID :: mode_t where "S_ISGID \<equiv> 0x400"
abbreviation (input) S_ISVTX :: mode_t where "S_ISVTX \<equiv> 0x200"
abbreviation (input) S_IRWXU :: mode_t where "S_IRWXU \<equiv> 0x1c0"
abbreviation (input) S_IRWXG :: mode_t where "S_IRWXG \<equiv> 0x38"
abbreviation (input) S_IRWXO :: mode_t where "S_IRWXO \<equiv> 0x7"

definition mode_has :: "mode_t \<Rightarrow> mode_t \<Rightarrow> bool" where
  "mode_has mode b \<longleftrightarrow> mode AND b \<noteq> 0"

definition ia_prot_from_st_mode :: "mode_t \<Rightarrow> ia_prot" where
  "ia_prot_from_st_mode mode = \<lparr>
     suid = mode_has mode S_ISUID, sgid = mode_has mode S_ISGID, sticky = mode_has mode S_ISVTX,
     prot_owner = \<lparr>rwx_read = mode_has mode 0x100, rwx_write = mode_has mode 0x80, rwx_exec = mode_has mode 0x40\<rparr>,
     prot_group = \<lparr>rwx_read = mode_has mode 0x20, rwx_write = mode_has mode 0x10, rwx_exec = mode_has mode 0x8\<rparr>,
     prot_other = \<lparr>rwx_read = mode_has mode 0x4, rwx_write = mode_has mode 0x2, rwx_exec = mode_has mode 0x1\<rparr>\<rparr>"

text \<open>The S_IS* macros compare the type bits, and at most one of them holds.\<close>

definition ia_type_from_st_mode :: "mode_t \<Rightarrow> ia_type" where
  "ia_type_from_st_mode mode =
     (let t = mode AND S_IFMT in
      if t = 0x8000 then IA_IFREG
      else if t = 0x4000 then IA_IFDIR
      else if t = 0xa000 then IA_IFLNK
      else if t = 0x6000 then IA_IFBLK
      else if t = 0x2000 then IA_IFCHR
      else if t = 0x1000 then IA_IFIFO
      else if t = 0xc000 then IA_IFSOCK
      else IA_INVAL)"

fun ia_type_bit :: "ia_type \<Rightarrow> mode_t" where
  "ia_type_bit IA_IFREG = 0x8000"
| "ia_type_bit IA_IFDIR = 0x4000"
| "ia_type_bit IA_IFLNK = 0xa000"
| "ia_type_bit IA_IFBLK = 0x6000"
| "ia_type_bit IA_IFCHR = 0x2000"
| "ia_type_bit IA_IFIFO = 0x1000"
| "ia_type_bit IA_IFSOCK = 0xc000"
| "ia_type_bit IA_INVAL = 0"

definition rwx_bits :: "ia_rwx \<Rightarrow> mode_t" where
  "rwx_bits p = (if rwx_read p then 4 else 0) OR (if rwx_write p then 2 else 0) OR (if rwx_exec p then 1 else 0)"

definition st_mode_from_ia :: "ia_prot \<Rightarrow> ia_type \<Rightarrow> mode_t" where
  "st_mode_from_ia prot type =
     ia_type_bit type OR
     ((if suid prot then S_ISUID else 0) OR (if sgid prot then S_ISGID else 0) OR
      (if sticky prot then S_ISVTX else 0) OR
      push_bit 6 (rwx_bits (prot_owner prot)) OR push_bit 3 (rwx_bits (prot_group prot)) OR
      rwx_bits (prot_other prot))"

section \<open>Properties\<close>

lemma mode_has_bit:
  "mode_has mode 0x800 = bit mode 11" "mode_has mode 0x400 = bit mode 10" "mode_has mode 0x200 = bit mode 9"
  "mode_has mode 0x100 = bit mode 8" "mode_has mode 0x80 = bit mode 7" "mode_has mode 0x40 = bit mode 6"
  "mode_has mode 0x20 = bit mode 5" "mode_has mode 0x10 = bit mode 4" "mode_has mode 0x8 = bit mode 3"
  "mode_has mode 0x4 = bit mode 2" "mode_has mode 0x2 = bit mode 1" "mode_has mode 0x1 = bit mode 0"
  using bit_iff_and_push_bit_not_eq_0 [of mode] by (simp_all add: mode_has_def)

lemma rwx_bits_bit [simp]:
  "bit (rwx_bits p) 0 = rwx_exec p" "bit (rwx_bits p) (Suc 0) = rwx_write p" "bit (rwx_bits p) 2 = rwx_read p"
  by (auto simp: rwx_bits_def bit_simps split: if_splits) 

lemma rwx_bits_high: "3 \<le> n \<Longrightarrow> \<not> bit (rwx_bits p) n"
proof -
  have "rwx_bits p = take_bit 3 (rwx_bits p)"
    by (cases "rwx_read p"; cases "rwx_write p"; cases "rwx_exec p"; simp add: rwx_bits_def)
  then show "3 \<le> n \<Longrightarrow> \<not> bit (rwx_bits p) n" by (metis bit_take_bit_iff linorder_not_le)
qed

lemma ia_type_bit_low: "n < 12 \<Longrightarrow> \<not> bit (ia_type_bit t) n"
  by (cases t) (auto simp: less_Suc_eq numeral_eq_Suc)

lemma st_mode_bits:
  "bit (st_mode_from_ia p t) 11 = suid p" "bit (st_mode_from_ia p t) 10 = sgid p" "bit (st_mode_from_ia p t) 9 = sticky p"
  "bit (st_mode_from_ia p t) 8 = rwx_read (prot_owner p)" "bit (st_mode_from_ia p t) 7 = rwx_write (prot_owner p)"
  "bit (st_mode_from_ia p t) 6 = rwx_exec (prot_owner p)"
  "bit (st_mode_from_ia p t) 5 = rwx_read (prot_group p)" "bit (st_mode_from_ia p t) 4 = rwx_write (prot_group p)"
  "bit (st_mode_from_ia p t) 3 = rwx_exec (prot_group p)"
  "bit (st_mode_from_ia p t) 2 = rwx_read (prot_other p)" "bit (st_mode_from_ia p t) (Suc 0) = rwx_write (prot_other p)"
  "bit (st_mode_from_ia p t) 0 = rwx_exec (prot_other p)"
  using rwx_bits_high by (simp_all add: st_mode_from_ia_def bit_or_iff bit_push_bit_iff ia_type_bit_low)

lemma st_mode_type: "st_mode_from_ia p t AND 0xf000 = ia_type_bit t"
proof -
  have "rwx_bits q AND 0xf000 = 0" "push_bit 3 (rwx_bits q) AND 0xf000 = 0" "push_bit 6 (rwx_bits q) AND 0xf000 = 0" for q
    by (cases "rwx_read q"; cases "rwx_write q"; cases "rwx_exec q"; simp add: rwx_bits_def)+
  moreover have "ia_type_bit t AND 0xf000 = ia_type_bit t" by (cases t) simp_all
  ultimately show ?thesis by (simp add: st_mode_from_ia_def bit.conj_disj_distrib2)
qed

lemma st_mode_high: "16 \<le> n \<Longrightarrow> \<not> bit (st_mode_from_ia p t) n"
proof -
  have "rwx_bits q = take_bit 16 (rwx_bits q)" "push_bit 3 (rwx_bits q) = take_bit 16 (push_bit 3 (rwx_bits q))"
    "push_bit 6 (rwx_bits q) = take_bit 16 (push_bit 6 (rwx_bits q))" for q
    by (cases "rwx_read q"; cases "rwx_write q"; cases "rwx_exec q"; simp add: rwx_bits_def)+
  moreover have "ia_type_bit t = take_bit 16 (ia_type_bit t)" by (cases t) simp_all
  ultimately have "st_mode_from_ia p t = take_bit 16 (st_mode_from_ia p t)"
    by (simp add: st_mode_from_ia_def take_bit_or)
  then show "16 \<le> n \<Longrightarrow> \<not> bit (st_mode_from_ia p t) n" by (metis bit_take_bit_iff linorder_not_le)
qed

lemma prot_of_st_mode: "ia_prot_from_st_mode (st_mode_from_ia p t) = p"
  by (simp add: ia_prot_from_st_mode_def mode_has_bit st_mode_bits)

lemma type_of_st_mode: "ia_type_from_st_mode (st_mode_from_ia p t) = t"
  by (cases t) (simp_all add: ia_type_from_st_mode_def st_mode_type Let_def)

lemma st_mode_of_ia:
  assumes high: "m AND 0xffff = m" and t: "ia_type_from_st_mode m \<noteq> IA_INVAL"
  shows "st_mode_from_ia (ia_prot_from_st_mode m) (ia_type_from_st_mode m) = m" (is "?l = m")
proof (rule word_eq_low_high [of _ _ 16])
  have "ia_type_bit (ia_type_from_st_mode m) = m AND 0xf000"
    using t by (auto simp: ia_type_from_st_mode_def Let_def split: if_splits)
  then have "?l AND 0xf000 = m AND 0xf000" by (simp add: st_mode_type)
  then have type: "bit (?l AND 0xf000) n = bit (m AND 0xf000) n" for n by simp
  show "list_all (\<lambda>n. bit ?l n = bit m n) (0 # Suc 0 # [2..<16])"
    using type [of 12] type [of 13] type [of 14] type [of 15]
    by (simp add: st_mode_bits ia_prot_from_st_mode_def mode_has_bit bit_and_iff)
  show "bit ?l n = bit m n" if n: "16 \<le> n" for n
  proof -
    have "m = take_bit 16 m"
      using high by (simp add: take_bit_eq_mask mask_eq_exp_minus_1)
    then have "\<not> bit m n" using n by (metis bit_take_bit_iff linorder_not_le)
    then show ?thesis using st_mode_high [OF n] by simp
  qed
qed

text \<open>C37: modes and attributes are the same information.  Turning attributes into a mode and
  back gives the attributes, and a 16-bit mode of a known file type survives the way through
  attributes.\<close>

theorem st_mode_round_trip:
  "ia_prot_from_st_mode (st_mode_from_ia p t) = p \<and> ia_type_from_st_mode (st_mode_from_ia p t) = t \<and>
   (m AND 0xffff = m \<longrightarrow> ia_type_from_st_mode m \<noteq> IA_INVAL \<longrightarrow>
    st_mode_from_ia (ia_prot_from_st_mode m) (ia_type_from_st_mode m) = m)"
  using prot_of_st_mode type_of_st_mode st_mode_of_ia by blast

theorem st_mode_round_trip_witness:
  "(0x81a4 :: mode_t) AND 0xffff = 0x81a4 \<and> ia_type_from_st_mode 0x81a4 = IA_IFREG \<and>
   st_mode_from_ia (ia_prot_from_st_mode 0x81a4) (ia_type_from_st_mode 0x81a4) = 0x81a4"
  using st_mode_round_trip [of undefined undefined "0x81a4"] by (simp add: ia_type_from_st_mode_def)

end
