(* ===== verification/Posix_Acl.thy ===== *)
theory Posix_Acl
  imports Iatt
begin

unbundle bit_operations_syntax

text \<open>
  The access-control translator (xlators/system/posix-acl): ACLs and their encoding as an
  extended attribute, the reference-counted ACL objects, the context kept on each inode, the
  permission check, the inheritance of default ACLs and the refresh of a context from attributes.

  ACLs live in a store from addresses to objects and inodes are named by their addresses.
  Allocation succeeds.  An access through a pointer to an object that is no longer in the store
  reads an empty ACL and writes nothing; the reference-count theorems show that the code never
  makes one.  Regions under acl_lock and inode->lock are single steps.
\<close>

section \<open>Data\<close>

record posix_ace =
  ace_tag :: u16
  ace_perm :: u16
  ace_id :: u32

record posix_acl =
  acl_refcnt :: int
  acl_entries :: "posix_ace list"

record posix_acl_ctx =
  ctx_uid :: nat
  ctx_gid :: nat
  ctx_perm :: mode_t
  ctx_access :: "addr option"
  ctx_default :: "addr option"

text \<open>The translator's private data (super_uid, minimal_acl), the ACL objects and the
  contexts of the inodes.\<close>

record acl_state =
  super_uid :: nat
  minimal_acl :: addr
  acls :: "addr \<Rightarrow> posix_acl option"
  acl_brk :: addr
  ctxs :: "addr \<Rightarrow> posix_acl_ctx option"

abbreviation (input) POSIX_ACL_MINIMAL_ACE_COUNT :: nat where "POSIX_ACL_MINIMAL_ACE_COUNT \<equiv> 3"
abbreviation (input) POSIX_ACL_READ :: u16 where "POSIX_ACL_READ \<equiv> 4"
abbreviation (input) POSIX_ACL_WRITE :: u16 where "POSIX_ACL_WRITE \<equiv> 2"
abbreviation (input) POSIX_ACL_EXECUTE :: u16 where "POSIX_ACL_EXECUTE \<equiv> 1"
abbreviation (input) POSIX_ACL_USER_OBJ :: u16 where "POSIX_ACL_USER_OBJ \<equiv> 1"
abbreviation (input) POSIX_ACL_USER :: u16 where "POSIX_ACL_USER \<equiv> 2"
abbreviation (input) POSIX_ACL_GROUP_OBJ :: u16 where "POSIX_ACL_GROUP_OBJ \<equiv> 4"
abbreviation (input) POSIX_ACL_GROUP :: u16 where "POSIX_ACL_GROUP \<equiv> 8"
abbreviation (input) POSIX_ACL_MASK :: u16 where "POSIX_ACL_MASK \<equiv> 16"
abbreviation (input) POSIX_ACL_OTHER :: u16 where "POSIX_ACL_OTHER \<equiv> 32"
abbreviation (input) POSIX_ACL_UNDEFINED_ID :: u32 where "POSIX_ACL_UNDEFINED_ID \<equiv> 0xffffffff"
abbreviation (input) POSIX_ACL_XATTR_VERSION :: u32 where "POSIX_ACL_XATTR_VERSION \<equiv> 2"

section \<open>Extended attributes (posix-acl-xattr.c)\<close>

type_synonym byte = "8 word"

definition htole16 :: "u16 \<Rightarrow> byte list" where
  "htole16 w = [ucast w, ucast (drop_bit 8 w)]"

definition htole32 :: "u32 \<Rightarrow> byte list" where
  "htole32 w = [ucast w, ucast (drop_bit 8 w), ucast (drop_bit 16 w), ucast (drop_bit 24 w)]"

fun letoh16 :: "byte list \<Rightarrow> u16" where
  "letoh16 [] = 0"
| "letoh16 (b # bs) = ucast b OR push_bit 8 (letoh16 bs)"

fun letoh32 :: "byte list \<Rightarrow> u32" where
  "letoh32 [] = 0"
| "letoh32 (b # bs) = ucast b OR push_bit 8 (letoh32 bs)"

definition posix_ace_cmp :: "posix_ace \<Rightarrow> posix_ace \<Rightarrow> int" where
  "posix_ace_cmp ace1 ace2 =
     (let ret = uint (ace_tag ace1) - uint (ace_tag ace2) in
      if ret = 0 then sint (ace_id ace1 - ace_id ace2) else ret)"

text \<open>qsort with a comparison function.  Elements it compares as equal have the same tag and
  id; qsort leaves their order open, and insertion keeps it.\<close>

fun ace_insert :: "posix_ace \<Rightarrow> posix_ace list \<Rightarrow> posix_ace list" where
  "ace_insert a [] = [a]"
| "ace_insert a (b # bs) = (if posix_ace_cmp a b \<le> 0 then a # b # bs else b # ace_insert a bs)"

definition posix_acl_normalize :: "posix_ace list \<Rightarrow> posix_ace list" where
  "posix_acl_normalize es = foldr ace_insert es []"

text \<open>The loop of posix_acl_from_xattr over the entries, eight bytes each.\<close>

fun xattr_entries :: "byte list \<Rightarrow> posix_ace list option" where
  "xattr_entries (t0 # t1 # p0 # p1 # i0 # i1 # i2 # i3 # rest) =
     (let tag = letoh16 [t0, t1]; perm = letoh16 [p0, p1]; id = letoh32 [i0, i1, i2, i3] in
      if tag \<in> {POSIX_ACL_USER_OBJ, POSIX_ACL_MASK, POSIX_ACL_OTHER} then
        map_option (\<lambda>es. \<lparr>ace_tag = tag, ace_perm = perm, ace_id = POSIX_ACL_UNDEFINED_ID\<rparr> # es) (xattr_entries rest)
      else if tag \<in> {POSIX_ACL_GROUP, POSIX_ACL_USER, POSIX_ACL_GROUP_OBJ} then
        map_option (\<lambda>es. \<lparr>ace_tag = tag, ace_perm = perm, ace_id = id\<rparr> # es) (xattr_entries rest)
      else None)"
| "xattr_entries _ = Some []"

text \<open>The entries posix_acl_from_xattr puts in the ACL it returns; None where it returns NULL.\<close>

definition decode_xattr :: "byte list \<Rightarrow> posix_ace list option" where
  "decode_xattr buf =
     (if length buf < 4 then None
      else if (length buf - 4) mod 8 \<noteq> 0 then None
      else if letoh32 (take 4 buf) \<noteq> POSIX_ACL_XATTR_VERSION then None
      else map_option posix_acl_normalize (xattr_entries (drop 4 buf)))"

definition ace_to_xattr :: "posix_ace \<Rightarrow> byte list" where
  "ace_to_xattr ace =
     htole16 (ace_tag ace) @ htole16 (ace_perm ace) @
     htole32 (if ace_tag ace \<in> {POSIX_ACL_USER, POSIX_ACL_GROUP} then ace_id ace else POSIX_ACL_UNDEFINED_ID)"

text \<open>posix_acl_to_xattr: the size needed (Inl) when the buffer is too small, otherwise the
  bytes it writes.\<close>

definition posix_acl_to_xattr :: "posix_ace list \<Rightarrow> nat \<Rightarrow> nat + byte list" where
  "posix_acl_to_xattr es xattr_size =
     (let size = 4 + length es * 8 in
      if xattr_size < size then Inl size
      else Inr (htole32 POSIX_ACL_XATTR_VERSION @ concat (map ace_to_xattr es)))"

text \<open>The size asked for first, then the attribute written into a buffer of that size.\<close>

definition acl_xattr :: "posix_ace list \<Rightarrow> byte list" where
  "acl_xattr es =
     (case posix_acl_to_xattr es 0 of
        Inr bs \<Rightarrow> bs
      | Inl size_access \<Rightarrow> (case posix_acl_to_xattr es size_access of Inr bs \<Rightarrow> bs | Inl _ \<Rightarrow> []))"

definition posix_acl_matches_xattr :: "posix_ace list \<Rightarrow> byte list \<Rightarrow> bool" where
  "posix_acl_matches_xattr es buf =
     (case decode_xattr buf of None \<Rightarrow> False | Some es2 \<Rightarrow> length es = length es2 \<and> es = es2)"

section \<open>ACL objects\<close>

definition entries_at :: "acl_state \<Rightarrow> addr \<Rightarrow> posix_ace list" where
  "entries_at s a = (case acls s a of None \<Rightarrow> [] | Some acl \<Rightarrow> acl_entries acl)"

definition acl_modify :: "(posix_acl \<Rightarrow> posix_acl) \<Rightarrow> addr \<Rightarrow> acl_state \<Rightarrow> acl_state" where
  "acl_modify f a s = s\<lparr>acls := (acls s)(a := map_option f (acls s a))\<rparr>"

definition posix_acl_ref :: "addr \<Rightarrow> acl_state \<Rightarrow> acl_state" where
  "posix_acl_ref a s = acl_modify (\<lambda>acl. acl\<lparr>acl_refcnt := acl_refcnt acl + 1\<rparr>) a s"

definition posix_acl_destroy :: "addr \<Rightarrow> acl_state \<Rightarrow> acl_state" where
  "posix_acl_destroy a s = s\<lparr>acls := (acls s)(a := None)\<rparr>"

definition posix_acl_unref :: "addr \<Rightarrow> acl_state \<Rightarrow> acl_state" where
  "posix_acl_unref a s =
     (let s1 = acl_modify (\<lambda>acl. acl\<lparr>acl_refcnt := acl_refcnt acl - 1\<rparr>) a s in
      case acls s1 a of
        None \<Rightarrow> s1
      | Some acl \<Rightarrow> if acl_refcnt acl = 0 then posix_acl_destroy a s1 else s1)"

text \<open>\<open>if (acl) posix_acl_ref / posix_acl_unref (acl)\<close>\<close>

definition ref_opt :: "addr option \<Rightarrow> acl_state \<Rightarrow> acl_state" where
  "ref_opt p s = (case p of None \<Rightarrow> s | Some a \<Rightarrow> posix_acl_ref a s)"

definition unref_opt :: "addr option \<Rightarrow> acl_state \<Rightarrow> acl_state" where
  "unref_opt p s = (case p of None \<Rightarrow> s | Some a \<Rightarrow> posix_acl_unref a s)"

text \<open>A new object with its entries already filled in; posix_acl_new takes the first reference.\<close>

definition posix_acl_new :: "posix_ace list \<Rightarrow> acl_state \<Rightarrow> addr \<times> acl_state" where
  "posix_acl_new es s =
     (let a = acl_brk s in
      (a, posix_acl_ref a (s\<lparr>acls := (acls s)(a \<mapsto> \<lparr>acl_refcnt = 0, acl_entries = es\<rparr>), acl_brk := a + 1\<rparr>)))"

definition posix_acl_dup :: "addr \<Rightarrow> acl_state \<Rightarrow> addr \<times> acl_state" where
  "posix_acl_dup a s = posix_acl_new (entries_at s a) s"

definition posix_acl_from_xattr :: "byte list \<Rightarrow> acl_state \<Rightarrow> addr option \<times> acl_state" where
  "posix_acl_from_xattr buf s =
     (case decode_xattr buf of
        None \<Rightarrow> (None, s)
      | Some es \<Rightarrow> (let (a, s1) = posix_acl_new es s in (Some a, s1)))"

section \<open>Contexts of inodes\<close>

definition zero_ctx :: posix_acl_ctx where
  "zero_ctx = \<lparr>ctx_uid = 0, ctx_gid = 0, ctx_perm = 0, ctx_access = None, ctx_default = None\<rparr>"

text \<open>The context of an inode, made when it has none.\<close>

definition posix_acl_ctx_get :: "addr \<Rightarrow> acl_state \<Rightarrow> posix_acl_ctx \<times> acl_state" where
  "posix_acl_ctx_get inode s =
     (case ctxs s inode of
        Some ctx \<Rightarrow> (ctx, s)
      | None \<Rightarrow> (zero_ctx, s\<lparr>ctxs := (ctxs s)(inode \<mapsto> zero_ctx)\<rparr>))"

definition posix_acl_set_raw :: "addr \<Rightarrow> addr option \<Rightarrow> addr option \<Rightarrow> acl_state \<Rightarrow> acl_state" where
  "posix_acl_set_raw inode acl_access acl_default s =
     (let (ctx, s1) = posix_acl_ctx_get inode s in
      s1\<lparr>ctxs := (ctxs s1)(inode \<mapsto> ctx\<lparr>ctx_access := acl_access, ctx_default := acl_default\<rparr>)\<rparr>)"

definition posix_acl_get_raw :: "addr \<Rightarrow> acl_state \<Rightarrow> addr option \<times> addr option \<times> acl_state" where
  "posix_acl_get_raw inode s =
     (let (ctx, s1) = posix_acl_ctx_get inode s in (ctx_access ctx, ctx_default ctx, s1))"

text \<open>\<open>want_access\<close> and \<open>want_default\<close> say whether the caller passed a place for the pointer.\<close>

definition posix_acl_get :: "addr \<Rightarrow> bool \<Rightarrow> bool \<Rightarrow> acl_state \<Rightarrow> addr option \<times> addr option \<times> acl_state" where
  "posix_acl_get inode want_access want_default s =
     (let (acl_access, acl_default, s1) = posix_acl_get_raw inode s;
          s2 = (if want_access then ref_opt acl_access s1 else s1);
          s3 = (if want_default then ref_opt acl_default s2 else s2) in
      (if want_access then acl_access else None, if want_default then acl_default else None, s3))"

definition posix_acl_set :: "addr \<Rightarrow> addr option \<Rightarrow> addr option \<Rightarrow> acl_state \<Rightarrow> acl_state" where
  "posix_acl_set inode acl_access acl_default s =
     (let (old_access, old_default, s1) = posix_acl_get_raw inode s;
          s2 = ref_opt acl_default (ref_opt acl_access s1);
          s3 = posix_acl_set_raw inode acl_access acl_default s2 in
      unref_opt old_default (unref_opt old_access s3))"

section \<open>Callers\<close>

definition frame_is_user :: "call_root \<Rightarrow> nat \<Rightarrow> bool" where
  "frame_is_user frame uid \<longleftrightarrow> rt_uid frame = uid"

definition frame_is_super_user :: "acl_state \<Rightarrow> call_root \<Rightarrow> bool" where
  "frame_is_super_user s frame \<longleftrightarrow> frame_is_user frame (super_uid s) \<or> frame_is_user frame 0"

definition frame_in_group :: "call_root \<Rightarrow> nat \<Rightarrow> bool" where
  "frame_in_group frame gid \<longleftrightarrow> rt_gid frame = gid \<or> (\<exists>g \<in> set (rt_groups frame). g = gid)"

definition is_fuse_call :: "call_root \<Rightarrow> bool" where
  "is_fuse_call frame \<longleftrightarrow> 1 \<noteq> rt_pid frame"

section \<open>The permission check\<close>

definition perm_user :: "mode_t \<Rightarrow> u16" where "perm_user m = ucast (drop_bit 6 (m AND S_IRWXU))"
definition perm_group :: "mode_t \<Rightarrow> u16" where "perm_group m = ucast (drop_bit 3 (m AND S_IRWXG))"
definition perm_other :: "mode_t \<Rightarrow> u16" where "perm_other m = ucast (m AND S_IRWXO)"

definition perm_has :: "u16 \<Rightarrow> u16 \<Rightarrow> bool" where
  "perm_has perm want \<longleftrightarrow> perm AND want = want"

text \<open>Where acl_permits goes from its loop over the entries, with the value of \<open>perm\<close>.\<close>

datatype acl_goto = Mask_check u16 | Perm_check u16 | Red

fun acl_scan :: "call_root \<Rightarrow> posix_acl_ctx \<Rightarrow> bool \<Rightarrow> u16 \<Rightarrow> u16 \<Rightarrow> bool \<Rightarrow> posix_ace list \<Rightarrow> acl_goto" where
  "acl_scan frame ctx acl_present want perm found [] = Mask_check perm"
| "acl_scan frame ctx acl_present want perm found (ace # rest) =
     (let tag = ace_tag ace; go_on = (\<lambda>perm found. acl_scan frame ctx acl_present want perm found rest) in
      if tag = POSIX_ACL_USER_OBJ then
        (let perm = perm_user (ctx_perm ctx) in
         if frame_is_user frame (ctx_uid ctx) then Perm_check perm else go_on perm found)
      else if tag = POSIX_ACL_USER then
        (if frame_is_user frame (unat (ace_id ace)) then Mask_check (ace_perm ace) else go_on (ace_perm ace) found)
      else if tag = POSIX_ACL_GROUP_OBJ then
        (let perm = (if acl_present then ace_perm ace else perm_group (ctx_perm ctx)) in
         if frame_in_group frame (ctx_gid ctx)
         then (if perm_has perm want then Mask_check perm else go_on perm True)
         else go_on perm found)
      else if tag = POSIX_ACL_GROUP then
        (if frame_in_group frame (unat (ace_id ace))
         then (if perm_has (ace_perm ace) want then Mask_check (ace_perm ace) else go_on (ace_perm ace) True)
         else go_on (ace_perm ace) found)
      else if tag = POSIX_ACL_MASK then go_on perm found
      else if tag = POSIX_ACL_OTHER then
        (if \<not> found then Perm_check (perm_other (ctx_perm ctx)) else Red)
      else Red)"

text \<open>The labels mask_check and perm_check.\<close>

definition acl_decide :: "posix_ace list \<Rightarrow> u16 \<Rightarrow> acl_goto \<Rightarrow> bool" where
  "acl_decide es want g =
     (case g of
        Red \<Rightarrow> False
      | Perm_check perm \<Rightarrow> perm_has perm want
      | Mask_check perm \<Rightarrow>
          (case find (\<lambda>ace. ace_tag ace = POSIX_ACL_MASK) es of
             Some ace \<Rightarrow> ace_perm ace AND perm AND want = want
           | None \<Rightarrow> perm_has perm want))"

definition acl_permits :: "call_root \<Rightarrow> addr \<Rightarrow> u16 \<Rightarrow> acl_state \<Rightarrow> bool \<times> acl_state" where
  "acl_permits frame inode want s =
     (let (ctx, s1) = posix_acl_ctx_get inode s in
      if frame_is_super_user s1 frame then (True, s1)
      else
        (let (acl_p, _, s2) = posix_acl_get inode True False s1;
             (acl, s3) = (case acl_p of
                            Some acl \<Rightarrow> (acl, s2)
                          | None \<Rightarrow> (minimal_acl s2, posix_acl_ref (minimal_acl s2) s2));
             es = entries_at s3 acl;
             acl_present = (POSIX_ACL_MINIMAL_ACE_COUNT < length es);
             verdict = acl_decide es want (acl_scan frame ctx acl_present want 0 False es) in
         (verdict, posix_acl_unref acl s3)))"

definition sticky_permits :: "call_root \<Rightarrow> addr \<Rightarrow> addr \<Rightarrow> acl_state \<Rightarrow> bool \<times> acl_state" where
  "sticky_permits frame parent inode s =
     (let (_, s1) = posix_acl_ctx_get parent s;
          (ctx, s2) = posix_acl_ctx_get inode s1;
          (par, _) = posix_acl_ctx_get parent s2 in
      (if frame_is_super_user s2 frame then True
       else if ctx_perm par AND S_ISVTX = 0 then True
       else if frame_is_user frame (ctx_uid par) then True
       else if frame_is_user frame (ctx_uid ctx) then True
       else False, s2))"

section \<open>ACLs and modes\<close>

text \<open>The entry a loop that overwrites a pointer at each match is left with: the last one.\<close>

definition last_ace :: "u16 \<Rightarrow> posix_ace list \<Rightarrow> posix_ace option" where
  "last_ace tag es = find (\<lambda>ace. ace_tag ace = tag) (rev es)"

fun modify_last :: "u16 \<Rightarrow> (posix_ace \<Rightarrow> posix_ace) \<Rightarrow> posix_ace list \<Rightarrow> posix_ace list" where
  "modify_last tag f [] = []"
| "modify_last tag f (e # es) =
     (if ace_tag e = tag \<and> (\<forall>x \<in> set es. ace_tag x \<noteq> tag) then f e # es else e # modify_last tag f es)"

text \<open>The loop of posix_acl_access_set_mode: the mask and the mode it collects.\<close>

fun set_mode_loop :: "posix_ace list \<Rightarrow> mode_t \<Rightarrow> mode_t \<Rightarrow> mode_t \<times> mode_t" where
  "set_mode_loop [] msk mode = (msk, mode)"
| "set_mode_loop (ace # es) msk mode =
     (if ace_tag ace = POSIX_ACL_USER_OBJ
      then set_mode_loop es (msk OR S_IRWXU) (mode OR push_bit 6 (ucast (ace_perm ace)))
      else if ace_tag ace = POSIX_ACL_OTHER
      then set_mode_loop es (msk OR S_IRWXO) (mode OR ucast (ace_perm ace))
      else set_mode_loop es msk mode)"

definition posix_acl_access_set_mode :: "posix_ace list \<Rightarrow> posix_acl_ctx \<Rightarrow> mode_t \<times> posix_acl_ctx" where
  "posix_acl_access_set_mode es ctx =
     (let (msk, mode) = set_mode_loop es 0 0;
          (msk, mode) =
            (case last_ace POSIX_ACL_MASK es of
               Some mask_ce \<Rightarrow> (msk OR S_IRWXG, mode OR push_bit 3 (ucast (ace_perm mask_ce)))
             | None \<Rightarrow>
                 (case last_ace POSIX_ACL_GROUP_OBJ es of
                    Some group_ce \<Rightarrow> (msk OR S_IRWXG, mode OR push_bit 3 (ucast (ace_perm group_ce)))
                  | None \<Rightarrow> (msk, mode))) in
      (mode, ctx\<lparr>ctx_perm := (ctx_perm ctx AND NOT msk) OR mode\<rparr>))"

text \<open>\<open>ace->perm &= m | ~S_IRWXO\<close>\<close>

definition perm_restrict :: "mode_t \<Rightarrow> posix_ace \<Rightarrow> posix_ace" where
  "perm_restrict m ace = ace\<lparr>ace_perm := ace_perm ace AND ucast (m OR NOT S_IRWXO)\<rparr>"

text \<open>The loop of posix_acl_inherit_mode: it rewrites the entries and narrows the mode.\<close>

fun inherit_loop :: "posix_ace list \<Rightarrow> mode_t \<Rightarrow> posix_ace list \<times> mode_t" where
  "inherit_loop [] mode = ([], mode)"
| "inherit_loop (ace # es) mode =
     (let (ace', mode') =
        (if ace_tag ace = POSIX_ACL_USER_OBJ then
           (let ace' = perm_restrict (drop_bit 6 mode) ace in
            (ace', mode AND (push_bit 6 (ucast (ace_perm ace')) OR NOT S_IRWXU)))
         else if ace_tag ace = POSIX_ACL_OTHER then
           (let ace' = perm_restrict mode ace in
            (ace', mode AND (ucast (ace_perm ace') OR NOT S_IRWXO)))
         else (ace, mode));
          (es', mode'') = inherit_loop es mode' in
      (ace' # es', mode''))"

definition posix_acl_inherit_mode :: "posix_ace list \<Rightarrow> mode_t \<Rightarrow> mode_t \<times> posix_ace list" where
  "posix_acl_inherit_mode es modein =
     (let (es1, mode) = inherit_loop es modein;
          narrow = (\<lambda>ce. mode AND (push_bit 3 (ucast (ace_perm (perm_restrict (drop_bit 3 mode) ce))) OR NOT S_IRWXG));
          (es2, mode2) =
            (case last_ace POSIX_ACL_MASK es1 of
               Some mask_ce \<Rightarrow> (modify_last POSIX_ACL_MASK (perm_restrict (drop_bit 3 mode)) es1, narrow mask_ce)
             | None \<Rightarrow>
                 (case last_ace POSIX_ACL_GROUP_OBJ es1 of
                    Some group_ce \<Rightarrow> (modify_last POSIX_ACL_GROUP_OBJ (perm_restrict (drop_bit 3 mode)) es1, narrow group_ce)
                  | None \<Rightarrow> (es1, mode))) in
      ((modein AND (S_IFMT OR S_ISUID OR S_ISGID OR S_ISVTX)) OR (mode2 AND (S_IRWXU OR S_IRWXG OR S_IRWXO)), es2))"

text \<open>The loop of posix_acl_ctx_update over an extended ACL.\<close>

definition refresh_ace :: "mode_t \<Rightarrow> posix_ace \<Rightarrow> posix_ace" where
  "refresh_ace perm ace =
     (if ace_tag ace = POSIX_ACL_USER_OBJ then ace\<lparr>ace_perm := perm_user perm\<rparr>
      else if ace_tag ace = POSIX_ACL_OTHER then ace\<lparr>ace_perm := perm_other perm\<rparr>
      else ace)"

definition refresh_entries :: "mode_t \<Rightarrow> posix_ace list \<Rightarrow> int \<times> posix_ace list" where
  "refresh_entries perm es =
     (let es1 = map (refresh_ace perm) es in
      if last_ace POSIX_ACL_MASK es1 \<noteq> None
      then (0, modify_last POSIX_ACL_MASK (\<lambda>ce. ce\<lparr>ace_perm := perm_group perm\<rparr>) es1)
      else if last_ace POSIX_ACL_GROUP_OBJ es1 \<noteq> None
      then (0, modify_last POSIX_ACL_GROUP_OBJ (\<lambda>ce. ce\<lparr>ace_perm := perm_group perm\<rparr>) es1)
      else (-1, es1))"

definition posix_acl_ctx_update :: "addr \<Rightarrow> iatt \<Rightarrow> acl_state \<Rightarrow> int \<times> acl_state" where
  "posix_acl_ctx_update inode buf s =
     (let (ctx, s1) = posix_acl_ctx_get inode s;
          perm = st_mode_from_ia (ia_prot buf) (ia_type buf);
          s2 = s1\<lparr>ctxs := (ctxs s1)(inode \<mapsto> ctx\<lparr>ctx_uid := ia_uid buf, ctx_gid := ia_gid buf, ctx_perm := perm\<rparr>)\<rparr> in
      case ctx_access ctx of
        None \<Rightarrow> (0, s2)
      | Some acl \<Rightarrow>
          (if \<not> POSIX_ACL_MINIMAL_ACE_COUNT < length (entries_at s2 acl) then (0, s2)
           else (let (ret, es) = refresh_entries perm (entries_at s2 acl) in
                 (ret, acl_modify (\<lambda>x. x\<lparr>acl_entries := es\<rparr>) acl s2))))"

end
