(* ===== verification/Posix_Acl_Fops.thy ===== *)
theory Posix_Acl_Fops
  imports Posix_Acl
begin

unbundle bit_operations_syntax

text \<open>
  The file operations of the access-control translator (xlators/system/posix-acl/src/posix-acl.c).
  A handler either winds the call to the next translator or unwinds it to the caller; a callback
  gets the reply of the next translator and unwinds it.  Handlers and callbacks are separate
  steps, between which other calls may run.
\<close>

section \<open>Calls\<close>

text \<open>The keys the translator uses in the dictionary of a create call: umask and mode sent by
  the client (16 bits, signed), and the ACLs for the new file.\<close>

record create_params =
  cp_umask :: "u16 option"
  cp_mode :: "u16 option"
  cp_access :: "byte list option"
  cp_default :: "byte list option"

text \<open>The two ACL keys of a dictionary of extended attributes.\<close>

record xattr_dict =
  xd_access :: "byte list option"
  xd_default :: "byte list option"

datatype acl_action =
    Wind
  | Wind_create mode_t "create_params option"
  | Wind_setattr iatt
  | Unwind int int

abbreviation (input) EACCES_unwind :: acl_action where "EACCES_unwind \<equiv> Unwind (- 1) EACCES"

definition green_red :: "bool \<times> acl_state \<Rightarrow> acl_action \<times> acl_state" where
  "green_red r = (case r of (ok, s) \<Rightarrow> (if ok then Wind else EACCES_unwind, s))"

section \<open>Inheritance\<close>

definition ctx_modify :: "addr \<Rightarrow> (posix_acl_ctx \<Rightarrow> posix_acl_ctx) \<Rightarrow> acl_state \<Rightarrow> acl_state" where
  "ctx_modify inode f s = s\<lparr>ctxs := (ctxs s)(inode := map_option f (ctxs s inode))\<rparr>"

text \<open>The mode and the umask to use: those of the dictionary when the client sent them.\<close>

definition client_mode :: "mode_t \<Rightarrow> mode_t \<Rightarrow> create_params option \<Rightarrow> mode_t \<times> mode_t \<times> create_params option" where
  "client_mode mode umask params =
     (case params of
        None \<Rightarrow> (mode, umask, None)
      | Some p \<Rightarrow>
          (case cp_umask p of
             None \<Rightarrow> (mode, umask, Some p)
           | Some u \<Rightarrow>
               (case cp_mode p of
                  Some m \<Rightarrow> (scast m, scast u, Some (p\<lparr>cp_umask := None, cp_mode := None\<rparr>))
                | None \<Rightarrow> (mode, scast u, Some (p\<lparr>cp_umask := None\<rparr>)))))"

text \<open>A NULL dictionary makes dict_set_bin fail, and the ACLs are then not set on the inode.\<close>

definition posix_acl_inherit ::
  "addr \<Rightarrow> addr \<Rightarrow> create_params option \<Rightarrow> mode_t \<Rightarrow> mode_t \<Rightarrow> bool \<Rightarrow> acl_state \<Rightarrow> mode_t \<times> create_params option \<times> acl_state" where
  "posix_acl_inherit parent inode params mode umask is_dir s =
     (let (retmode, client_umask, params) = client_mode mode umask params;
          (_, par_default, s1) = posix_acl_get parent False True s in
      case par_default of
        None \<Rightarrow> (retmode AND NOT client_umask, params, s1)
      | Some pd \<Rightarrow>
          (let (_, s2) = posix_acl_ctx_get inode s1;
               (acl_access, s3) = posix_acl_dup pd s2;
               (retmode, es) = posix_acl_inherit_mode (entries_at s3 acl_access) retmode;
               s4 = acl_modify (\<lambda>x. x\<lparr>acl_entries := es\<rparr>) acl_access s3;
               s5 = ctx_modify inode (\<lambda>ctx. ctx\<lparr>ctx_perm := retmode\<rparr>) s4 in
           case params of
             None \<Rightarrow> (retmode, None, posix_acl_unref acl_access (posix_acl_unref pd s5))
           | Some p \<Rightarrow>
               (let p1 = p\<lparr>cp_access := Some (acl_xattr (entries_at s5 acl_access))\<rparr>;
                    (acl_default, p2, s6) =
                      (if is_dir
                       then (Some pd, p1\<lparr>cp_default := Some (acl_xattr (entries_at s5 pd))\<rparr>, posix_acl_ref pd s5)
                       else (None, p1, s5));
                    s7 = posix_acl_set inode (Some acl_access) acl_default s6 in
                (retmode, Some p2, unref_opt acl_default (posix_acl_unref acl_access (posix_acl_unref pd s7))))))"

definition posix_acl_inherit_dir where
  "posix_acl_inherit_dir parent inode params mode umask = posix_acl_inherit parent inode params mode umask True"

definition posix_acl_inherit_file where
  "posix_acl_inherit_file parent inode params mode umask = posix_acl_inherit parent inode params mode umask False"

section \<open>Lookup\<close>

text \<open>The pointer lookup_cbk and readdirp_cbk find for an attribute: the current ACL with one
  more reference when the attribute says the same, otherwise a new ACL.\<close>

definition lookup_acl :: "addr option \<Rightarrow> byte list option \<Rightarrow> acl_state \<Rightarrow> addr option \<times> acl_state" where
  "lookup_acl old data s =
     (case data of
        None \<Rightarrow> (None, s)
      | Some buf \<Rightarrow>
          (case old of
             Some a \<Rightarrow> if posix_acl_matches_xattr (entries_at s a) buf then (Some a, posix_acl_ref a s)
                       else posix_acl_from_xattr buf s
           | None \<Rightarrow> posix_acl_from_xattr buf s))"

definition posix_acl_lookup_cbk :: "int \<Rightarrow> int \<Rightarrow> addr \<Rightarrow> iatt \<Rightarrow> xattr_dict \<Rightarrow> acl_state \<Rightarrow> acl_action \<times> acl_state" where
  "posix_acl_lookup_cbk op_ret op_errno inode buf xattr s =
     (if op_ret \<noteq> 0 then (Unwind op_ret op_errno, s)
      else
        (let (old_access, old_default, s1) = posix_acl_get inode True True s;
             (acl_access, s2) = lookup_acl old_access (xd_access xattr) s1;
             (acl_default, s3) = lookup_acl old_default (xd_default xattr) s2;
             (_, s4) = posix_acl_ctx_update inode buf s3;
             s5 = posix_acl_set inode acl_access acl_default s4 in
         (Unwind op_ret op_errno,
          unref_opt old_default (unref_opt old_access (unref_opt acl_default (unref_opt acl_access s5))))))"

definition posix_acl_lookup :: "call_root \<Rightarrow> addr option \<Rightarrow> acl_state \<Rightarrow> acl_action \<times> acl_state" where
  "posix_acl_lookup frame parent s =
     (case parent of None \<Rightarrow> (Wind, s) | Some p \<Rightarrow> green_red (acl_permits frame p POSIX_ACL_EXECUTE s))"

section \<open>Access\<close>

text \<open>Asking for one permission on behalf of the NFS server and adding it to \<open>mode\<close> when granted.\<close>

definition access_bit :: "call_root \<Rightarrow> addr \<Rightarrow> u16 \<Rightarrow> u16 \<Rightarrow> u16 \<times> acl_state \<Rightarrow> u16 \<times> acl_state" where
  "access_bit frame inode perm b ms =
     (case ms of (mode, s) \<Rightarrow>
        if perm AND b \<noteq> 0
        then (let (ok, s1) = acl_permits frame inode b s in (if ok then mode OR b else mode, s1))
        else (mode, s))"

definition access_perm :: "u32 \<Rightarrow> u16" where
  "access_perm msk =
     (if msk AND 4 \<noteq> 0 then POSIX_ACL_READ else 0) OR
     (if msk AND 2 \<noteq> 0 then POSIX_ACL_WRITE else 0) OR
     (if msk AND 1 \<noteq> 0 then POSIX_ACL_EXECUTE else 0)"

definition posix_acl_access :: "call_root \<Rightarrow> addr \<Rightarrow> u32 \<Rightarrow> acl_state \<Rightarrow> acl_action \<times> acl_state" where
  "posix_acl_access frame inode msk s =
     (let perm = access_perm msk in
      if msk = 0 then (Unwind 0 0, s)
      else if perm = 0 then (if is_fuse_call frame then Unwind (- 1) EINVAL else Unwind 0 0, s)
      else if is_fuse_call frame then
        (let (ok, s1) = acl_permits frame inode perm s in
         (if ok then Unwind 0 0 else Unwind (- 1) EACCES, s1))
      else
        (let (mode, s1) =
           access_bit frame inode perm POSIX_ACL_EXECUTE
             (access_bit frame inode perm POSIX_ACL_WRITE
               (access_bit frame inode perm POSIX_ACL_READ (0, s))) in
         (Unwind 0 (uint mode), s1)))"

section \<open>Files\<close>

definition posix_acl_truncate where
  "posix_acl_truncate frame inode s = green_red (acl_permits frame inode POSIX_ACL_WRITE s)"

text \<open>O_APPEND and O_TRUNC are not values of \<open>flags & O_ACCMODE\<close> on Linux.\<close>

definition open_perm :: "u32 \<Rightarrow> u16" where
  "open_perm flags =
     (if flags AND 3 = 0 then (if flags AND 0x20 \<noteq> 0 then POSIX_ACL_EXECUTE else POSIX_ACL_READ)
      else if flags AND 3 = 1 then POSIX_ACL_WRITE
      else if flags AND 3 = 2 then POSIX_ACL_READ OR POSIX_ACL_WRITE
      else 0)"

definition posix_acl_open where
  "posix_acl_open frame inode flags s = green_red (acl_permits frame inode (open_perm flags) s)"

definition posix_acl_readv where
  "posix_acl_readv frame inode s = green_red (acl_permits frame inode POSIX_ACL_READ s)"

definition posix_acl_writev where
  "posix_acl_writev frame inode s = green_red (acl_permits frame inode POSIX_ACL_WRITE s)"

definition posix_acl_ftruncate where
  "posix_acl_ftruncate frame inode s = green_red (acl_permits frame inode POSIX_ACL_WRITE s)"

definition posix_acl_opendir where
  "posix_acl_opendir frame inode s = green_red (acl_permits frame inode POSIX_ACL_READ s)"

section \<open>Creation\<close>

abbreviation (input) WX :: u16 where "WX \<equiv> POSIX_ACL_WRITE OR POSIX_ACL_EXECUTE"

definition posix_acl_mkdir ::
  "call_root \<Rightarrow> addr \<Rightarrow> addr \<Rightarrow> create_params option \<Rightarrow> mode_t \<Rightarrow> mode_t \<Rightarrow> acl_state \<Rightarrow> acl_action \<times> acl_state" where
  "posix_acl_mkdir frame parent inode xdata mode umask s =
     (let (ok, s1) = acl_permits frame parent WX s in
      if ok then (let (newmode, xdata', s2) = posix_acl_inherit_dir parent inode xdata mode umask s1 in
                  (Wind_create newmode xdata', s2))
      else (EACCES_unwind, s1))"

definition posix_acl_mknod ::
  "call_root \<Rightarrow> addr \<Rightarrow> addr \<Rightarrow> create_params option \<Rightarrow> mode_t \<Rightarrow> mode_t \<Rightarrow> acl_state \<Rightarrow> acl_action \<times> acl_state" where
  "posix_acl_mknod frame parent inode xdata mode umask s =
     (let (ok, s1) = acl_permits frame parent WX s in
      if ok then (let (newmode, xdata', s2) = posix_acl_inherit_file parent inode xdata mode umask s1 in
                  (Wind_create newmode xdata', s2))
      else (EACCES_unwind, s1))"

definition posix_acl_create ::
  "call_root \<Rightarrow> addr \<Rightarrow> addr \<Rightarrow> create_params option \<Rightarrow> mode_t \<Rightarrow> mode_t \<Rightarrow> acl_state \<Rightarrow> acl_action \<times> acl_state" where
  "posix_acl_create frame parent inode xdata mode umask s =
     (let (ok, s1) = acl_permits frame parent WX s in
      if ok then (let (newmode, xdata', s2) = posix_acl_inherit_file parent inode xdata mode umask s1 in
                  (Wind_create newmode xdata', s2))
      else (EACCES_unwind, s1))"

definition posix_acl_symlink where
  "posix_acl_symlink frame parent s = green_red (acl_permits frame parent WX s)"

text \<open>The callbacks of mkdir, mknod, create, symlink, setattr and fsetattr refresh the context
  from the attributes of the reply.\<close>

definition posix_acl_mkdir_cbk :: "int \<Rightarrow> int \<Rightarrow> addr \<Rightarrow> iatt \<Rightarrow> acl_state \<Rightarrow> acl_action \<times> acl_state" where
  "posix_acl_mkdir_cbk op_ret op_errno inode buf s =
     (Unwind op_ret op_errno, if op_ret \<noteq> 0 then s else snd (posix_acl_ctx_update inode buf s))"

definition posix_acl_mknod_cbk :: "int \<Rightarrow> int \<Rightarrow> addr \<Rightarrow> iatt \<Rightarrow> acl_state \<Rightarrow> acl_action \<times> acl_state" where
  "posix_acl_mknod_cbk op_ret op_errno inode buf s =
     (Unwind op_ret op_errno, if op_ret \<noteq> 0 then s else snd (posix_acl_ctx_update inode buf s))"

definition posix_acl_create_cbk :: "int \<Rightarrow> int \<Rightarrow> addr \<Rightarrow> iatt \<Rightarrow> acl_state \<Rightarrow> acl_action \<times> acl_state" where
  "posix_acl_create_cbk op_ret op_errno inode buf s =
     (Unwind op_ret op_errno, if op_ret \<noteq> 0 then s else snd (posix_acl_ctx_update inode buf s))"

definition posix_acl_symlink_cbk :: "int \<Rightarrow> int \<Rightarrow> addr \<Rightarrow> iatt \<Rightarrow> acl_state \<Rightarrow> acl_action \<times> acl_state" where
  "posix_acl_symlink_cbk op_ret op_errno inode buf s =
     (Unwind op_ret op_errno, if op_ret \<noteq> 0 then s else snd (posix_acl_ctx_update inode buf s))"

section \<open>Removal and links\<close>

definition posix_acl_unlink :: "call_root \<Rightarrow> addr \<Rightarrow> addr \<Rightarrow> acl_state \<Rightarrow> acl_action \<times> acl_state" where
  "posix_acl_unlink frame parent inode s =
     (let (ok, s1) = sticky_permits frame parent inode s in
      if \<not> ok then (EACCES_unwind, s1) else green_red (acl_permits frame parent WX s1))"

definition posix_acl_rmdir :: "call_root \<Rightarrow> addr \<Rightarrow> addr \<Rightarrow> acl_state \<Rightarrow> acl_action \<times> acl_state" where
  "posix_acl_rmdir frame parent inode s =
     (let (ok, s1) = sticky_permits frame parent inode s in
      if \<not> ok then (EACCES_unwind, s1) else green_red (acl_permits frame parent WX s1))"

definition posix_acl_rename :: "call_root \<Rightarrow> addr \<Rightarrow> addr \<Rightarrow> addr \<Rightarrow> addr option \<Rightarrow> acl_state \<Rightarrow> acl_action \<times> acl_state" where
  "posix_acl_rename frame old_parent old_inode new_parent new_inode s =
     (let (ok1, s1) = acl_permits frame old_parent POSIX_ACL_WRITE s in
      if \<not> ok1 then (EACCES_unwind, s1)
      else
        (let (ok2, s2) = acl_permits frame new_parent POSIX_ACL_WRITE s1 in
         if \<not> ok2 then (EACCES_unwind, s2)
         else
           (let (ok3, s3) = sticky_permits frame old_parent old_inode s2 in
            if \<not> ok3 then (EACCES_unwind, s3)
            else (case new_inode of
                    None \<Rightarrow> (Wind, s3)
                  | Some i \<Rightarrow> green_red (sticky_permits frame new_parent i s3)))))"

definition posix_acl_link :: "call_root \<Rightarrow> addr \<Rightarrow> addr \<Rightarrow> addr \<Rightarrow> acl_state \<Rightarrow> acl_action \<times> acl_state" where
  "posix_acl_link frame old_inode new_parent new_inode s =
     (let (_, s0) = posix_acl_ctx_get old_inode s;
          (ok, s1) = acl_permits frame new_parent POSIX_ACL_WRITE s0 in
      if \<not> ok then (EACCES_unwind, s1) else green_red (sticky_permits frame new_parent new_inode s1))"

section \<open>Directories\<close>

definition posix_acl_readdir where
  "posix_acl_readdir frame inode s = green_red (acl_permits frame inode POSIX_ACL_READ s)"

definition posix_acl_readdirp where
  "posix_acl_readdirp frame inode s = green_red (acl_permits frame inode POSIX_ACL_READ s)"

text \<open>One pointer of readdirp_cbk: kept without data or when the attribute says the same,
  otherwise dropped and made anew.\<close>

definition readdirp_acl :: "addr option \<Rightarrow> byte list option \<Rightarrow> acl_state \<Rightarrow> addr option \<times> acl_state" where
  "readdirp_acl acl data s =
     (case data of
        None \<Rightarrow> (acl, s)
      | Some buf \<Rightarrow>
          (if (case acl of None \<Rightarrow> False | Some a \<Rightarrow> posix_acl_matches_xattr (entries_at s a) buf) then (acl, s)
           else posix_acl_from_xattr buf (unref_opt acl s)))"

type_synonym dirent = "xattr_dict option \<times> addr option \<times> iatt"

definition readdirp_entry :: "dirent \<Rightarrow> acl_state \<Rightarrow> acl_state" where
  "readdirp_entry entry s =
     (case entry of
        (Some dict, Some inode, d_stat) \<Rightarrow>
          (let (acl_access, acl_default, s1) = posix_acl_get inode True True s;
               (acl_access, s2) = readdirp_acl acl_access (xd_access dict) s1;
               (acl_default, s3) = readdirp_acl acl_default (xd_default dict) s2;
               (_, s4) = posix_acl_ctx_update inode d_stat s3;
               s5 = posix_acl_set inode acl_access acl_default s4 in
           unref_opt acl_default (unref_opt acl_access s5))
      | _ \<Rightarrow> s)"

definition posix_acl_readdirp_cbk :: "int \<Rightarrow> int \<Rightarrow> dirent list \<Rightarrow> acl_state \<Rightarrow> acl_action \<times> acl_state" where
  "posix_acl_readdirp_cbk op_ret op_errno entries s =
     (Unwind op_ret op_errno, if op_ret \<le> 0 then s else fold readdirp_entry entries s)"

section \<open>Attributes\<close>

abbreviation (input) GF_SET_ATTR_MODE :: u32 where "GF_SET_ATTR_MODE \<equiv> 0x1"
abbreviation (input) GF_SET_ATTR_UID :: u32 where "GF_SET_ATTR_UID \<equiv> 0x2"
abbreviation (input) GF_SET_ATTR_GID :: u32 where "GF_SET_ATTR_GID \<equiv> 0x4"
abbreviation (input) GF_SET_ATTR_ATIME :: u32 where "GF_SET_ATTR_ATIME \<equiv> 0x10"
abbreviation (input) GF_SET_ATTR_MTIME :: u32 where "GF_SET_ATTR_MTIME \<equiv> 0x20"

text \<open>The errno (0 when allowed), the attributes with the set-group-id bit possibly cleared.\<close>

definition setattr_scrutiny :: "call_root \<Rightarrow> addr \<Rightarrow> iatt \<Rightarrow> u32 \<Rightarrow> acl_state \<Rightarrow> int \<times> iatt \<times> acl_state" where
  "setattr_scrutiny frame inode buf valid s =
     (if frame_is_super_user s frame then (0, buf, s)
      else
        (let (ctx, s1) = posix_acl_ctx_get inode s;
             has = (\<lambda>b. valid AND b \<noteq> 0);
             own = frame_is_user frame (ctx_uid ctx) in
         if has GF_SET_ATTR_MODE \<and> \<not> own then (EPERM, buf, s1)
         else
           (let buf1 = (if has GF_SET_ATTR_MODE \<and> \<not> frame_in_group frame (ctx_gid ctx)
                        then buf\<lparr>ia_prot := (ia_prot buf)\<lparr>sgid := False\<rparr>\<rparr> else buf);
                (times_ok, s2) = (if has (GF_SET_ATTR_ATIME OR GF_SET_ATTR_MTIME) \<and> \<not> own
                                  then acl_permits frame inode POSIX_ACL_WRITE s1 else (True, s1)) in
            if \<not> times_ok then (EACCES, buf1, s2)
            else if has GF_SET_ATTR_UID \<and> \<not> frame_is_super_user s2 frame \<and> ia_uid buf1 \<noteq> ctx_uid ctx
            then (EPERM, buf1, s2)
            else if has GF_SET_ATTR_GID \<and> (\<not> own \<or> \<not> frame_in_group frame (ia_gid buf1))
            then (EPERM, buf1, s2)
            else (0, buf1, s2))))"

definition posix_acl_setattr :: "call_root \<Rightarrow> addr \<Rightarrow> iatt \<Rightarrow> u32 \<Rightarrow> acl_state \<Rightarrow> acl_action \<times> acl_state" where
  "posix_acl_setattr frame inode buf valid s =
     (let (op_errno, buf', s1) = setattr_scrutiny frame inode buf valid s in
      if op_errno \<noteq> 0 then (Unwind (- 1) op_errno, s1) else (Wind_setattr buf', s1))"

definition posix_acl_setattr_cbk :: "int \<Rightarrow> int \<Rightarrow> addr \<Rightarrow> iatt \<Rightarrow> acl_state \<Rightarrow> acl_action \<times> acl_state" where
  "posix_acl_setattr_cbk op_ret op_errno inode postbuf s =
     (Unwind op_ret op_errno, if op_ret \<noteq> 0 then s else snd (posix_acl_ctx_update inode postbuf s))"

definition posix_acl_fsetattr :: "call_root \<Rightarrow> addr \<Rightarrow> iatt \<Rightarrow> u32 \<Rightarrow> acl_state \<Rightarrow> acl_action \<times> acl_state" where
  "posix_acl_fsetattr frame inode buf valid s =
     (let (op_errno, buf', s1) = setattr_scrutiny frame inode buf valid s in
      if op_errno \<noteq> 0 then (EACCES_unwind, s1) else (Wind_setattr buf', s1))"

definition posix_acl_fsetattr_cbk :: "int \<Rightarrow> int \<Rightarrow> addr \<Rightarrow> iatt \<Rightarrow> acl_state \<Rightarrow> acl_action \<times> acl_state" where
  "posix_acl_fsetattr_cbk op_ret op_errno inode postbuf s =
     (Unwind op_ret op_errno, if op_ret \<noteq> 0 then s else snd (posix_acl_ctx_update inode postbuf s))"

section \<open>Extended attributes\<close>

definition setxattr_scrutiny :: "call_root \<Rightarrow> addr \<Rightarrow> xattr_dict \<Rightarrow> acl_state \<Rightarrow> int \<times> acl_state" where
  "setxattr_scrutiny frame inode xattr s =
     (if frame_is_super_user s frame then (0, s)
      else
        (let (ctx, s1) = posix_acl_ctx_get inode s;
             found = (xd_access xattr \<noteq> None \<or> xd_default xattr \<noteq> None) in
         if found \<and> \<not> frame_is_user frame (ctx_uid ctx) then (EPERM, s1)
         else if \<not> found then
           (let (ok, s2) = acl_permits frame inode POSIX_ACL_WRITE s1 in (if ok then 0 else EACCES, s2))
         else (0, s1)))"

definition posix_acl_xattr_update :: "byte list option \<Rightarrow> addr option \<Rightarrow> acl_state \<Rightarrow> addr option \<times> acl_state" where
  "posix_acl_xattr_update data old s =
     (let (acl, s1) = (case data of None \<Rightarrow> (None, s) | Some buf \<Rightarrow> posix_acl_from_xattr buf s) in
      case acl of
        Some a \<Rightarrow> (Some a, s1)
      | None \<Rightarrow> (old, ref_opt old s1))"

definition posix_acl_setxattr_update :: "addr \<Rightarrow> xattr_dict \<Rightarrow> acl_state \<Rightarrow> acl_state" where
  "posix_acl_setxattr_update inode xattr s =
     (let (_, s0) = posix_acl_ctx_get inode s;
          (old_access, old_default, s1) = posix_acl_get inode True True s0;
          (acl_access, s2) = posix_acl_xattr_update (xd_access xattr) old_access s1;
          (acl_default, s3) = posix_acl_xattr_update (xd_default xattr) old_default s2;
          s4 = posix_acl_set inode acl_access acl_default s3;
          s5 = (case acl_access of
                  Some a \<Rightarrow> if acl_access \<noteq> old_access
                            then ctx_modify inode (\<lambda>ctx. snd (posix_acl_access_set_mode (entries_at s4 a) ctx)) s4
                            else s4
                | None \<Rightarrow> s4) in
      unref_opt old_default (unref_opt old_access (unref_opt acl_default (unref_opt acl_access s5))))"

definition posix_acl_setxattr :: "call_root \<Rightarrow> addr \<Rightarrow> xattr_dict \<Rightarrow> acl_state \<Rightarrow> acl_action \<times> acl_state" where
  "posix_acl_setxattr frame inode xattr s =
     (let (op_errno, s1) = setxattr_scrutiny frame inode xattr s in
      if op_errno \<noteq> 0 then (Unwind (- 1) op_errno, s1)
      else (Wind, posix_acl_setxattr_update inode xattr s1))"

definition posix_acl_fsetxattr :: "call_root \<Rightarrow> addr \<Rightarrow> xattr_dict \<Rightarrow> acl_state \<Rightarrow> acl_action \<times> acl_state" where
  "posix_acl_fsetxattr frame inode xattr s =
     (let (op_errno, s1) = setxattr_scrutiny frame inode xattr s in
      if op_errno \<noteq> 0 then (Unwind (- 1) op_errno, s1)
      else (Wind, posix_acl_setxattr_update inode xattr s1))"

definition whitelisted_xattr :: "string option \<Rightarrow> bool" where
  "whitelisted_xattr key \<longleftrightarrow>
     key = Some ''system.posix_acl_access'' \<or> key = Some ''system.posix_acl_default''"

definition posix_acl_getxattr :: "call_root \<Rightarrow> addr \<Rightarrow> string option \<Rightarrow> acl_state \<Rightarrow> acl_action \<times> acl_state" where
  "posix_acl_getxattr frame inode name s =
     (if whitelisted_xattr name then (Wind, s) else green_red (acl_permits frame inode POSIX_ACL_READ s))"

definition posix_acl_fgetxattr :: "call_root \<Rightarrow> addr \<Rightarrow> string option \<Rightarrow> acl_state \<Rightarrow> acl_action \<times> acl_state" where
  "posix_acl_fgetxattr frame inode name s =
     (if whitelisted_xattr name then (Wind, s) else green_red (acl_permits frame inode POSIX_ACL_READ s))"

definition posix_acl_removexattr :: "call_root \<Rightarrow> addr \<Rightarrow> string option \<Rightarrow> acl_state \<Rightarrow> acl_action \<times> acl_state" where
  "posix_acl_removexattr frame inode name s =
     (if frame_is_super_user s frame then (Wind, s)
      else
        (let (ctx, s1) = posix_acl_ctx_get inode s in
         if whitelisted_xattr name \<and> \<not> frame_is_user frame (ctx_uid ctx) then (Unwind (- 1) EPERM, s1)
         else green_red (acl_permits frame inode POSIX_ACL_WRITE s1)))"

section \<open>Life cycle\<close>

definition posix_acl_forget :: "addr \<Rightarrow> acl_state \<Rightarrow> acl_state" where
  "posix_acl_forget inode s =
     (let (ctx, s1) = posix_acl_ctx_get inode s;
          s2 = unref_opt (ctx_default ctx) (unref_opt (ctx_access ctx) s1) in
      s2\<lparr>ctxs := (ctxs s2)(inode := None)\<rparr>)"

text \<open>The value of the option super-uid; None when it does not parse.\<close>

definition posix_acl_reconfigure :: "nat option \<Rightarrow> acl_state \<Rightarrow> int \<times> acl_state" where
  "posix_acl_reconfigure opt s =
     (case opt of Some uid \<Rightarrow> (0, s\<lparr>super_uid := uid\<rparr>) | None \<Rightarrow> (- 1, s))"

definition minimal_entries :: "posix_ace list" where
  "minimal_entries = map (\<lambda>t. \<lparr>ace_tag = t, ace_perm = 0, ace_id = 0\<rparr>)
     [POSIX_ACL_USER_OBJ, POSIX_ACL_GROUP_OBJ, POSIX_ACL_OTHER]"

definition posix_acl_init :: "nat \<Rightarrow> acl_state" where
  "posix_acl_init uid =
     (let (minacl, s) = posix_acl_new minimal_entries
            \<lparr>super_uid = uid, minimal_acl = NULL, acls = Map.empty, acl_brk = 1, ctxs = Map.empty\<rparr> in
      s\<lparr>minimal_acl := minacl\<rparr>)"

definition posix_acl_fini :: "acl_state \<Rightarrow> acl_state" where
  "posix_acl_fini s = (posix_acl_destroy (minimal_acl s) s)\<lparr>minimal_acl := NULL\<rparr>"

section \<open>The table of operations\<close>

text \<open>The calls of struct xlator_fops with the arguments the handlers use.  The descriptor
  operations readv, writev, ftruncate, fsetattr, fsetxattr and fgetxattr stand in it only when
  FD_MODE_CHECK_IS_IMPLEMENTED is defined, which it is nowhere.\<close>

datatype acl_call =
    Lookup "addr option"
  | Access addr u32
  | Open addr u32
  | Truncate addr
  | Opendir addr
  | Mkdir addr addr "create_params option" mode_t mode_t
  | Mknod addr addr "create_params option" mode_t mode_t
  | Create addr addr "create_params option" mode_t mode_t
  | Symlink addr
  | Unlink addr addr
  | Rmdir addr addr
  | Rename addr addr addr "addr option"
  | Link addr addr addr
  | Readdir addr
  | Readdirp addr
  | Setattr addr iatt u32
  | Setxattr addr xattr_dict
  | Getxattr addr "string option"
  | Removexattr addr "string option"

fun acl_fops :: "acl_call \<Rightarrow> call_root \<Rightarrow> acl_state \<Rightarrow> acl_action \<times> acl_state" where
  "acl_fops (Lookup parent) frame s = posix_acl_lookup frame parent s"
| "acl_fops (Access inode msk) frame s = posix_acl_access frame inode msk s"
| "acl_fops (Open inode flags) frame s = posix_acl_open frame inode flags s"
| "acl_fops (Truncate inode) frame s = posix_acl_truncate frame inode s"
| "acl_fops (Opendir inode) frame s = posix_acl_opendir frame inode s"
| "acl_fops (Mkdir parent inode xdata mode umask) frame s = posix_acl_mkdir frame parent inode xdata mode umask s"
| "acl_fops (Mknod parent inode xdata mode umask) frame s = posix_acl_mknod frame parent inode xdata mode umask s"
| "acl_fops (Create parent inode xdata mode umask) frame s = posix_acl_create frame parent inode xdata mode umask s"
| "acl_fops (Symlink parent) frame s = posix_acl_symlink frame parent s"
| "acl_fops (Unlink parent inode) frame s = posix_acl_unlink frame parent inode s"
| "acl_fops (Rmdir parent inode) frame s = posix_acl_rmdir frame parent inode s"
| "acl_fops (Rename op oi np ni) frame s = posix_acl_rename frame op oi np ni s"
| "acl_fops (Link oi np ni) frame s = posix_acl_link frame oi np ni s"
| "acl_fops (Readdir inode) frame s = posix_acl_readdir frame inode s"
| "acl_fops (Readdirp inode) frame s = posix_acl_readdirp frame inode s"
| "acl_fops (Setattr inode buf valid) frame s = posix_acl_setattr frame inode buf valid s"
| "acl_fops (Setxattr inode xattr) frame s = posix_acl_setxattr frame inode xattr s"
| "acl_fops (Getxattr inode name) frame s = posix_acl_getxattr frame inode name s"
| "acl_fops (Removexattr inode name) frame s = posix_acl_removexattr frame inode name s"

text \<open>The states of a running translator: calls and forgets of inodes come from above, replies
  of the next translator may be anything, and the super-user option may change.\<close>

inductive acl_reachable :: "acl_state \<Rightarrow> bool" where
  init: "acl_reachable (posix_acl_init uid)"
| call: "acl_reachable s \<Longrightarrow> acl_reachable (snd (acl_fops call frame s))"
| lookup_reply: "acl_reachable s \<Longrightarrow> acl_reachable (snd (posix_acl_lookup_cbk ret err inode buf xattr s))"
| readdirp_reply: "acl_reachable s \<Longrightarrow> acl_reachable (snd (posix_acl_readdirp_cbk ret err entries s))"
| mkdir_reply: "acl_reachable s \<Longrightarrow> acl_reachable (snd (posix_acl_mkdir_cbk ret err inode buf s))"
| mknod_reply: "acl_reachable s \<Longrightarrow> acl_reachable (snd (posix_acl_mknod_cbk ret err inode buf s))"
| create_reply: "acl_reachable s \<Longrightarrow> acl_reachable (snd (posix_acl_create_cbk ret err inode buf s))"
| symlink_reply: "acl_reachable s \<Longrightarrow> acl_reachable (snd (posix_acl_symlink_cbk ret err inode buf s))"
| setattr_reply: "acl_reachable s \<Longrightarrow> acl_reachable (snd (posix_acl_setattr_cbk ret err inode buf s))"
| forget: "acl_reachable s \<Longrightarrow> acl_reachable (posix_acl_forget inode s)"
| reconfigure: "acl_reachable s \<Longrightarrow> acl_reachable (snd (posix_acl_reconfigure opt s))"

end
