(* ===== verification/Posix_Acl_Refs.thy ===== *)
theory Posix_Acl_Refs
  imports Posix_Acl_Fops
begin

text \<open>
  Reference counts of the access-control translator.  \<open>acl_inv H s\<close> says that every ACL object
  in the store has as many references as there are pointers to it from inode contexts, from the
  translator's private data and from the local variables \<open>H\<close> of the running operation, that an
  object without pointers is gone, and that the access ACL of an inode is pointed to by that
  inode only, so that writing to its entries changes no other inode.
\<close>

section \<open>The invariant\<close>

definition refs_of :: "posix_acl_ctx \<Rightarrow> addr \<Rightarrow> int" where
  "refs_of ctx a = of_bool (ctx_access ctx = Some a) + of_bool (ctx_default ctx = Some a)"

definition ctx_refs :: "(addr \<Rightarrow> posix_acl_ctx option) \<Rightarrow> addr \<Rightarrow> int" where
  "ctx_refs cs a = (\<Sum>i \<in> dom cs. refs_of (the (cs i)) a)"

definition acl_total :: "addr multiset \<Rightarrow> acl_state \<Rightarrow> addr \<Rightarrow> int" where
  "acl_total H s a = ctx_refs (ctxs s) a + of_bool (a = minimal_acl s) + int (count H a)"

definition acl_counted :: "addr multiset \<Rightarrow> acl_state \<Rightarrow> addr \<Rightarrow> bool" where
  "acl_counted H s a =
     (case acls s a of None \<Rightarrow> acl_total H s a = 0
      | Some acl \<Rightarrow> acl_refcnt acl = acl_total H s a \<and> 0 < acl_total H s a)"

text \<open>The pointers of an inode; NULL when it has no context.\<close>

definition access_ptr :: "acl_state \<Rightarrow> addr \<Rightarrow> addr option" where
  "access_ptr s i = (case ctxs s i of None \<Rightarrow> None | Some c \<Rightarrow> ctx_access c)"

definition default_ptr :: "acl_state \<Rightarrow> addr \<Rightarrow> addr option" where
  "default_ptr s i = (case ctxs s i of None \<Rightarrow> None | Some c \<Rightarrow> ctx_default c)"

definition acl_private :: "acl_state \<Rightarrow> addr \<Rightarrow> addr \<Rightarrow> bool" where
  "acl_private s a i \<longleftrightarrow> a \<noteq> minimal_acl s \<and>
     (\<forall>j. default_ptr s j \<noteq> Some a \<and> (j \<noteq> i \<longrightarrow> access_ptr s j \<noteq> Some a))"

definition no_access :: "acl_state \<Rightarrow> addr \<Rightarrow> bool" where
  "no_access s a \<longleftrightarrow> (\<forall>j. access_ptr s j \<noteq> Some a)"

definition access_private :: "acl_state \<Rightarrow> bool" where
  "access_private s \<longleftrightarrow> (\<forall>i a. access_ptr s i = Some a \<longrightarrow> acl_private s a i)"

definition acl_inv :: "addr multiset \<Rightarrow> acl_state \<Rightarrow> bool" where
  "acl_inv H s \<longleftrightarrow> finite (dom (ctxs s)) \<and> (\<forall>a. acl_counted H s a) \<and>
     (\<forall>a \<ge> acl_brk s. acls s a = None) \<and> access_private s"

definition opt_mset :: "addr option \<Rightarrow> addr multiset" where
  "opt_mset p = (case p of None \<Rightarrow> {#} | Some a \<Rightarrow> {#a#})"

lemma opt_mset_simps [simp]: "opt_mset None = {#}" "opt_mset (Some a) = {#a#}"
  by (simp_all add: opt_mset_def)

section \<open>Fields the primitives leave alone\<close>

lemma frame_simps [simp]:
  "ctxs (acl_modify f a s) = ctxs s" "minimal_acl (acl_modify f a s) = minimal_acl s"
  "acl_brk (acl_modify f a s) = acl_brk s" "super_uid (acl_modify f a s) = super_uid s"
  "ctxs (posix_acl_ref a s) = ctxs s" "minimal_acl (posix_acl_ref a s) = minimal_acl s"
  "acl_brk (posix_acl_ref a s) = acl_brk s" "super_uid (posix_acl_ref a s) = super_uid s"
  "ctxs (posix_acl_unref a s) = ctxs s" "minimal_acl (posix_acl_unref a s) = minimal_acl s"
  "acl_brk (posix_acl_unref a s) = acl_brk s" "super_uid (posix_acl_unref a s) = super_uid s"
  "ctxs (ref_opt p s) = ctxs s" "minimal_acl (ref_opt p s) = minimal_acl s"
  "super_uid (ref_opt p s) = super_uid s"
  "ctxs (unref_opt p s) = ctxs s" "minimal_acl (unref_opt p s) = minimal_acl s"
  "super_uid (unref_opt p s) = super_uid s"
  by (simp_all add: acl_modify_def posix_acl_ref_def posix_acl_unref_def posix_acl_destroy_def ref_opt_def
      unref_opt_def Let_def split: option.split)

lemma ptr_cong:
  assumes "ctxs s' = ctxs s"
  shows "access_ptr s' = access_ptr s" "default_ptr s' = default_ptr s"
  using assms by (auto simp: access_ptr_def default_ptr_def fun_eq_iff)

lemma private_cong:
  assumes "access_ptr s' = access_ptr s" "default_ptr s' = default_ptr s" "minimal_acl s' = minimal_acl s"
  shows "acl_private s' = acl_private s" "no_access s' = no_access s" "access_private s' = access_private s"
  using assms by (simp_all add: acl_private_def no_access_def access_private_def fun_eq_iff)

lemma total_cong:
  "ctxs s' = ctxs s \<Longrightarrow> minimal_acl s' = minimal_acl s \<Longrightarrow> acl_total H s' a = acl_total H s a"
  by (simp add: acl_total_def)

lemma frame_private [simp]:
  "acl_private (posix_acl_ref a s) = acl_private s" "no_access (posix_acl_ref a s) = no_access s"
  "acl_private (posix_acl_unref a s) = acl_private s" "no_access (posix_acl_unref a s) = no_access s"
  "acl_private (ref_opt p s) = acl_private s" "no_access (ref_opt p s) = no_access s"
  "acl_private (unref_opt p s) = acl_private s" "no_access (unref_opt p s) = no_access s"
  "acl_private (acl_modify f a s) = acl_private s" "no_access (acl_modify f a s) = no_access s"
  by (intro private_cong ptr_cong; simp)+

lemma ctx_refs_nonneg: "0 \<le> ctx_refs cs a"
  by (auto simp: ctx_refs_def refs_of_def intro: sum_nonneg)

lemma ctx_refs_update:
  assumes "finite (dom cs)"
  shows "ctx_refs (cs(i \<mapsto> c)) a =
    ctx_refs cs a - (case cs i of None \<Rightarrow> 0 | Some c0 \<Rightarrow> refs_of c0 a) + refs_of c a"
proof -
  have same: "(\<Sum>j \<in> dom cs - {i}. refs_of (the ((cs(i \<mapsto> c)) j)) a) = (\<Sum>j \<in> dom cs - {i}. refs_of (the (cs j)) a)"
    by (rule sum.cong) auto
  have new: "ctx_refs (cs(i \<mapsto> c)) a = refs_of c a + (\<Sum>j \<in> dom cs - {i}. refs_of (the (cs j)) a)"
    unfolding ctx_refs_def using assms same by (simp add: sum.insert_remove)
  show ?thesis
  proof (cases "cs i")
    case None
    then have "dom cs - {i} = dom cs" by auto
    then show ?thesis using new None by (simp add: ctx_refs_def)
  next
    case (Some c0)
    then have "i \<in> dom cs" by auto
    then show ?thesis using new Some assms by (simp add: ctx_refs_def sum.remove)
  qed
qed

lemma ctx_refs_delete:
  assumes "finite (dom cs)"
  shows "ctx_refs (cs(i := None)) a = ctx_refs cs a - (case cs i of None \<Rightarrow> 0 | Some c0 \<Rightarrow> refs_of c0 a)"
proof (cases "cs i")
  case None
  then show ?thesis by (simp add: fun_upd_idem)
next
  case (Some c0)
  then have "i \<in> dom cs" by auto
  moreover have "(\<Sum>j \<in> dom cs - {i}. refs_of (the ((cs(i := None)) j)) a) = (\<Sum>j \<in> dom cs - {i}. refs_of (the (cs j)) a)"
    by (rule sum.cong) auto
  ultimately show ?thesis using Some assms by (simp add: ctx_refs_def sum.remove)
qed

lemma refs_of_opt: "refs_of c a = int (count (opt_mset (ctx_access c) + opt_mset (ctx_default c)) a)"
  by (auto simp: refs_of_def opt_mset_def split: option.split)

section \<open>Primitives\<close>

lemma acl_inv_alive:
  assumes "acl_inv H s" "a \<in># H \<or> a = minimal_acl s \<or>
    (\<exists>i. access_ptr s i = Some a \<or> default_ptr s i = Some a)"
  shows "\<exists>acl. acls s a = Some acl \<and> 0 < acl_refcnt acl"
proof -
  have fin: "finite (dom (ctxs s))" and cnt: "acl_counted H s a"
    using assms(1) by (auto simp: acl_inv_def)
  have "0 < acl_total H s a"
  proof (cases "a \<in># H \<or> a = minimal_acl s")
    case True
    then have "0 < of_bool (a = minimal_acl s) + int (count H a)" by (auto simp: count_greater_zero_iff)
    then show ?thesis using ctx_refs_nonneg [of "ctxs s" a] by (simp add: acl_total_def)
  next
    case False
    then obtain i c where c: "ctxs s i = Some c" "ctx_access c = Some a \<or> ctx_default c = Some a"
      using assms(2) by (auto simp: access_ptr_def default_ptr_def split: option.splits)
    then have "0 < refs_of c a" by (auto simp: refs_of_def)
    moreover have "refs_of c a \<le> ctx_refs (ctxs s) a"
      unfolding ctx_refs_def
      using c(1) fin member_le_sum [of i "dom (ctxs s)" "\<lambda>i. refs_of (the (ctxs s i)) a"]
      by (auto simp: refs_of_def domI)
    ultimately show ?thesis using False by (simp add: acl_total_def)
  qed
  then show ?thesis using cnt by (auto simp: acl_counted_def split: option.splits)
qed

lemma acl_inv_counted: "acl_inv H s \<Longrightarrow> acl_counted H s a"
  by (simp add: acl_inv_def)

lemma acl_counted_cong:
  "acls s' a = acls s a \<Longrightarrow> acl_total H' s' a = acl_total H s a \<Longrightarrow> acl_counted H' s' a = acl_counted H s a"
  by (simp add: acl_counted_def split: option.split)

text \<open>A step that changes only the store of objects.\<close>

lemma acl_inv_store:
  assumes "acl_inv H s" "ctxs s' = ctxs s" "minimal_acl s' = minimal_acl s"
    "\<And>a. acl_counted H' s' a" "\<And>a. acl_brk s' \<le> a \<Longrightarrow> acls s' a = None"
  shows "acl_inv H' s'"
  using assms by (simp add: acl_inv_def private_cong [of s' s] ptr_cong [of s' s])

lemma acls_modify: "acls (acl_modify f a s) b = (if b = a then map_option f (acls s a) else acls s b)"
  by (simp add: acl_modify_def)

lemma acl_inv_modify_entries:
  assumes inv: "acl_inv H s" and keep: "\<And>x. acl_refcnt (f x) = acl_refcnt x"
  shows "acl_inv H (acl_modify f a s)"
proof (rule acl_inv_store [OF inv])
  fix b
  show "acl_counted H (acl_modify f a s) b"
    using acl_inv_counted [OF inv, of b] keep
    by (auto simp: acl_counted_def acls_modify total_cong [of "acl_modify f a s" s] split: option.splits)
  show "acls (acl_modify f a s) b = None" if "acl_brk (acl_modify f a s) \<le> b"
    using that inv by (auto simp: acls_modify acl_inv_def)
qed simp_all

lemma acl_inv_ref:
  assumes inv: "acl_inv H s" and alive: "\<exists>acl. acls s a = Some acl"
  shows "acl_inv (add_mset a H) (posix_acl_ref a s)"
proof (rule acl_inv_store [OF inv])
  fix b
  have t: "acl_total (add_mset a H) (posix_acl_ref a s) b = acl_total H s b + of_bool (b = a)"
    by (simp add: acl_total_def)
  show "acl_counted (add_mset a H) (posix_acl_ref a s) b"
    using acl_inv_counted [OF inv, of b] alive unfolding acl_counted_def t
    by (auto simp: posix_acl_ref_def acls_modify split: option.splits)
  show "acls (posix_acl_ref a s) b = None" if "acl_brk (posix_acl_ref a s) \<le> b"
    using that inv by (auto simp: posix_acl_ref_def acls_modify acl_inv_def)
qed simp_all

lemma acls_unref:
  "acls s a = Some acl \<Longrightarrow>
   acls (posix_acl_unref a s) b =
     (if b = a then (if acl_refcnt acl = 1 then None else Some (acl\<lparr>acl_refcnt := acl_refcnt acl - 1\<rparr>)) else acls s b)"
  by (simp add: posix_acl_unref_def posix_acl_destroy_def acls_modify Let_def)

lemma acl_inv_unref:
  assumes inv: "acl_inv (add_mset a H) s"
  shows "acl_inv H (posix_acl_unref a s)"
proof (rule acl_inv_store [OF inv])
  fix b
  obtain acl where a: "acls s a = Some acl" using acl_inv_alive [OF inv, of a] by auto
  have t: "acl_total (add_mset a H) s b = acl_total H s b + of_bool (b = a)"
    "acl_total H (posix_acl_unref a s) b = acl_total H s b"
    by (simp_all add: acl_total_def)
  have nn: "0 \<le> acl_total H s b" using ctx_refs_nonneg by (simp add: acl_total_def)
  show "acl_counted H (posix_acl_unref a s) b"
    using acl_inv_counted [OF inv, of b] a nn unfolding acl_counted_def t acls_unref [OF a]
    by (auto split: option.splits)
  show "acls (posix_acl_unref a s) b = None" if "acl_brk (posix_acl_unref a s) \<le> b"
    using that inv a by (auto simp: acls_unref [OF a] acl_inv_def)
qed simp_all

lemma acl_inv_ref_opt:
  assumes "acl_inv H s" "\<And>a. p = Some a \<Longrightarrow> \<exists>acl. acls s a = Some acl"
  shows "acl_inv (opt_mset p + H) (ref_opt p s)"
  using assms by (auto simp: ref_opt_def acl_inv_ref split: option.split)

lemma acl_inv_unref_opt:
  assumes "acl_inv (opt_mset p + H) s"
  shows "acl_inv H (unref_opt p s)"
  using assms by (auto simp: unref_opt_def acl_inv_unref split: option.split)


lemma acl_inv_new:
  assumes inv: "acl_inv H s" and new: "posix_acl_new es s = (a, s')"
  shows "acl_inv (add_mset a H) s'" "acls s' a = Some \<lparr>acl_refcnt = 1, acl_entries = es\<rparr>"
    "acls s a = None" "\<And>b. b \<noteq> a \<Longrightarrow> acls s' b = acls s b"
    "ctxs s' = ctxs s" "minimal_acl s' = minimal_acl s" "super_uid s' = super_uid s"
proof -
  have a: "a = acl_brk s" and s': "s' = posix_acl_ref a (s\<lparr>acls := (acls s)(a \<mapsto> \<lparr>acl_refcnt = 0, acl_entries = es\<rparr>), acl_brk := a + 1\<rparr>)"
    using new by (auto simp: posix_acl_new_def Let_def)
  have at: "acls s' b = (if b = a then Some \<lparr>acl_refcnt = 1, acl_entries = es\<rparr> else acls s b)" for b
    by (simp add: s' posix_acl_ref_def acls_modify)
  show fresh: "acls s a = None" using inv a by (simp add: acl_inv_def)
  show "acls s' a = Some \<lparr>acl_refcnt = 1, acl_entries = es\<rparr>" "\<And>b. b \<noteq> a \<Longrightarrow> acls s' b = acls s b"
    by (simp_all add: at)
  show c: "ctxs s' = ctxs s" "minimal_acl s' = minimal_acl s" "super_uid s' = super_uid s"
    by (simp_all add: s')
  show "acl_inv (add_mset a H) s'"
  proof (rule acl_inv_store [OF inv c(1,2)])
    fix b
    have t: "acl_total (add_mset a H) s' b = acl_total H s b + of_bool (b = a)"
      by (simp add: acl_total_def c)
    show "acl_counted (add_mset a H) s' b"
      using acl_inv_counted [OF inv, of b] fresh unfolding acl_counted_def t at
      by (auto split: option.splits)
    show "acls s' b = None" if "acl_brk s' \<le> b"
      using that inv a unfolding at by (simp add: s' acl_inv_def)
  qed
qed

text \<open>An object that was not in the store is not pointed to.\<close>

lemma fresh_private:
  assumes inv: "acl_inv H s" and fresh: "acls s a = None"
  shows "acl_private s a i" "no_access s a" "a \<notin># H"
  using acl_inv_alive [OF inv, of a] fresh by (auto simp: acl_private_def no_access_def)

section \<open>Contexts\<close>

text \<open>A context whose pointers do not change.\<close>

lemma acl_inv_ctx:
  assumes inv: "acl_inv H s" and c: "ctx_access c = access_ptr s i" "ctx_default c = default_ptr s i"
  shows "acl_inv H (s\<lparr>ctxs := (ctxs s)(i \<mapsto> c)\<rparr>)"
    "access_ptr (s\<lparr>ctxs := (ctxs s)(i \<mapsto> c)\<rparr>) = access_ptr s" "default_ptr (s\<lparr>ctxs := (ctxs s)(i \<mapsto> c)\<rparr>) = default_ptr s"
proof -
  let ?s = "s\<lparr>ctxs := (ctxs s)(i \<mapsto> c)\<rparr>"
  have fin: "finite (dom (ctxs s))" using inv by (simp add: acl_inv_def)
  show p: "access_ptr ?s = access_ptr s" "default_ptr ?s = default_ptr s"
    using c by (auto simp: access_ptr_def default_ptr_def fun_eq_iff)
  have "acl_total H ?s a = acl_total H s a" for a
    using c by (auto simp: acl_total_def ctx_refs_update [OF fin] refs_of_def access_ptr_def default_ptr_def split: option.split)
  then have "acl_counted H ?s a" for a
    using acl_inv_counted [OF inv, of a] acl_counted_cong [of ?s a s] by simp
  then show "acl_inv H ?s" using inv by (simp add: acl_inv_def private_cong(3) [OF p])
qed

lemma acl_inv_ctx_get:
  assumes "acl_inv H s" "posix_acl_ctx_get i s = (c, s')"
  shows "acl_inv H s'" "ctxs s' i = Some c" "acls s' = acls s" "minimal_acl s' = minimal_acl s"
    "super_uid s' = super_uid s" "\<And>j. j \<noteq> i \<Longrightarrow> ctxs s' j = ctxs s j"
    "access_ptr s' = access_ptr s" "default_ptr s' = default_ptr s"
    "ctx_access c = access_ptr s i" "ctx_default c = default_ptr s i"
  using assms acl_inv_ctx [OF assms(1), of zero_ctx i]
  by (auto simp: posix_acl_ctx_get_def zero_ctx_def access_ptr_def [of s i] default_ptr_def [of s i] split: option.splits)

lemma acl_inv_set_raw:
  assumes inv: "acl_inv (opt_mset acc + opt_mset dfl + H) s" and c: "ctxs s i = Some c"
    and acc: "\<And>a. acc = Some a \<Longrightarrow> acl_private s a i \<and> dfl \<noteq> Some a"
    and dfl: "\<And>a. dfl = Some a \<Longrightarrow> no_access s a"
  shows "acl_inv (opt_mset (ctx_access c) + opt_mset (ctx_default c) + H) (posix_acl_set_raw i acc dfl s)"
    and "access_ptr (posix_acl_set_raw i acc dfl s) = (access_ptr s)(i := acc)"
    and "default_ptr (posix_acl_set_raw i acc dfl s) = (default_ptr s)(i := dfl)"
proof -
  let ?c = "c\<lparr>ctx_access := acc, ctx_default := dfl\<rparr>"
  have s: "posix_acl_set_raw i acc dfl s = s\<lparr>ctxs := (ctxs s)(i \<mapsto> ?c)\<rparr>" (is "_ = ?s")
    using c by (simp add: posix_acl_set_raw_def posix_acl_ctx_get_def)
  show p: "access_ptr (posix_acl_set_raw i acc dfl s) = (access_ptr s)(i := acc)"
    "default_ptr (posix_acl_set_raw i acc dfl s) = (default_ptr s)(i := dfl)"
    by (auto simp: s access_ptr_def default_ptr_def fun_eq_iff)
  have fin: "finite (dom (ctxs s))" using inv by (simp add: acl_inv_def)
  have "acl_total (opt_mset (ctx_access c) + opt_mset (ctx_default c) + H) ?s a =
      acl_total (opt_mset acc + opt_mset dfl + H) s a" for a
    using c by (simp add: acl_total_def ctx_refs_update [OF fin] refs_of_opt)
  then have "acl_counted (opt_mset (ctx_access c) + opt_mset (ctx_default c) + H) ?s a" for a
    using acl_inv_counted [OF inv, of a] acl_counted_cong [of ?s a s] by simp
  moreover have "access_private ?s"
    using inv acc dfl unfolding s [symmetric] acl_inv_def access_private_def acl_private_def no_access_def p
    by (auto simp: s)
  ultimately show "acl_inv (opt_mset (ctx_access c) + opt_mset (ctx_default c) + H) (posix_acl_set_raw i acc dfl s)"
    unfolding s using inv by (simp add: acl_inv_def)
qed

lemma ref_opt_alive:
  "\<exists>acl. acls s a = Some acl \<Longrightarrow> \<exists>acl. acls (ref_opt p s) a = Some acl"
  by (auto simp: ref_opt_def posix_acl_ref_def acls_modify split: option.split)

text \<open>posix_acl_set: the caller keeps the references it has.\<close>

lemma acl_inv_set:
  assumes inv: "acl_inv H s"
    and acc: "\<And>a. acc = Some a \<Longrightarrow> a \<in># H \<and> acl_private s a i \<and> dfl \<noteq> Some a"
    and dfl: "\<And>a. dfl = Some a \<Longrightarrow> a \<in># H \<and> no_access s a"
  shows "acl_inv H (posix_acl_set i acc dfl s)"
proof -
  obtain c s1 where c: "posix_acl_ctx_get i s = (c, s1)" by fastforce
  note g = acl_inv_ctx_get [OF inv c]
  note priv = private_cong [OF g(7,8,4)]
  have alive: "\<exists>acl. acls s1 a = Some acl" if "a \<in># H" for a
    using acl_inv_alive [OF g(1)] that by blast
  let ?s2 = "ref_opt dfl (ref_opt acc s1)"
  have "acl_inv (opt_mset acc + H) (ref_opt acc s1)"
    by (rule acl_inv_ref_opt [OF g(1)]) (use acc alive in blast)
  then have "acl_inv (opt_mset dfl + (opt_mset acc + H)) ?s2"
    by (rule acl_inv_ref_opt) (use dfl alive ref_opt_alive in blast)
  then have s2: "acl_inv (opt_mset acc + opt_mset dfl + H) ?s2" by (simp add: ac_simps)
  have "acl_inv (opt_mset (ctx_access c) + opt_mset (ctx_default c) + H) (posix_acl_set_raw i acc dfl ?s2)"
    using acc dfl g(2) by (intro acl_inv_set_raw [OF s2]) (auto simp: priv)
  then have "acl_inv H (unref_opt (ctx_default c) (unref_opt (ctx_access c) (posix_acl_set_raw i acc dfl ?s2)))"
    by (intro acl_inv_unref_opt) (simp add: ac_simps)
  then show ?thesis
    by (simp add: posix_acl_set_def posix_acl_get_raw_def c Let_def)
qed

section \<open>Operations on a context\<close>

lemma ref_opt_simps [simp]: "ref_opt None s = s" "ref_opt (Some a) s = posix_acl_ref a s"
  by (simp_all add: ref_opt_def)

lemma acl_inv_ptr_alive:
  "acl_inv H s \<Longrightarrow> access_ptr s i = Some a \<or> default_ptr s i = Some a \<Longrightarrow> \<exists>acl. acls s a = Some acl"
  using acl_inv_alive by blast

lemma acl_inv_get:
  assumes inv: "acl_inv H s" and get: "posix_acl_get i wa wd s = (acc, dfl, s')"
  shows "acl_inv (opt_mset acc + opt_mset dfl + H) s'" "access_ptr s' = access_ptr s" "default_ptr s' = default_ptr s"
    "minimal_acl s' = minimal_acl s" "super_uid s' = super_uid s"
    "acc = (if wa then access_ptr s i else None)" "dfl = (if wd then default_ptr s i else None)"
    "ctxs s' = ctxs (snd (posix_acl_ctx_get i s))" "\<And>a. entries_at s' a = entries_at s a"
proof -
  obtain c s1 where c: "posix_acl_ctx_get i s = (c, s1)" by fastforce
  note g = acl_inv_ctx_get [OF inv c]
  have acc: "acc = (if wa then ctx_access c else None)" and dfl: "dfl = (if wd then ctx_default c else None)"
    and s': "s' = ref_opt dfl (ref_opt acc s1)"
    using get by (auto simp: posix_acl_get_def posix_acl_get_raw_def c Let_def)
  show "access_ptr s' = access_ptr s" "default_ptr s' = default_ptr s"
    using g(7,8) ptr_cong [of s' s1] by (simp_all add: s')
  show "acc = (if wa then access_ptr s i else None)" "dfl = (if wd then default_ptr s i else None)"
    "minimal_acl s' = minimal_acl s" "super_uid s' = super_uid s" "ctxs s' = ctxs (snd (posix_acl_ctx_get i s))"
    using g by (simp_all add: acc dfl s' c)
  show "entries_at s' a = entries_at s a" for a
    by (auto simp: s' entries_at_def ref_opt_def posix_acl_ref_def acls_modify g(3) split: option.split)
  have alive: "\<exists>acl. acls s1 a = Some acl" if "acc = Some a \<or> dfl = Some a" for a
    using acl_inv_ptr_alive [OF g(1), of i a] that g(7-10) by (auto simp: acc dfl split: if_splits)
  have "acl_inv (opt_mset acc + H) (ref_opt acc s1)"
    by (rule acl_inv_ref_opt [OF g(1)]) (use alive in blast)
  then have "acl_inv (opt_mset dfl + (opt_mset acc + H)) s'"
    unfolding s' by (rule acl_inv_ref_opt) (use alive ref_opt_alive in blast)
  then show "acl_inv (opt_mset acc + opt_mset dfl + H) s'" by (simp add: ac_simps)
qed

lemma unref_ref:
  assumes "acls s a = Some acl" "0 < acl_refcnt acl"
  shows "posix_acl_unref a (posix_acl_ref a s) = s"
proof -
  have "acls (posix_acl_ref a s) a = Some (acl\<lparr>acl_refcnt := acl_refcnt acl + 1\<rparr>)"
    using assms by (simp add: posix_acl_ref_def acls_modify)
  then have "acls (posix_acl_unref a (posix_acl_ref a s)) = acls s"
    using assms by (auto simp: fun_eq_iff acls_unref posix_acl_ref_def acls_modify)
  then show ?thesis by (intro acl_state.equality) simp_all
qed

text \<open>A permission check only makes a context where there was none.\<close>

lemma acl_permits_state:
  assumes inv: "acl_inv H s"
  shows "snd (acl_permits frame i want s) = snd (posix_acl_ctx_get i s)"
proof -
  obtain c s1 where c: "posix_acl_ctx_get i s = (c, s1)" by fastforce
  note g = acl_inv_ctx_get [OF inv c]
  have c1: "posix_acl_ctx_get i s1 = (c, s1)" using g(2) by (simp add: posix_acl_ctx_get_def)
  have "posix_acl_unref a (posix_acl_ref a s1) = s1" if a: "ctx_access c = Some a \<or> a = minimal_acl s1" for a
  proof -
    have "\<exists>acl. acls s1 a = Some acl \<and> 0 < acl_refcnt acl"
      by (rule acl_inv_alive [OF g(1)]) (use a g(7,9) in auto)
    then show ?thesis using unref_ref by blast
  qed
  then show ?thesis
    by (cases "ctx_access c")
      (simp_all add: acl_permits_def c c1 posix_acl_get_def posix_acl_get_raw_def Let_def ref_opt_def)
qed

lemma sticky_permits_state:
  "snd (sticky_permits frame p i s) = snd (posix_acl_ctx_get i (snd (posix_acl_ctx_get p s)))"
  by (simp add: sticky_permits_def Let_def split: prod.split)

text \<open>Same pointers: what operations that only touch other fields of contexts establish.\<close>

definition acl_same :: "acl_state \<Rightarrow> acl_state \<Rightarrow> bool" where
  "acl_same s s' \<longleftrightarrow> access_ptr s' = access_ptr s \<and> default_ptr s' = default_ptr s \<and>
     minimal_acl s' = minimal_acl s \<and> super_uid s' = super_uid s"

lemma acl_same_refl [simp]: "acl_same s s" by (simp add: acl_same_def)

lemma acl_same_trans: "acl_same s s' \<Longrightarrow> acl_same s' s'' \<Longrightarrow> acl_same s s''"
  by (simp add: acl_same_def)

lemma acl_same_modify: "access_ptr (acl_modify f a s) = access_ptr s" "default_ptr (acl_modify f a s) = default_ptr s"
  by (simp_all add: ptr_cong [of "acl_modify f a s" s])

lemma ctx_get_inv:
  assumes "acl_inv H s"
  shows "acl_inv H (snd (posix_acl_ctx_get i s))" "acl_same s (snd (posix_acl_ctx_get i s))"
  using acl_inv_ctx_get [OF assms, of i "fst (posix_acl_ctx_get i s)"] by (simp_all add: acl_same_def)

lemma permits_inv:
  assumes "acl_inv H s"
  shows "acl_inv H (snd (acl_permits frame i want s))" "acl_same s (snd (acl_permits frame i want s))"
  using ctx_get_inv [OF assms] by (simp_all add: acl_permits_state [OF assms])

lemma sticky_inv:
  assumes "acl_inv H s"
  shows "acl_inv H (snd (sticky_permits frame p i s))"
  by (simp add: sticky_permits_state ctx_get_inv assms)

lemma ctx_update_inv:
  assumes inv: "acl_inv H s"
  shows "acl_inv H (snd (posix_acl_ctx_update i buf s))" "acl_same s (snd (posix_acl_ctx_update i buf s))"
proof -
  obtain c s1 where c: "posix_acl_ctx_get i s = (c, s1)" by fastforce
  note g = acl_inv_ctx_get [OF inv c]
  let ?c = "c\<lparr>ctx_uid := ia_uid buf, ctx_gid := ia_gid buf, ctx_perm := st_mode_from_ia (ia_prot buf) (ia_type buf)\<rparr>"
  let ?s2 = "s1\<lparr>ctxs := (ctxs s1)(i \<mapsto> ?c)\<rparr>"
  have s2: "acl_inv H ?s2" "access_ptr ?s2 = access_ptr s1" "default_ptr ?s2 = default_ptr s1"
    using acl_inv_ctx [OF g(1), of ?c i] g(2) by (simp_all add: access_ptr_def default_ptr_def)
  have "snd (posix_acl_ctx_update i buf s) = ?s2 \<or>
      (\<exists>a es. snd (posix_acl_ctx_update i buf s) = acl_modify (\<lambda>x. x\<lparr>acl_entries := es\<rparr>) a ?s2)"
    by (auto simp: posix_acl_ctx_update_def c Let_def split: option.split prod.split)
  then show "acl_inv H (snd (posix_acl_ctx_update i buf s))" "acl_same s (snd (posix_acl_ctx_update i buf s))"
    using s2 g acl_inv_modify_entries [OF s2(1), of "\<lambda>x. x\<lparr>acl_entries := _\<rparr>"] acl_same_modify
    by (auto simp: acl_same_def)
qed

lemma ctx_modify_inv:
  assumes inv: "acl_inv H s" and f: "\<And>c. ctx_access (f c) = ctx_access c" "\<And>c. ctx_default (f c) = ctx_default c"
  shows "acl_inv H (ctx_modify i f s)" "acl_same s (ctx_modify i f s)"
proof -
  have "acl_inv H (ctx_modify i f s) \<and> acl_same s (ctx_modify i f s)"
  proof (cases "ctxs s i")
    case None
    then have "ctx_modify i f s = s" by (simp add: ctx_modify_def fun_upd_idem)
    then show ?thesis using inv by simp
  next
    case (Some c)
    then have "ctx_modify i f s = s\<lparr>ctxs := (ctxs s)(i \<mapsto> f c)\<rparr>" by (simp add: ctx_modify_def)
    then show ?thesis using acl_inv_ctx [OF inv, of "f c" i] f Some
      by (simp add: acl_same_def access_ptr_def [of s i] default_ptr_def [of s i])
  qed
  then show "acl_inv H (ctx_modify i f s)" "acl_same s (ctx_modify i f s)" by simp_all
qed

section \<open>Choosing new ACLs\<close>

text \<open>A pointer that is the old one with a reference or a new object that nothing points to.\<close>

definition acl_pick :: "addr option \<Rightarrow> addr multiset \<Rightarrow> acl_state \<Rightarrow> addr option \<Rightarrow> acl_state \<Rightarrow> bool" where
  "acl_pick old K s p s' \<longleftrightarrow> acl_inv (opt_mset p + K) s' \<and> acl_same s s' \<and>
     (\<forall>a. p = Some a \<longrightarrow> old = Some a \<or> a \<notin># K \<and> no_access s' a \<and> (\<forall>i. acl_private s' a i))"

lemma pick_new:
  assumes inv: "acl_inv K s" and new: "posix_acl_new es s = (a, s')"
  shows "acl_pick old K s (Some a) s'"
  using acl_inv_new [OF inv new] fresh_private [OF inv, of a] ptr_cong [of s' s] private_cong [of s' s]
  by (auto simp: acl_pick_def acl_same_def)

lemma pick_from_xattr:
  assumes "acl_inv K s" "posix_acl_from_xattr buf s = (p, s')"
  shows "acl_pick old K s p s'"
  using assms pick_new [of K s]
  by (auto simp: posix_acl_from_xattr_def acl_pick_def [of _ _ _ None] split: option.splits prod.splits)

lemma pick_same:
  assumes "acl_same s s1" "acl_pick old K s1 p s'"
  shows "acl_pick old K s p s'"
  using assms acl_same_trans unfolding acl_pick_def by blast

lemma pick_ref:
  assumes "acl_inv K s" "a \<in># K"
  shows "acl_pick (Some a) K s (Some a) (posix_acl_ref a s)"
  using acl_inv_ref [OF assms(1), of a] acl_inv_alive [OF assms(1), of a] assms(2)
  by (auto simp: acl_pick_def acl_same_def ptr_cong [of "posix_acl_ref a s" s])

lemma lookup_acl_pick:
  assumes "acl_inv K s" "\<And>a. old = Some a \<Longrightarrow> a \<in># K" "lookup_acl old data s = (p, s')"
  shows "acl_pick old K s p s'"
  using assms pick_from_xattr [OF assms(1)] pick_ref [OF assms(1)]
  by (auto simp: lookup_acl_def acl_pick_def [of _ _ _ None] split: option.splits if_splits)

lemma readdirp_acl_pick:
  assumes inv: "acl_inv (opt_mset old + K) s" and p: "readdirp_acl old data s = (p, s')"
  shows "acl_pick old K s p s'"
proof (cases "p = old \<and> s' = s")
  case True
  then show ?thesis using inv by (simp add: acl_pick_def)
next
  case False
  then obtain buf where "posix_acl_from_xattr buf (unref_opt old s) = (p, s')"
    using p by (auto simp: readdirp_acl_def split: option.splits if_splits)
  then have "acl_pick old K (unref_opt old s) p s'"
    by (rule pick_from_xattr [OF acl_inv_unref_opt [OF inv]])
  then show ?thesis
    by (rule pick_same [rotated]) (simp add: acl_same_def ptr_cong [of "unref_opt old s" s])
qed

lemma xattr_update_pick:
  assumes inv: "acl_inv K s" and old: "\<And>a. old = Some a \<Longrightarrow> a \<in># K"
    and p: "posix_acl_xattr_update data old s = (p, s')"
  shows "acl_pick old K s p s'"
proof -
  obtain q s1 where q: "(case data of None \<Rightarrow> (None, s) | Some buf \<Rightarrow> posix_acl_from_xattr buf s) = (q, s1)"
    by fastforce
  have pick: "acl_pick old K s q s1"
    using q inv pick_from_xattr [OF inv] by (auto simp: acl_pick_def [of _ _ _ None] split: option.splits)
  show ?thesis
  proof (cases q)
    case (Some a)
    then show ?thesis using p q pick by (simp add: posix_acl_xattr_update_def)
  next
    case None
    then have "p = old" "s' = ref_opt old s1" using p q by (auto simp: posix_acl_xattr_update_def)
    moreover have "acl_inv K s1" "acl_same s s1" using pick None by (simp_all add: acl_pick_def)
    ultimately show ?thesis using pick_ref [of K s1] old pick_same [of s s1]
      by (auto simp: acl_pick_def [of _ _ _ None] ref_opt_def split: option.splits)
  qed
qed

text \<open>Setting two pointers chosen in this way on the inode they were chosen for.\<close>

lemma pick_set:
  assumes inv: "acl_inv H s" and old: "oa = access_ptr s i" "od = default_ptr s i"
    and acc: "acl_pick oa K' s acc s2"
    and dfl: "acl_pick od (opt_mset acc + K) s2 dfl s3"
    and s4: "acl_inv (opt_mset dfl + (opt_mset acc + K)) s4" "acl_same s3 s4"
  shows "acl_inv (opt_mset dfl + (opt_mset acc + K)) (posix_acl_set i acc dfl s4)"
proof -
  have priv: "access_private s" using inv by (simp add: acl_inv_def)
  have same: "acl_same s s2" "acl_same s2 s3" "acl_same s s3"
    using acc dfl acl_same_trans unfolding acl_pick_def by blast+
  have eq: "acl_private s2 = acl_private s" "no_access s2 = no_access s" "acl_private s3 = acl_private s"
    "no_access s3 = no_access s" "acl_private s4 = acl_private s" "no_access s4 = no_access s"
    using same s4(2) private_cong [of s2 s] private_cong [of s3 s] private_cong [of s4 s] by (simp_all add: acl_same_def)
  show ?thesis
  proof (rule acl_inv_set [OF s4(1)])
    fix a assume a: "acc = Some a"
    have p: "acl_private s a i"
      using acc a priv eq old by (auto simp: acl_pick_def access_private_def)
    then have "dfl \<noteq> Some a"
      using dfl a old by (auto simp: acl_pick_def acl_private_def)
    then show "a \<in># opt_mset dfl + (opt_mset acc + K) \<and> acl_private s4 a i \<and> dfl \<noteq> Some a"
      using p eq a by simp
  next
    fix a assume a: "dfl = Some a"
    have "no_access s a" if "default_ptr s i = Some a"
      using priv that by (auto simp: access_private_def acl_private_def no_access_def)
    then show "a \<in># opt_mset dfl + (opt_mset acc + K) \<and> no_access s4 a"
      using dfl a eq old by (auto simp: acl_pick_def)
  qed
qed


section \<open>Operations\<close>

lemma lookup_cbk_inv:
  assumes inv: "acl_inv {#} s"
  shows "acl_inv {#} (snd (posix_acl_lookup_cbk ret err i buf xattr s))"
proof (cases "ret = 0")
  case True
  obtain oa od s1 where g: "posix_acl_get i True True s = (oa, od, s1)" by (metis prod_cases3)
  note get = acl_inv_get [OF inv g]
  obtain acc s2 where a: "lookup_acl oa (xd_access xattr) s1 = (acc, s2)" by fastforce
  obtain dfl s3 where d: "lookup_acl od (xd_default xattr) s2 = (dfl, s3)" by fastforce
  let ?K = "opt_mset oa + opt_mset od"
  have s1: "acl_inv ?K s1" using get(1) by simp
  have pa: "acl_pick oa ?K s1 acc s2" by (rule lookup_acl_pick [OF s1 _ a]) simp
  then have s2: "acl_inv (opt_mset acc + ?K) s2" by (simp add: acl_pick_def)
  have pd: "acl_pick od (opt_mset acc + ?K) s2 dfl s3" by (rule lookup_acl_pick [OF s2 _ d]) simp
  let ?s4 = "snd (posix_acl_ctx_update i buf s3)"
  have s4: "acl_inv (opt_mset dfl + (opt_mset acc + ?K)) ?s4" "acl_same s3 ?s4"
    using pd ctx_update_inv by (auto simp: acl_pick_def)
  have "acl_inv (opt_mset dfl + (opt_mset acc + ?K)) (posix_acl_set i acc dfl ?s4)"
    by (rule pick_set [OF s1 _ _ pa pd s4]) (use get in auto)
  then have "acl_inv {#} (unref_opt od (unref_opt oa (unref_opt dfl (unref_opt acc (posix_acl_set i acc dfl ?s4)))))"
    by (intro acl_inv_unref_opt) (simp add: ac_simps)
  then show ?thesis using True by (simp add: posix_acl_lookup_cbk_def g a d split_beta)
qed (use inv in \<open>simp add: posix_acl_lookup_cbk_def\<close>)

lemma readdirp_entry_inv:
  assumes inv: "acl_inv {#} s"
  shows "acl_inv {#} (readdirp_entry e s)"
proof (cases "\<exists>dict i st. e = (Some dict, Some i, st)")
  case True
  then obtain dict i st where e: "e = (Some dict, Some i, st)" by blast
  obtain oa od s1 where g: "posix_acl_get i True True s = (oa, od, s1)" by (metis prod_cases3)
  note get = acl_inv_get [OF inv g]
  obtain acc s2 where a: "readdirp_acl oa (xd_access dict) s1 = (acc, s2)" by fastforce
  obtain dfl s3 where d: "readdirp_acl od (xd_default dict) s2 = (dfl, s3)" by fastforce
  have s1: "acl_inv (opt_mset oa + opt_mset od) s1" using get(1) by simp
  have pa: "acl_pick oa (opt_mset od) s1 acc s2" by (rule readdirp_acl_pick [OF s1 a])
  then have "acl_inv (opt_mset od + opt_mset acc) s2" by (simp add: acl_pick_def ac_simps)
  then have pd: "acl_pick od (opt_mset acc) s2 dfl s3" by (rule readdirp_acl_pick [OF _ d])
  let ?s4 = "snd (posix_acl_ctx_update i st s3)"
  have s4: "acl_inv (opt_mset dfl + (opt_mset acc + {#})) ?s4" "acl_same s3 ?s4"
    using pd ctx_update_inv by (auto simp: acl_pick_def)
  have "acl_inv (opt_mset dfl + (opt_mset acc + {#})) (posix_acl_set i acc dfl ?s4)"
    by (rule pick_set [OF s1 _ _ pa _ s4]) (use get pd in auto)
  then have "acl_inv {#} (unref_opt dfl (unref_opt acc (posix_acl_set i acc dfl ?s4)))"
    by (intro acl_inv_unref_opt) (simp add: ac_simps)
  then show ?thesis by (simp add: readdirp_entry_def e g a d split_beta)
qed (use inv in \<open>auto simp: readdirp_entry_def split: option.split prod.split\<close>)

lemma readdirp_inv: "acl_inv {#} s \<Longrightarrow> acl_inv {#} (fold readdirp_entry es s)"
  by (induction es arbitrary: s) (simp_all add: readdirp_entry_inv)

lemma set_mode_ptrs:
  "ctx_access (snd (posix_acl_access_set_mode es c)) = ctx_access c"
  "ctx_default (snd (posix_acl_access_set_mode es c)) = ctx_default c"
  by (simp_all add: posix_acl_access_set_mode_def Let_def split: prod.split)

lemma setxattr_update_inv:
  assumes inv: "acl_inv {#} s"
  shows "acl_inv {#} (posix_acl_setxattr_update i xattr s)"
proof -
  obtain c0 s0 where c0: "posix_acl_ctx_get i s = (c0, s0)" by fastforce
  have s0: "acl_inv {#} s0" using acl_inv_ctx_get [OF inv c0] by simp
  obtain oa od s1 where g: "posix_acl_get i True True s0 = (oa, od, s1)" by (metis prod_cases3)
  note get = acl_inv_get [OF s0 g]
  obtain acc s2 where a: "posix_acl_xattr_update (xd_access xattr) oa s1 = (acc, s2)" by fastforce
  obtain dfl s3 where d: "posix_acl_xattr_update (xd_default xattr) od s2 = (dfl, s3)" by fastforce
  let ?K = "opt_mset oa + opt_mset od"
  have s1: "acl_inv ?K s1" using get(1) by simp
  have pa: "acl_pick oa ?K s1 acc s2" by (rule xattr_update_pick [OF s1 _ a]) simp
  then have s2: "acl_inv (opt_mset acc + ?K) s2" by (simp add: acl_pick_def)
  have pd: "acl_pick od (opt_mset acc + ?K) s2 dfl s3" by (rule xattr_update_pick [OF s2 _ d]) simp
  let ?s4 = "posix_acl_set i acc dfl s3"
  have s4: "acl_inv (opt_mset dfl + (opt_mset acc + ?K)) ?s4"
    by (rule pick_set [OF s1 _ _ pa pd]) (use get pd in \<open>auto simp: acl_pick_def\<close>)
  define s5 where "s5 = (case acc of
      Some a \<Rightarrow> if acc \<noteq> oa then ctx_modify i (\<lambda>c. snd (posix_acl_access_set_mode (entries_at ?s4 a) c)) ?s4 else ?s4
    | None \<Rightarrow> ?s4)"
  have "acl_inv (opt_mset dfl + (opt_mset acc + ?K)) s5"
    using s4 ctx_modify_inv [OF s4] unfolding s5_def by (auto simp: set_mode_ptrs split: option.split)
  then have "acl_inv {#} (unref_opt od (unref_opt oa (unref_opt dfl (unref_opt acc s5))))"
    by (intro acl_inv_unref_opt) (simp add: ac_simps)
  then show ?thesis
    by (simp add: posix_acl_setxattr_update_def c0 g a d Let_def s5_def)
qed

lemma inherit_set_inv:
  assumes inv: "acl_inv {#a, pd#} s" and new: "acl_private s a i" "a \<noteq> pd" and old: "no_access s pd"
  shows "acl_inv {#} (unref_opt (if is_dir then Some pd else None) (posix_acl_unref a (posix_acl_unref pd
    (posix_acl_set i (Some a) (if is_dir then Some pd else None) (ref_opt (if is_dir then Some pd else None) s)))))"
proof -
  let ?dfl = "if is_dir then Some pd else None"
  have s6: "acl_inv (opt_mset ?dfl + {#a, pd#}) (ref_opt ?dfl s)"
    by (rule acl_inv_ref_opt [OF inv]) (use acl_inv_alive [OF inv, of pd] in \<open>auto split: if_splits\<close>)
  have "acl_inv (opt_mset ?dfl + {#a, pd#}) (posix_acl_set i (Some a) ?dfl (ref_opt ?dfl s))"
    by (rule acl_inv_set [OF s6]) (use new old in \<open>auto split: if_splits\<close>)
  then show ?thesis
    by (intro acl_inv_unref_opt acl_inv_unref) (simp add: add_mset_commute)
qed

lemma inherit_inv:
  assumes inv: "acl_inv {#} s" and r: "posix_acl_inherit p i params mode umask is_dir s = (m, params', s')"
  shows "acl_inv {#} s'"
proof -
  obtain rm cu ps where cm: "client_mode mode umask params = (rm, cu, ps)" by (metis prod_cases3)
  obtain x dp s1 where g: "posix_acl_get p False True s = (x, dp, s1)" by (metis prod_cases3)
  note get = acl_inv_get [OF inv g]
  show ?thesis
  proof (cases dp)
    case None
    then show ?thesis using r get(1,6) by (simp add: posix_acl_inherit_def cm g)
  next
    case (Some pd)
    obtain c2 s2 where c2: "posix_acl_ctx_get i s1 = (c2, s2)" by fastforce
    have s2: "acl_inv {#pd#} s2" "acl_same s s2"
      using ctx_get_inv [of "{#pd#}" s1 i] get(1-6) Some c2 by (simp_all add: acl_same_def)
    have pd: "default_ptr s p = Some pd" using get(7) Some by simp
    obtain a s3 where a: "posix_acl_new (entries_at s2 pd) s2 = (a, s3)" by fastforce
    have pick: "acl_pick None {#pd#} s2 (Some a) s3" by (rule pick_new [OF s2(1) a])
    obtain nm es where nm: "posix_acl_inherit_mode (entries_at s3 a) rm = (nm, es)" by fastforce
    define s4 where "s4 = acl_modify (\<lambda>x. x\<lparr>acl_entries := es\<rparr>) a s3"
    define s5 where "s5 = ctx_modify i (\<lambda>c. c\<lparr>ctx_perm := nm\<rparr>) s4"
    have s4: "acl_inv {#a, pd#} s4" "acl_same s3 s4"
      using acl_inv_modify_entries [of "{#a, pd#}" s3] acl_same_modify [of _ a s3] pick
      by (simp_all add: s4_def acl_same_def acl_pick_def add_mset_commute)
    have s5: "acl_inv {#a, pd#} s5" "acl_same s4 s5"
      unfolding s5_def by (rule ctx_modify_inv [OF s4(1)]; simp)+
    have drop: "acl_inv {#} (posix_acl_unref a (posix_acl_unref pd t))" if "acl_inv {#a, pd#} t" for t
      using that by (intro acl_inv_unref) (simp add: add_mset_commute)
    have eq: "acl_private s5 = acl_private s3" "no_access s5 = no_access s3" "no_access s3 = no_access s"
      using s2(2) s4(2) s5(2) pick private_cong [of s5 s3] private_cong [of s3 s] by (auto simp: acl_same_def acl_pick_def)
    have new: "acl_private s5 a i" "a \<noteq> pd" using pick eq by (auto simp: acl_pick_def)
    have old: "no_access s5 pd"
      using inv pd eq by (auto simp: acl_inv_def access_private_def acl_private_def no_access_def)
    show ?thesis
    proof (cases ps)
      case None
      then show ?thesis using r drop [OF s5(1)] \<open>dp = Some pd\<close>
        by (auto simp: posix_acl_inherit_def cm g c2 posix_acl_dup_def a nm s4_def s5_def Let_def)
    next
      case (Some prm)
      have "acl_inv {#} (unref_opt (if is_dir then Some pd else None) (posix_acl_unref a (posix_acl_unref pd
          (posix_acl_set i (Some a) (if is_dir then Some pd else None) (ref_opt (if is_dir then Some pd else None) s5)))))"
        by (rule inherit_set_inv [OF s5(1) new old])
      then show ?thesis using r \<open>dp = Some pd\<close> Some
        by (auto simp: posix_acl_inherit_def cm g c2 posix_acl_dup_def a nm s4_def s5_def Let_def unref_opt_def split: if_splits)
    qed
  qed
qed

lemma unref_ctxs: "unref_opt p (s\<lparr>ctxs := cs\<rparr>) = (unref_opt p s)\<lparr>ctxs := cs\<rparr>"
  by (simp add: unref_opt_def posix_acl_unref_def posix_acl_destroy_def acl_modify_def Let_def split: option.split)

lemma forget_inv:
  assumes inv: "acl_inv {#} s"
  shows "acl_inv {#} (posix_acl_forget i s)"
proof -
  obtain c s1 where c: "posix_acl_ctx_get i s = (c, s1)" by fastforce
  note g = acl_inv_ctx_get [OF inv c]
  let ?s = "s1\<lparr>ctxs := (ctxs s1)(i := None)\<rparr>"
  have fin: "finite (dom (ctxs s1))" using g(1) by (simp add: acl_inv_def)
  have p: "access_ptr ?s = (access_ptr s1)(i := None)" "default_ptr ?s = (default_ptr s1)(i := None)"
    by (auto simp: access_ptr_def default_ptr_def)
  have "acl_total (opt_mset (ctx_access c) + opt_mset (ctx_default c)) ?s a = acl_total {#} s1 a" for a
    using g(2) by (simp add: acl_total_def ctx_refs_delete [OF fin] refs_of_opt)
  then have "acl_counted (opt_mset (ctx_access c) + opt_mset (ctx_default c)) ?s a" for a
    using acl_inv_counted [OF g(1), of a] acl_counted_cong [of ?s a s1] by simp
  moreover have "access_private ?s"
    using g(1) unfolding acl_inv_def access_private_def acl_private_def p by auto
  ultimately have "acl_inv (opt_mset (ctx_access c) + opt_mset (ctx_default c)) ?s"
    using g(1) by (simp add: acl_inv_def)
  then have "acl_inv {#} (unref_opt (ctx_default c) (unref_opt (ctx_access c) ?s))"
    by (intro acl_inv_unref_opt) (simp add: ac_simps)
  then show ?thesis by (simp add: posix_acl_forget_def c Let_def unref_ctxs)
qed

lemma init_inv: "acl_inv {#} (posix_acl_init uid)"
  by (auto simp: posix_acl_init_def posix_acl_new_def Let_def acl_inv_def acl_counted_def acl_total_def ctx_refs_def
      access_private_def access_ptr_def posix_acl_ref_def acl_modify_def)

lemma scrutiny_inv:
  assumes "acl_inv H s"
  shows "acl_inv H (snd (snd (setattr_scrutiny frame i buf valid s)))" "acl_inv H (snd (setxattr_scrutiny frame i xattr s))"
  using assms permits_inv ctx_get_inv [OF assms, of i]
  by (auto simp: setattr_scrutiny_def setxattr_scrutiny_def Let_def split_beta)

lemma access_bit_inv: "acl_inv H (snd ms) \<Longrightarrow> acl_inv H (snd (access_bit frame i perm b ms))"
  using permits_inv by (auto simp: access_bit_def Let_def split_beta)

lemma green_red_state [simp]: "snd (green_red r) = snd r"
  by (simp add: green_red_def split_beta)

lemma inherit_state_inv:
  "acl_inv {#} s \<Longrightarrow> acl_inv {#} (snd (snd (posix_acl_inherit p i params mode umask is_dir s)))"
  by (rule inherit_inv [OF _ prod.collapse [symmetric, THEN trans], of s p i params mode umask is_dir]) (simp_all add: prod_eq_iff)

lemma create_inv:
  assumes "acl_inv {#} s"
  shows "acl_inv {#} (snd (posix_acl_mkdir frame p i x m u s))" "acl_inv {#} (snd (posix_acl_mknod frame p i x m u s))"
    "acl_inv {#} (snd (posix_acl_create frame p i x m u s))"
  using inherit_state_inv [OF permits_inv(1) [OF assms]] permits_inv(1) [OF assms]
  by (simp_all add: posix_acl_mkdir_def posix_acl_mknod_def posix_acl_create_def posix_acl_inherit_dir_def
      posix_acl_inherit_file_def Let_def split_beta)

lemma rename_inv: "acl_inv {#} s \<Longrightarrow> acl_inv {#} (snd (posix_acl_rename frame op oi np ni s))"
  by (auto simp: posix_acl_rename_def Let_def split_beta permits_inv sticky_inv split: option.split)

lemma link_inv: "acl_inv {#} s \<Longrightarrow> acl_inv {#} (snd (posix_acl_link frame oi np ni s))"
  by (auto simp: posix_acl_link_def Let_def split_beta permits_inv sticky_inv ctx_get_inv)

lemma setattr_inv: "acl_inv {#} s \<Longrightarrow> acl_inv {#} (snd (posix_acl_setattr frame i buf valid s))"
  by (auto simp: posix_acl_setattr_def Let_def split_beta scrutiny_inv)

lemma setxattr_inv: "acl_inv {#} s \<Longrightarrow> acl_inv {#} (snd (posix_acl_setxattr frame i xattr s))"
  by (auto simp: posix_acl_setxattr_def Let_def split_beta scrutiny_inv setxattr_update_inv)

lemma removexattr_inv: "acl_inv {#} s \<Longrightarrow> acl_inv {#} (snd (posix_acl_removexattr frame i name s))"
  by (auto simp: posix_acl_removexattr_def Let_def split_beta permits_inv ctx_get_inv)

lemma access_inv: "acl_inv {#} s \<Longrightarrow> acl_inv {#} (snd (posix_acl_access frame i msk s))"
  by (auto simp: posix_acl_access_def Let_def split_beta permits_inv intro!: access_bit_inv)

lemma lookup_inv: "acl_inv {#} s \<Longrightarrow> acl_inv {#} (snd (posix_acl_lookup frame parent s))"
  by (auto simp: posix_acl_lookup_def permits_inv split: option.split)

lemma unlink_inv:
  "acl_inv {#} s \<Longrightarrow> acl_inv {#} (snd (posix_acl_unlink frame p i s))"
  "acl_inv {#} s \<Longrightarrow> acl_inv {#} (snd (posix_acl_rmdir frame p i s))"
  by (auto simp: posix_acl_unlink_def posix_acl_rmdir_def Let_def split_beta permits_inv sticky_inv)

lemma fops_inv: "acl_inv {#} s \<Longrightarrow> acl_inv {#} (snd (acl_fops call frame s))"
  by (cases call)
    (simp_all add: create_inv rename_inv link_inv setattr_inv setxattr_inv removexattr_inv access_inv lookup_inv
      unlink_inv permits_inv posix_acl_open_def posix_acl_truncate_def posix_acl_opendir_def posix_acl_symlink_def
      posix_acl_readdir_def posix_acl_readdirp_def posix_acl_getxattr_def)

lemma reachable_inv: "acl_reachable s \<Longrightarrow> acl_inv {#} s"
proof (induction rule: acl_reachable.induct)
  case (reconfigure s opt)
  have "acl_inv {#} (s\<lparr>super_uid := uid\<rparr>)" for uid
  proof (rule acl_inv_store [OF reconfigure.IH])
    fix a
    show "acl_counted {#} (s\<lparr>super_uid := uid\<rparr>) a"
      using acl_inv_counted [OF reconfigure.IH, of a] acl_counted_cong [of "s\<lparr>super_uid := uid\<rparr>" a s]
        total_cong [of "s\<lparr>super_uid := uid\<rparr>" s] by simp
  qed (use reconfigure.IH in \<open>simp_all add: acl_inv_def\<close>)
  then show ?case using reconfigure.IH by (simp add: posix_acl_reconfigure_def split: option.split)
qed (simp_all add: init_inv fops_inv lookup_cbk_inv posix_acl_readdirp_cbk_def readdirp_inv posix_acl_mkdir_cbk_def
    posix_acl_mknod_cbk_def posix_acl_create_cbk_def posix_acl_symlink_cbk_def posix_acl_setattr_cbk_def ctx_update_inv forget_inv)

end
