(* ===== verification/Posix_Acl_Check.thy ===== *)
theory Posix_Acl_Check
  imports Posix_Acl_Refs
begin

unbundle bit_operations_syntax

text \<open>
  The encoding of ACLs as extended attributes, the order of their entries, and the permission
  check of the access-control translator against the access check of POSIX.1e.
\<close>

section \<open>Encoding\<close>

lemma letoh16_htole16 [simp]: "letoh16 [ucast w, ucast (drop_bit 8 w)] = w"
  by (rule bit_word_eqI) (auto simp: bit_simps)

lemma letoh32_htole32 [simp]: "letoh32 [ucast w, ucast (drop_bit 8 w), ucast (drop_bit 16 w), ucast (drop_bit 24 w)] = w"
proof (rule bit_word_eqI)
  fix n assume "n < LENGTH(32)"
  then show "bit (letoh32 [ucast w, ucast (drop_bit 8 w), ucast (drop_bit 16 w), ucast (drop_bit 24 w)]) n = bit w n"
    by (cases "n < 16"; cases "n < 24") (auto simp: bit_simps)
qed

definition acl_tags :: "u16 set" where
  "acl_tags = {POSIX_ACL_USER_OBJ, POSIX_ACL_USER, POSIX_ACL_GROUP_OBJ, POSIX_ACL_GROUP, POSIX_ACL_MASK, POSIX_ACL_OTHER}"

text \<open>Entries the encoding can represent: a known tag, and an id only where the tag has one.\<close>

definition ace_codable :: "posix_ace \<Rightarrow> bool" where
  "ace_codable e \<longleftrightarrow> ace_tag e \<in> acl_tags \<and>
     (ace_tag e \<notin> {POSIX_ACL_USER, POSIX_ACL_GROUP} \<longrightarrow> ace_id e = POSIX_ACL_UNDEFINED_ID)"

lemma ace_to_xattr_bytes:
  "ace_to_xattr e @ rest =
     (let i = (if ace_tag e \<in> {2, 8} then ace_id e else 0xffffffff) in
      ucast (ace_tag e) # ucast (drop_bit 8 (ace_tag e)) # ucast (ace_perm e) # ucast (drop_bit 8 (ace_perm e)) #
      ucast i # ucast (drop_bit 8 i) # ucast (drop_bit 16 i) # ucast (drop_bit 24 i) # rest)"
  unfolding ace_to_xattr_def htole16_def htole32_def Let_def by simp

lemma xattr_entries_step:
  "ace_codable e \<Longrightarrow> xattr_entries (ace_to_xattr e @ rest) = map_option ((#) e) (xattr_entries rest)"
  unfolding ace_to_xattr_bytes Let_def xattr_entries.simps(1) letoh16_htole16 letoh32_htole32
  by (cases e) (auto simp: ace_codable_def acl_tags_def)

lemma xattr_entries_encode: "list_all ace_codable es \<Longrightarrow> xattr_entries (concat (map ace_to_xattr es)) = Some es"
  by (induction es) (simp_all add: xattr_entries_step)

lemma length_encode: "length (concat (map ace_to_xattr es)) = length es * 8"
  by (induction es) (simp_all add: ace_to_xattr_def htole16_def htole32_def)

lemma acl_xattr_eq: "acl_xattr es = htole32 2 @ concat (map ace_to_xattr es)"
  by (simp add: acl_xattr_def posix_acl_to_xattr_def)

lemma decode_encode: "list_all ace_codable es \<Longrightarrow> decode_xattr (acl_xattr es) = Some (posix_acl_normalize es)"
  by (simp add: decode_xattr_def acl_xattr_eq length_encode xattr_entries_encode htole32_def)

section \<open>Order of entries\<close>

definition tag_sorted :: "posix_ace list \<Rightarrow> bool" where
  "tag_sorted es = sorted (map (\<lambda>e. uint (ace_tag e)) es)"

lemma ace_insert_mset: "mset (ace_insert a es) = add_mset a (mset es)"
  by (induction es) auto

lemma ace_insert_sorted: "tag_sorted es \<Longrightarrow> tag_sorted (ace_insert a es)"
proof (induction es)
  case (Cons b bs)
  have "set (ace_insert a bs) = insert a (set bs)"
    using ace_insert_mset [of a bs] by (metis set_mset_add_mset_insert set_mset_mset)
  then show ?case using Cons
    by (auto simp: tag_sorted_def posix_ace_cmp_def Let_def split: if_splits)
qed (simp add: tag_sorted_def)

lemma normalize_sorted: "tag_sorted (posix_acl_normalize es)"
  unfolding posix_acl_normalize_def by (induction es) (simp_all add: ace_insert_sorted, simp add: tag_sorted_def)

lemma normalize_mset: "mset (posix_acl_normalize es) = mset es"
  unfolding posix_acl_normalize_def by (induction es) (simp_all add: ace_insert_mset)

lemma normalize_set: "set (posix_acl_normalize es) = set es"
  using normalize_mset by (metis set_mset_mset)

definition by_tag :: "u16 \<Rightarrow> posix_ace list \<Rightarrow> posix_ace list" where
  "by_tag t es = filter (\<lambda>e. ace_tag e = t) es"

definition acl_grouped :: "posix_ace list \<Rightarrow> bool" where
  "acl_grouped es \<longleftrightarrow> es = by_tag POSIX_ACL_USER_OBJ es @ by_tag POSIX_ACL_USER es @ by_tag POSIX_ACL_GROUP_OBJ es @
     by_tag POSIX_ACL_GROUP es @ by_tag POSIX_ACL_MASK es @ by_tag POSIX_ACL_OTHER es"

lemma sorted_grouped: "tag_sorted es \<Longrightarrow> ace_tag ` set es \<subseteq> acl_tags \<Longrightarrow> acl_grouped es"
proof (induction es)
  case (Cons e es)
  have ge: "\<forall>x \<in> set es. uint (ace_tag e) \<le> uint (ace_tag x)" using Cons.prems(1) by (simp add: tag_sorted_def)
  have none: "by_tag t es = []" if "uint t < uint (ace_tag e)" for t
    using ge that by (auto simp: by_tag_def filter_empty_conv)
  have "acl_grouped es" using Cons by (simp add: tag_sorted_def)
  moreover have "ace_tag e \<in> acl_tags" using Cons.prems by simp
  ultimately show ?case
    using none by (auto simp: acl_grouped_def acl_tags_def by_tag_def [of _ "e # es"] by_tag_def [of _ es, symmetric])
qed (simp add: acl_grouped_def by_tag_def)


section \<open>The permission check\<close>

text \<open>The access check of POSIX.1e over the entries \<open>es\<close>: the owner is judged by the owner class
  of the mode alone; a named user by its entry; a member of the owning group or of a named group
  by any one of the group entries that apply; everybody else by the other class of the mode.
  Entries of named users and of groups count as far as the mask allows.\<close>

definition masked_has :: "posix_ace list \<Rightarrow> u16 \<Rightarrow> u16 \<Rightarrow> bool" where
  "masked_has es p want =
     (case by_tag POSIX_ACL_MASK es of [] \<Rightarrow> perm_has p want | m # _ \<Rightarrow> perm_has (ace_perm m AND p) want)"

definition group_perms :: "call_root \<Rightarrow> posix_acl_ctx \<Rightarrow> posix_ace list \<Rightarrow> u16 list" where
  "group_perms frame ctx es =
     (if frame_in_group frame (ctx_gid ctx)
      then [if POSIX_ACL_MINIMAL_ACE_COUNT < length es then ace_perm (hd (by_tag POSIX_ACL_GROUP_OBJ es))
            else perm_group (ctx_perm ctx)] else []) @
     map ace_perm (filter (\<lambda>e. frame_in_group frame (unat (ace_id e))) (by_tag POSIX_ACL_GROUP es))"

definition posix1e_allows :: "call_root \<Rightarrow> posix_acl_ctx \<Rightarrow> posix_ace list \<Rightarrow> u16 \<Rightarrow> bool" where
  "posix1e_allows frame ctx es want =
     (if rt_uid frame = ctx_uid ctx then perm_has (perm_user (ctx_perm ctx)) want
      else case find (\<lambda>e. rt_uid frame = unat (ace_id e)) (by_tag POSIX_ACL_USER es) of
        Some e \<Rightarrow> masked_has es (ace_perm e) want
      | None \<Rightarrow>
          if group_perms frame ctx es \<noteq> [] then list_ex (\<lambda>p. masked_has es p want) (group_perms frame ctx es)
          else perm_has (perm_other (ctx_perm ctx)) want)"

text \<open>The entries of an ACL as setfacl and the kernel write them: in the order of their tags, with
  one entry each for owner, owning group and others and at most one mask.\<close>

definition acl_valid :: "posix_ace list \<Rightarrow> bool" where
  "acl_valid es \<longleftrightarrow> acl_grouped es \<and> length (by_tag POSIX_ACL_USER_OBJ es) = 1 \<and>
     length (by_tag POSIX_ACL_GROUP_OBJ es) = 1 \<and> length (by_tag POSIX_ACL_OTHER es) = 1 \<and>
     length (by_tag POSIX_ACL_MASK es) \<le> 1"

lemma by_tag_tags: "e \<in> set (by_tag t es) \<Longrightarrow> ace_tag e = t"
  by (simp add: by_tag_def)

lemma length_one: "length xs = 1 \<Longrightarrow> xs = [hd xs]"
  by (cases xs) simp_all

lemma acl_valid_split:
  assumes "acl_valid es"
  obtains uo go ot where "by_tag POSIX_ACL_USER_OBJ es = [uo]" "by_tag POSIX_ACL_GROUP_OBJ es = [go]"
    "ace_tag uo = POSIX_ACL_USER_OBJ" "ace_tag go = POSIX_ACL_GROUP_OBJ" "ace_tag ot = POSIX_ACL_OTHER"
    "es = uo # by_tag POSIX_ACL_USER es @ go # by_tag POSIX_ACL_GROUP es @ by_tag POSIX_ACL_MASK es @ [ot]"
proof -
  have one: "by_tag POSIX_ACL_USER_OBJ es = [hd (by_tag POSIX_ACL_USER_OBJ es)]"
    "by_tag POSIX_ACL_GROUP_OBJ es = [hd (by_tag POSIX_ACL_GROUP_OBJ es)]"
    "by_tag POSIX_ACL_OTHER es = [hd (by_tag POSIX_ACL_OTHER es)]"
    using assms by (simp_all only: acl_valid_def length_one)
  have "es = by_tag POSIX_ACL_USER_OBJ es @ by_tag POSIX_ACL_USER es @ by_tag POSIX_ACL_GROUP_OBJ es @
     by_tag POSIX_ACL_GROUP es @ by_tag POSIX_ACL_MASK es @ by_tag POSIX_ACL_OTHER es"
    using assms by (simp add: acl_valid_def acl_grouped_def)
  then show ?thesis
    using that [OF one(1,2), of "hd (by_tag POSIX_ACL_OTHER es)"] one by_tag_tags by (metis append_Cons append_Nil list.set_intros(1))
qed

lemma scan_users:
  assumes "\<forall>e \<in> set us. ace_tag e = POSIX_ACL_USER" "ace_tag go = POSIX_ACL_GROUP_OBJ"
  shows "acl_scan frame ctx pr want perm found (us @ go # rest) =
    (case find (\<lambda>e. rt_uid frame = unat (ace_id e)) us of
       Some e \<Rightarrow> Mask_check (ace_perm e)
     | None \<Rightarrow> acl_scan frame ctx pr want 0 found (go # rest))"
  using assms by (induction us arbitrary: perm) (auto simp: frame_is_user_def Let_def)

lemma scan_masks:
  assumes "\<forall>e \<in> set ms. ace_tag e = POSIX_ACL_MASK" "ace_tag ot = POSIX_ACL_OTHER"
  shows "acl_scan frame ctx pr want perm found (ms @ [ot]) = (if found then Red else Perm_check (perm_other (ctx_perm ctx)))"
  using assms by (induction ms) (auto simp: Let_def)

lemma scan_groups:
  assumes "\<forall>e \<in> set gs. ace_tag e = POSIX_ACL_GROUP" "\<forall>e \<in> set ms. ace_tag e = POSIX_ACL_MASK" "ace_tag ot = POSIX_ACL_OTHER"
  shows "acl_scan frame ctx pr want perm found (gs @ ms @ [ot]) =
    (case find (\<lambda>e. frame_in_group frame (unat (ace_id e)) \<and> perm_has (ace_perm e) want) gs of
       Some e \<Rightarrow> Mask_check (ace_perm e)
     | None \<Rightarrow> if found \<or> (\<exists>e \<in> set gs. frame_in_group frame (unat (ace_id e))) then Red
              else Perm_check (perm_other (ctx_perm ctx)))"
  using assms by (induction gs arbitrary: perm found) (auto simp: Let_def scan_masks split: option.split)

lemma perm_has_and: "perm_has p want \<Longrightarrow> perm_has (m AND p) want = perm_has m want"
  unfolding perm_has_def by (metis and.assoc)

lemma decide_mask: "acl_decide es want (Mask_check p) = masked_has es p want"
proof -
  have "find (\<lambda>e. ace_tag e = POSIX_ACL_MASK) es =
      (case by_tag POSIX_ACL_MASK es of [] \<Rightarrow> None | m # _ \<Rightarrow> Some m)"
    unfolding by_tag_def by (induction es) auto
  then show ?thesis by (auto simp: acl_decide_def masked_has_def perm_has_def and.assoc split: list.split)
qed

lemma masked_has_weaken: "masked_has es p want \<Longrightarrow> perm_has p want"
  unfolding masked_has_def perm_has_def by (auto split: list.splits) (metis and.assoc and.left_commute and.idem)

lemma masked_has_swap: "perm_has p want \<Longrightarrow> perm_has q want \<Longrightarrow> masked_has es p want = masked_has es q want"
  unfolding masked_has_def by (simp add: perm_has_and split: list.split)

lemma list_ex_cons: "list_ex P (x # xs) \<longleftrightarrow> P x \<or> list_ex P xs"
  by simp

lemma masked_or:
  "masked_has es p want \<or> list_ex (\<lambda>q. masked_has es q want) ps \<longleftrightarrow>
   (if perm_has p want then masked_has es p want else list_ex (\<lambda>q. masked_has es q want) ps)"
proof (cases "perm_has p want")
  case True
  have "masked_has es p want" if "list_ex (\<lambda>q. masked_has es q want) ps"
    using that masked_has_weaken masked_has_swap [OF True] unfolding list_ex_iff by blast
  then show ?thesis using True by auto
next
  case False
  then show ?thesis using masked_has_weaken by auto
qed

text \<open>The verdict over named groups: some entry that applies grants the access within the mask.\<close>

lemma decide_groups:
  "acl_decide es want
     (case find (\<lambda>e. G e \<and> perm_has (ace_perm e) want) gs of
        Some e \<Rightarrow> Mask_check (ace_perm e)
      | None \<Rightarrow> if found \<or> (\<exists>e \<in> set gs. G e) then Red else Perm_check p) =
   (if found \<or> (\<exists>e \<in> set gs. G e) then (\<exists>e \<in> set gs. G e \<and> masked_has es (ace_perm e) want) else perm_has p want)"
proof (cases "find (\<lambda>e. G e \<and> perm_has (ace_perm e) want) gs")
  case None
  then have "\<not> masked_has es (ace_perm e) want" if "e \<in> set gs" "G e" for e
    using that masked_has_weaken unfolding find_None_iff by blast
  then show ?thesis using None by (auto simp: acl_decide_def)
next
  case (Some e)
  then have e: "e \<in> set gs" "G e" "perm_has (ace_perm e) want" by (auto simp: find_Some_iff)
  then have "masked_has es (ace_perm e) want \<longleftrightarrow> (\<exists>x \<in> set gs. G x \<and> masked_has es (ace_perm x) want)"
    using masked_has_weaken masked_has_swap [OF e(3)] by blast
  moreover have "\<exists>x \<in> set gs. G x" using e by blast
  ultimately show ?thesis using Some by (simp add: decide_mask)
qed

lemma acl_scan_posix1e:
  assumes "acl_valid es"
  shows "acl_decide es want (acl_scan frame ctx (POSIX_ACL_MINIMAL_ACE_COUNT < length es) want perm False es) =
    posix1e_allows frame ctx es want"
proof -
  obtain uo go ot where s: "by_tag POSIX_ACL_USER_OBJ es = [uo]" "by_tag POSIX_ACL_GROUP_OBJ es = [go]"
    "ace_tag uo = POSIX_ACL_USER_OBJ" "ace_tag go = POSIX_ACL_GROUP_OBJ" "ace_tag ot = POSIX_ACL_OTHER"
    "es = uo # by_tag POSIX_ACL_USER es @ go # by_tag POSIX_ACL_GROUP es @ by_tag POSIX_ACL_MASK es @ [ot]"
    using acl_valid_split [OF assms] .
  let ?pr = "POSIX_ACL_MINIMAL_ACE_COUNT < length es"
  let ?us = "by_tag POSIX_ACL_USER es" and ?gs = "by_tag POSIX_ACL_GROUP es" and ?ms = "by_tag POSIX_ACL_MASK es"
  have tags: "\<forall>e \<in> set ?us. ace_tag e = POSIX_ACL_USER" "\<forall>e \<in> set ?gs. ace_tag e = POSIX_ACL_GROUP"
    "\<forall>e \<in> set ?ms. ace_tag e = POSIX_ACL_MASK" using by_tag_tags by blast+
  let ?f = "acl_scan frame ctx ?pr want"
  have scan: "?f perm False es = (if rt_uid frame = ctx_uid ctx then Perm_check (perm_user (ctx_perm ctx))
      else case find (\<lambda>e. rt_uid frame = unat (ace_id e)) ?us of
        Some e \<Rightarrow> Mask_check (ace_perm e) | None \<Rightarrow> ?f 0 False (go # ?gs @ ?ms @ [ot]))"
    by (subst s(6)) (simp add: s(1-5) Let_def frame_is_user_def scan_users [OF tags(1) s(4)])
  have grp: "acl_decide es want (?f 0 False (go # ?gs @ ?ms @ [ot])) =
      (if group_perms frame ctx es \<noteq> [] then list_ex (\<lambda>p. masked_has es p want) (group_perms frame ctx es)
       else perm_has (perm_other (ctx_perm ctx)) want)"
  proof -
    let ?p = "if ?pr then ace_perm go else perm_group (ctx_perm ctx)"
    let ?G = "\<lambda>e. frame_in_group frame (unat (ace_id e))"
    have gp: "group_perms frame ctx es =
        (if frame_in_group frame (ctx_gid ctx) then [?p] else []) @ map ace_perm (filter ?G ?gs)"
      by (simp add: group_perms_def s(2))
    have go: "?f 0 False (go # ?gs @ ?ms @ [ot]) =
        (if frame_in_group frame (ctx_gid ctx)
         then (if perm_has ?p want then Mask_check ?p else ?f ?p True (?gs @ ?ms @ [ot]))
         else ?f ?p False (?gs @ ?ms @ [ot]))"
      by (simp add: s(4) Let_def)
    have groups: "acl_decide es want (?f q found (?gs @ ?ms @ [ot])) =
        (if found \<or> filter ?G ?gs \<noteq> [] then list_ex (\<lambda>p. masked_has es p want) (map ace_perm (filter ?G ?gs))
         else perm_has (perm_other (ctx_perm ctx)) want)" for q found
      unfolding scan_groups [OF tags(2,3) s(5)] decide_groups by (auto simp: list_ex_iff filter_empty_conv)
    show ?thesis
    proof (cases "frame_in_group frame (ctx_gid ctx)")
      case True
      then show ?thesis unfolding go gp using masked_or [of es ?p want "map ace_perm (filter ?G ?gs)"]
        by (simp only: if_True if_distrib [of "acl_decide es want"] groups decide_mask append_Cons append_Nil
            list_ex_cons list.distinct not_False_eq_True simp_thms)
    next
      case False
      then show ?thesis unfolding go gp by (simp only: if_False groups append_Nil simp_thms map_is_Nil_conv)
    qed
  qed
  show ?thesis unfolding scan posix1e_allows_def grp [symmetric]
    by (simp add: decide_mask acl_decide_def [of _ _ "Perm_check _"] del: acl_scan.simps split: option.split)
qed


text \<open>The entries acl_permits judges by: the ACL of the inode, or the minimal ACL.\<close>

definition effective_acl :: "acl_state \<Rightarrow> posix_acl_ctx \<Rightarrow> posix_ace list" where
  "effective_acl s ctx = entries_at s (case ctx_access ctx of Some a \<Rightarrow> a | None \<Rightarrow> minimal_acl s)"

lemma entries_at_ref [simp]: "entries_at (posix_acl_ref a s) b = entries_at s b"
  by (auto simp: entries_at_def posix_acl_ref_def acls_modify split: option.split)

lemma ctx_get_again: "posix_acl_ctx_get i s = (c, s1) \<Longrightarrow> posix_acl_ctx_get i s1 = (c, s1)"
  by (auto simp: posix_acl_ctx_get_def split: option.splits)

lemma ctx_get_keeps:
  "posix_acl_ctx_get i s = (c, s1) \<Longrightarrow> entries_at s1 = entries_at s \<and> minimal_acl s1 = minimal_acl s \<and> super_uid s1 = super_uid s"
  by (auto simp: posix_acl_ctx_get_def entries_at_def fun_eq_iff split: option.splits)

lemma acl_permits_value:
  assumes c: "posix_acl_ctx_get i s = (ctx, s1)"
  shows "fst (acl_permits frame i want s) \<longleftrightarrow> frame_is_super_user s frame \<or>
    (let es = effective_acl s ctx in
     acl_decide es want (acl_scan frame ctx (POSIX_ACL_MINIMAL_ACE_COUNT < length es) want 0 False es))"
proof -
  have su: "frame_is_super_user s1 frame = frame_is_super_user s frame"
    using ctx_get_keeps [OF c] by (simp add: frame_is_super_user_def)
  show ?thesis
    using ctx_get_keeps [OF c]
    by (cases "ctx_access ctx")
      (simp_all add: acl_permits_def c ctx_get_again [OF c] su posix_acl_get_def posix_acl_get_raw_def Let_def
        effective_acl_def)
qed

lemma acl_permits_valid:
  assumes "posix_acl_ctx_get i s = (ctx, s1)" "acl_valid (effective_acl s ctx)"
  shows "fst (acl_permits frame i want s) \<longleftrightarrow>
    frame_is_super_user s frame \<or> posix1e_allows frame ctx (effective_acl s ctx) want"
  by (simp only: acl_permits_value [OF assms(1)] Let_def acl_scan_posix1e [OF assms(2)])

end
