(* ===== verification/Posix_Acl_Mode.thy ===== *)
theory Posix_Acl_Mode
  imports Posix_Acl_Check
begin

unbundle bit_operations_syntax

text \<open>
  The agreement of ACLs and file modes: the mode an access ACL stands for, the mode and the
  access ACL a new file gets from the default ACL of its directory, and the refresh of an ACL
  from new attributes.
\<close>

section \<open>The last entry with a tag\<close>

text \<open>The entry that carries the group class of the mode: the mask, or the owning group.\<close>

definition class_ace :: "posix_ace list \<Rightarrow> posix_ace option" where
  "class_ace es = (case last_ace POSIX_ACL_MASK es of Some m \<Rightarrow> Some m | None \<Rightarrow> last_ace POSIX_ACL_GROUP_OBJ es)"

definition middle_tags :: "posix_ace list \<Rightarrow> bool" where
  "middle_tags es = list_all (\<lambda>t. t \<noteq> POSIX_ACL_USER_OBJ \<and> t \<noteq> POSIX_ACL_OTHER) (map ace_tag es)"

lemma last_ace_Cons:
  "last_ace t (e # es) = (case last_ace t es of Some x \<Rightarrow> Some x | None \<Rightarrow> if ace_tag e = t then Some e else None)"
proof -
  have "find P (xs @ [x]) = (case find P xs of Some y \<Rightarrow> Some y | None \<Rightarrow> if P x then Some x else None)"
    for P xs and x :: posix_ace by (induction xs) auto
  then show ?thesis by (simp add: last_ace_def)
qed

lemma last_ace_None: "last_ace t es = None \<longleftrightarrow> t \<notin> ace_tag ` set es"
  by (auto simp: last_ace_def find_None_iff)

lemma class_ace_in: "class_ace es = Some g \<Longrightarrow> g \<in> set es"
proof -
  have "e \<in> set es" if "last_ace t es = Some e" for t e
    using that unfolding last_ace_def find_Some_iff by (metis nth_mem set_rev)
  then show "class_ace es = Some g \<Longrightarrow> g \<in> set es" by (auto simp: class_ace_def split: option.splits)
qed

lemma last_ace_ends:
  assumes "ace_tag uo \<noteq> t" "ace_tag ot \<noteq> t"
  shows "last_ace t (uo # mid @ [ot]) = last_ace t mid"
proof -
  have "last_ace t (mid @ [ot]) = last_ace t mid" using assms by (simp add: last_ace_def)
  then show ?thesis using assms by (simp add: last_ace_Cons split: option.split)
qed

lemma modify_last_ends:
  assumes "ace_tag uo \<noteq> t" "ace_tag ot \<noteq> t"
  shows "modify_last t f (uo # mid @ [ot]) = uo # modify_last t f mid @ [ot]"
proof -
  have "modify_last t f (mid @ [ot]) = modify_last t f mid @ [ot]"
    using assms by (induction mid) auto
  then show ?thesis using assms by simp
qed

lemma modify_last_tags:
  assumes "\<And>e. ace_tag (f e) = ace_tag e"
  shows "map ace_tag (modify_last t f es) = map ace_tag es"
  using assms by (induction es) auto

lemma last_ace_modify:
  assumes "\<And>e. ace_tag (f e) = ace_tag e"
  shows "last_ace t (modify_last t f es) = map_option f (last_ace t es)"
proof (induction es)
  case (Cons e es)
  have "(\<forall>x \<in> set es. ace_tag x \<noteq> t) \<longleftrightarrow> last_ace t es = None" by (auto simp: last_ace_None)
  then show ?case using Cons assms by (auto simp: last_ace_Cons split: option.split)
qed (simp add: last_ace_def)

lemma last_ace_tags:
  assumes "map ace_tag xs = map ace_tag es"
  shows "last_ace t xs = None \<longleftrightarrow> last_ace t es = None"
  using arg_cong [OF assms, of set] by (simp add: last_ace_None)

text \<open>Rewriting the entry that carries the group class.\<close>

definition modify_class :: "(posix_ace \<Rightarrow> posix_ace) \<Rightarrow> posix_ace list \<Rightarrow> posix_ace list" where
  "modify_class f es = modify_last (if last_ace POSIX_ACL_MASK es \<noteq> None then POSIX_ACL_MASK else POSIX_ACL_GROUP_OBJ) f es"

lemma class_modify:
  assumes "\<And>e. ace_tag (f e) = ace_tag e"
  shows "class_ace (modify_class f es) = map_option f (class_ace es)"
proof (cases "last_ace POSIX_ACL_MASK es")
  case None
  moreover have "last_ace POSIX_ACL_MASK (modify_last POSIX_ACL_GROUP_OBJ f es) = None"
    using None last_ace_tags [OF modify_last_tags [OF assms]] by blast
  ultimately show ?thesis by (simp add: class_ace_def modify_class_def last_ace_modify [OF assms])
next
  case (Some m)
  then show ?thesis by (simp add: class_ace_def modify_class_def last_ace_modify [OF assms])
qed

lemma middle_modify:
  assumes "\<And>e. ace_tag (f e) = ace_tag e" "middle_tags es"
  shows "middle_tags (modify_class f es)"
  using assms(2) unfolding middle_tags_def modify_class_def modify_last_tags [OF assms(1)] .

section \<open>The mode of an access ACL\<close>

definition acl_mode :: "u16 \<Rightarrow> u16 \<Rightarrow> u16 \<Rightarrow> mode_t" where
  "acl_mode u g ot = push_bit 6 (ucast u) OR push_bit 3 (ucast g) OR ucast ot"

lemma set_mode_loop_middle:
  "middle_tags mid \<Longrightarrow> set_mode_loop (mid @ rest) msk mode = set_mode_loop rest msk mode"
  by (induction mid) (auto simp: middle_tags_def)

lemma set_mode_value:
  assumes "ace_tag uo = POSIX_ACL_USER_OBJ" "ace_tag ot = POSIX_ACL_OTHER" "middle_tags mid" "class_ace mid = Some g"
  shows "posix_acl_access_set_mode (uo # mid @ [ot]) ctx =
    (let m = acl_mode (ace_perm uo) (ace_perm g) (ace_perm ot) in (m, ctx\<lparr>ctx_perm := (ctx_perm ctx AND NOT 0x1ff) OR m\<rparr>))"
proof -
  have or: "(push_bit 6 a OR b) OR push_bit 3 c = push_bit 6 a OR push_bit 3 c OR (b :: mode_t)" for a b c
    by (simp add: ac_simps)
  have last: "last_ace t (uo # mid @ [ot]) = last_ace t mid" if "t = POSIX_ACL_MASK \<or> t = POSIX_ACL_GROUP_OBJ" for t
    using that assms(1,2) by (intro last_ace_ends) auto
  have loop: "set_mode_loop (uo # mid @ [ot]) 0 0 = (0x1c7, push_bit 6 (ucast (ace_perm uo)) OR ucast (ace_perm ot))"
    by (simp add: assms(1,2) set_mode_loop_middle [OF assms(3)])
  show ?thesis
    unfolding posix_acl_access_set_mode_def loop
    using assms(4) by (simp add: last class_ace_def acl_mode_def Let_def or split: option.splits)
qed

lemma acl_valid_middle:
  assumes "acl_valid es"
  obtains uo mid ot g where "es = uo # mid @ [ot]" "ace_tag uo = POSIX_ACL_USER_OBJ" "ace_tag ot = POSIX_ACL_OTHER"
    "middle_tags mid" "class_ace mid = Some g" "g \<in> set mid"
proof -
  obtain uo go ot where s: "by_tag POSIX_ACL_USER_OBJ es = [uo]" "by_tag POSIX_ACL_GROUP_OBJ es = [go]"
    "ace_tag uo = POSIX_ACL_USER_OBJ" "ace_tag go = POSIX_ACL_GROUP_OBJ" "ace_tag ot = POSIX_ACL_OTHER"
    "es = uo # by_tag POSIX_ACL_USER es @ go # by_tag POSIX_ACL_GROUP es @ by_tag POSIX_ACL_MASK es @ [ot]"
    using acl_valid_split [OF assms] .
  let ?mid = "by_tag POSIX_ACL_USER es @ go # by_tag POSIX_ACL_GROUP es @ by_tag POSIX_ACL_MASK es"
  have mid: "middle_tags ?mid" using s(4) by (auto simp: middle_tags_def list_all_iff dest: by_tag_tags)
  have "last_ace POSIX_ACL_GROUP_OBJ ?mid \<noteq> None" using s(4) by (simp add: last_ace_None)
  then have "class_ace ?mid \<noteq> None" by (simp add: class_ace_def split: option.split)
  then obtain g where g: "class_ace ?mid = Some g" by blast
  moreover have "g \<in> set ?mid" by (rule class_ace_in [OF g])
  moreover have "es = uo # ?mid @ [ot]" using s(6) by simp
  ultimately show ?thesis using that mid s(3,5) by blast
qed

section \<open>Inheritance\<close>

lemma inherit_loop_middle:
  "middle_tags mid \<Longrightarrow> inherit_loop (mid @ rest) m = (let (es, m') = inherit_loop rest m in (mid @ es, m'))"
  by (induction mid) (auto simp: middle_tags_def split: prod.split)

lemma perm_restrict_tag [simp]: "ace_tag (perm_restrict m e) = ace_tag e" "ace_id (perm_restrict m e) = ace_id e"
  by (simp_all add: perm_restrict_def)

lemma perm_high: "p AND 7 = p \<Longrightarrow> 3 \<le> n \<Longrightarrow> \<not> bit p n" for p :: u16
proof -
  assume "p AND 7 = p" "3 \<le> n"
  then have "take_bit 3 p = p" by (simp add: take_bit_eq_mask mask_eq_exp_minus_1)
  then show "\<not> bit p n" using \<open>3 \<le> n\<close> by (metis bit_take_bit_iff linorder_not_le)
qed

text \<open>What posix_acl_inherit_mode computes, on the permission bits alone.\<close>

lemma inherit_bits:
  fixes u g ot :: u16 and m m1 m2 m3 :: mode_t
  assumes low: "u AND 7 = u" "g AND 7 = g" "ot AND 7 = ot"
    and u': "u' = u AND ucast (drop_bit 6 m OR NOT 7)" and m1: "m1 = m AND (push_bit 6 (ucast u') OR NOT 0x1c0)"
    and o': "o' = ot AND ucast (m1 OR NOT 7)" and m2: "m2 = m1 AND (ucast o' OR NOT 7)"
    and g': "g' = g AND ucast (drop_bit 3 m2 OR NOT 7)" and m3: "m3 = m2 AND (push_bit 3 (ucast g') OR NOT 0x38)"
  shows "acl_mode u' g' o' = ((m AND 0xfe00) OR (m3 AND 0x1ff)) AND 0x1ff"
proof (rule word_eq_low_high [of _ _ 9])
  show "list_all (\<lambda>n. bit (acl_mode u' g' o') n = bit (((m AND 0xfe00) OR (m3 AND 0x1ff)) AND 0x1ff) n) (0 # Suc 0 # [2..<9])"
    by (auto simp: acl_mode_def u' o' g' m1 m2 m3 bit_simps low [THEN perm_high])
  show "bit (acl_mode u' g' o') n = bit (((m AND 0xfe00) OR (m3 AND 0x1ff)) AND 0x1ff) n" if n: "9 \<le> n" for n
  proof -
    have "x AND 0x1ff = take_bit 9 x" for x :: mode_t by (simp add: take_bit_eq_mask mask_eq_exp_minus_1)
    then have "\<not> bit (x AND 0x1ff) n" for x :: mode_t using n by (simp add: bit_take_bit_iff)
    moreover have "\<not> bit (acl_mode u' g' o') n"
      using n by (simp add: acl_mode_def u' o' g' bit_simps low [THEN perm_high])
    ultimately show ?thesis by simp
  qed
qed

lemma inherit_mode_value:
  assumes "ace_tag uo = POSIX_ACL_USER_OBJ" "ace_tag ot = POSIX_ACL_OTHER" "middle_tags mid" "class_ace mid = Some g"
    and "uo' = perm_restrict (drop_bit 6 m) uo" "m1 = m AND (push_bit 6 (ucast (ace_perm uo')) OR NOT 0x1c0)"
    and "ot' = perm_restrict m1 ot" "m2 = m1 AND (ucast (ace_perm ot') OR NOT 7)"
    and "f = perm_restrict (drop_bit 3 m2)" "m3 = m2 AND (push_bit 3 (ucast (ace_perm (f g))) OR NOT 0x38)"
  shows "posix_acl_inherit_mode (uo # mid @ [ot]) m =
    ((m AND 0xfe00) OR (m3 AND 0x1ff), uo' # modify_class f mid @ [ot'])"
proof -
  have loop: "inherit_loop (uo # mid @ [ot]) m = (uo' # mid @ [ot'], m2)"
    using assms(1,2,5-8) by (simp add: inherit_loop_middle [OF assms(3)] Let_def)
  have tags: "ace_tag uo' = POSIX_ACL_USER_OBJ" "ace_tag ot' = POSIX_ACL_OTHER" using assms by simp_all
  have ends: "last_ace t (uo' # mid @ [ot']) = last_ace t mid" "modify_last t h (uo' # mid @ [ot']) = uo' # modify_last t h mid @ [ot']"
    if "t = POSIX_ACL_MASK \<or> t = POSIX_ACL_GROUP_OBJ" for t h
    using that tags by (intro last_ace_ends modify_last_ends; auto)+
  show ?thesis
    unfolding posix_acl_inherit_mode_def loop
    using assms(4) by (simp add: ends class_ace_def modify_class_def assms(9,10) Let_def del: modify_last.simps split: option.splits)
qed

text \<open>An ACL whose permissions are the three bits of the kernel.\<close>

definition perms_low :: "posix_ace list \<Rightarrow> bool" where
  "perms_low es = list_all (\<lambda>e. ace_perm e AND 7 = ace_perm e) es"

lemma inherit_agrees:
  assumes valid: "acl_valid es" and low: "perms_low es" and r: "posix_acl_inherit_mode es m = (newmode, es')"
  shows "fst (posix_acl_access_set_mode es' ctx) = newmode AND 0x1ff"
proof -
  obtain uo mid ot g where s: "es = uo # mid @ [ot]" "ace_tag uo = POSIX_ACL_USER_OBJ" "ace_tag ot = POSIX_ACL_OTHER"
    "middle_tags mid" "class_ace mid = Some g" "g \<in> set mid"
    using acl_valid_middle [OF valid] .
  define uo' where "uo' = perm_restrict (drop_bit 6 m) uo"
  define m1 where "m1 = m AND (push_bit 6 (ucast (ace_perm uo')) OR NOT 0x1c0)"
  define ot' where "ot' = perm_restrict m1 ot"
  define m2 where "m2 = m1 AND (ucast (ace_perm ot') OR NOT 7)"
  define f where "f = perm_restrict (drop_bit 3 m2)"
  define m3 where "m3 = m2 AND (push_bit 3 (ucast (ace_perm (f g))) OR NOT 0x38)"
  have v: "newmode = (m AND 0xfe00) OR (m3 AND 0x1ff)" "es' = uo' # modify_class f mid @ [ot']"
    using r inherit_mode_value [OF s(2-5) uo'_def m1_def ot'_def m2_def f_def m3_def] by (simp_all add: s(1))
  have "fst (posix_acl_access_set_mode es' ctx) = acl_mode (ace_perm uo') (ace_perm (f g)) (ace_perm ot')"
    unfolding v(2) by (subst set_mode_value [where g = "f g"])
      (simp_all add: uo'_def ot'_def f_def s class_modify middle_modify Let_def)
  also have "\<dots> = newmode AND 0x1ff"
    unfolding v(1)
    by (rule inherit_bits [where u = "ace_perm uo" and g = "ace_perm g" and ot = "ace_perm ot" and ?m1.0 = m1 and ?m2.0 = m2])
      (use low s(6) in \<open>auto simp: s(1) perms_low_def list_all_iff uo'_def ot'_def f_def m1_def m2_def m3_def perm_restrict_def\<close>)
  finally show ?thesis .
qed


text \<open>Nobody gains a permission: the new mode has only bits of the requested one, and every entry
  of the new access ACL only permissions of the default ACL it comes from.\<close>

definition ace_within :: "posix_ace \<Rightarrow> posix_ace \<Rightarrow> bool" where
  "ace_within e' e \<longleftrightarrow> ace_tag e' = ace_tag e \<and> ace_id e' = ace_id e \<and> ace_perm e' AND NOT (ace_perm e) = 0"

lemma and_not_trans: "a AND NOT b = 0 \<Longrightarrow> b AND NOT c = 0 \<Longrightarrow> a AND NOT c = 0" for a b c :: "'a :: len word"
  by (auto simp: bit_eq_iff bit_and_iff bit_not_iff)

lemma and_within: "(a AND b) AND NOT a = 0" for a b :: "'a :: len word"
  by (simp add: bit_eq_iff bit_and_iff bit_not_iff)

lemma ace_within_refl [simp]: "ace_within e e" by (simp add: ace_within_def)

lemma ace_within_trans: "ace_within a b \<Longrightarrow> ace_within b c \<Longrightarrow> ace_within a c"
  unfolding ace_within_def using and_not_trans by metis

lemma perm_restrict_within: "ace_within (perm_restrict m e) e"
  using and_within by (simp add: ace_within_def perm_restrict_def)

lemma modify_last_within: "list_all2 ace_within (modify_last t (perm_restrict m) es) es"
  by (induction es) (auto simp: perm_restrict_within list_all2_refl)

lemma inherit_loop_within:
  "inherit_loop es m = (es', m') \<Longrightarrow> list_all2 ace_within es' es \<and> m' AND NOT m = 0"
proof (induction es arbitrary: m es' m')
  case (Cons e es)
  obtain e1 m1 where 1: "(if ace_tag e = POSIX_ACL_USER_OBJ then
         (let ace' = perm_restrict (drop_bit 6 m) e in (ace', m AND (push_bit 6 (ucast (ace_perm ace')) OR NOT S_IRWXU)))
       else if ace_tag e = POSIX_ACL_OTHER then
         (let ace' = perm_restrict m e in (ace', m AND (ucast (ace_perm ace') OR NOT S_IRWXO)))
       else (e, m)) = (e1, m1)" by fastforce
  obtain es2 m2 where 2: "inherit_loop es m1 = (es2, m2)" by fastforce
  have "es' = e1 # es2" "m' = m2" using Cons.prems 1 2 by (simp_all add: Let_def)
  moreover have "ace_within e1 e" "m1 AND NOT m = 0"
    using 1 perm_restrict_within and_within by (auto simp: Let_def split: if_splits)
  ultimately show ?case using Cons.IH [OF 2] and_not_trans by auto
qed simp

lemma inherit_within:
  assumes "posix_acl_inherit_mode es m = (newmode, es')"
  shows "newmode AND NOT m = 0" "list_all2 ace_within es' es"
proof -
  obtain es1 m1 where l: "inherit_loop es m = (es1, m1)" by fastforce
  note loop = inherit_loop_within [OF l]
  obtain m2 where m2: "newmode = (m AND 0xfe00) OR (m2 AND 0x1ff)" "m2 AND NOT m1 = 0"
    and es2: "list_all2 ace_within es' es1"
    using assms and_within [of m1] modify_last_within list_all2_refl [of ace_within es1]
    by (auto simp: posix_acl_inherit_mode_def l Let_def split: option.splits)
  have "m2 AND NOT m = 0" using and_not_trans m2(2) loop by blast
  then show "newmode AND NOT m = 0"
    unfolding m2(1) by (auto simp: bit_eq_iff bit_and_iff bit_not_iff bit_or_iff)
  show "list_all2 ace_within es' es"
    by (rule list_all2_trans [OF _ es2]) (use loop ace_within_trans in blast)+
qed

section \<open>Refreshing an ACL from a mode\<close>

lemma take_bit_high: "take_bit k c = c \<Longrightarrow> k \<le> n \<Longrightarrow> \<not> bit c n" for c :: mode_t
  by (metis bit_take_bit_iff linorder_not_le)

lemma acl_mode_of_mode: "acl_mode (perm_user p) (perm_group p) (perm_other p) = p AND 0x1ff"
proof (rule word_eq_low_high [of _ _ 9])
  show "list_all (\<lambda>n. bit (acl_mode (perm_user p) (perm_group p) (perm_other p)) n = bit (p AND 0x1ff) n) (0 # Suc 0 # [2..<9])"
    by (simp add: acl_mode_def perm_user_def perm_group_def perm_other_def bit_simps)
  show "bit (acl_mode (perm_user p) (perm_group p) (perm_other p)) n = bit (p AND 0x1ff) n" if n: "9 \<le> n" for n
  proof -
    have "\<not> bit (7 :: mode_t) k" if "3 \<le> k" for k by (rule take_bit_high [of 3, OF _ that]) simp
    then have "\<not> bit (7 :: mode_t) (n - 6)" "\<not> bit (7 :: mode_t) (n - 3)" "\<not> bit (7 :: mode_t) n"
      using n by simp_all
    moreover have "\<not> bit (0x1ff :: mode_t) n" by (rule take_bit_high [of 9, OF _ n]) simp
    ultimately show ?thesis using n
      by (auto simp: acl_mode_def perm_user_def perm_group_def perm_other_def bit_simps)
  qed
qed

lemma refresh_agrees:
  assumes "acl_valid es"
  shows "fst (refresh_entries perm es) = 0"
    "fst (posix_acl_access_set_mode (snd (refresh_entries perm es)) ctx) = perm AND 0x1ff"
proof -
  obtain uo mid ot g where s: "es = uo # mid @ [ot]" "ace_tag uo = POSIX_ACL_USER_OBJ" "ace_tag ot = POSIX_ACL_OTHER"
    "middle_tags mid" "class_ace mid = Some g" "g \<in> set mid"
    using acl_valid_middle [OF assms] .
  let ?uo = "uo\<lparr>ace_perm := perm_user perm\<rparr>" and ?ot = "ot\<lparr>ace_perm := perm_other perm\<rparr>"
  let ?f = "\<lambda>ce :: posix_ace. ce\<lparr>ace_perm := perm_group perm\<rparr>"
  have "map (refresh_ace perm) mid = mid"
    using s(4) by (induction mid) (auto simp: middle_tags_def refresh_ace_def)
  then have es1: "map (refresh_ace perm) es = ?uo # mid @ [?ot]"
    by (simp add: s(1-3) refresh_ace_def)
  have ends: "last_ace t (?uo # mid @ [?ot]) = last_ace t mid" "modify_last t h (?uo # mid @ [?ot]) = ?uo # modify_last t h mid @ [?ot]"
    if "t = POSIX_ACL_MASK \<or> t = POSIX_ACL_GROUP_OBJ" for t h
    using that s(2,3) by (intro last_ace_ends modify_last_ends; auto)+
  have r: "refresh_entries perm es = (0, ?uo # modify_class ?f mid @ [?ot])"
    unfolding refresh_entries_def es1 using s(5)
    by (auto simp: Let_def ends class_ace_def modify_class_def simp del: modify_last.simps split: option.splits)
  then show "fst (refresh_entries perm es) = 0" by simp
  show "fst (posix_acl_access_set_mode (snd (refresh_entries perm es)) ctx) = perm AND 0x1ff"
    unfolding r by (subst snd_conv, subst set_mode_value [where g = "?f g"])
      (simp_all add: s class_modify middle_modify Let_def acl_mode_of_mode)
qed

end
