(* ===== verification/Posix_Acl_Effects.thy ===== *)
theory Posix_Acl_Effects
  imports Posix_Acl_Mode
begin

unbundle bit_operations_syntax

text \<open>
  The states after setting an access ACL and after creating a file in a directory with a default
  ACL: which objects the inode points to and which entries they hold once all references of the
  operation are dropped.
\<close>

section \<open>What operations leave in the store\<close>

lemma acls_unref_opt:
  "acls (unref_opt p s) a = Some x \<Longrightarrow> \<exists>y. acls s a = Some y \<and> acl_entries y = acl_entries x"
  by (auto simp: unref_opt_def posix_acl_unref_def posix_acl_destroy_def acls_modify Let_def
      split: option.splits if_splits)

text \<open>An object that is still there has kept its entries.\<close>

lemma entries_unref_opt: "acls (unref_opt p s) a \<noteq> None \<Longrightarrow> entries_at (unref_opt p s) a = entries_at s a"
  using acls_unref_opt [of p s a] by (auto simp: entries_at_def)

lemma alive_unref_opt: "acls (unref_opt p s) a \<noteq> None \<Longrightarrow> acls s a \<noteq> None"
  using acls_unref_opt [of p s a] by auto

lemma entries_ref_opt [simp]: "entries_at (ref_opt p s) a = entries_at s a"
  by (simp add: ref_opt_def split: option.split)

lemma entries_ctxs [simp]: "entries_at (s\<lparr>ctxs := cs\<rparr>) = entries_at s"
  by (simp add: entries_at_def fun_eq_iff)

lemma entries_set:
  assumes "acls (posix_acl_set i acc dfl s) a \<noteq> None"
  shows "entries_at (posix_acl_set i acc dfl s) a = entries_at s a"
proof -
  obtain c s1 where c: "posix_acl_ctx_get i s = (c, s1)" by fastforce
  let ?s3 = "posix_acl_set_raw i acc dfl (ref_opt dfl (ref_opt acc s1))"
  have set: "posix_acl_set i acc dfl s = unref_opt (ctx_default c) (unref_opt (ctx_access c) ?s3)"
    by (simp add: posix_acl_set_def posix_acl_get_raw_def c Let_def)
  have "entries_at ?s3 a = entries_at s a"
    using ctx_get_keeps [OF c]
    by (simp add: posix_acl_set_raw_def posix_acl_ctx_get_def split: option.split)
  then show ?thesis using assms entries_unref_opt alive_unref_opt unfolding set by metis
qed

lemma ctxs_set:
  assumes "posix_acl_ctx_get i s = (c, s1)"
  shows "ctxs (posix_acl_set i acc dfl s) = (ctxs s1)(i \<mapsto> c\<lparr>ctx_access := acc, ctx_default := dfl\<rparr>)"
proof -
  have "ctxs s1 i = Some c" using assms by (auto simp: posix_acl_ctx_get_def split: option.splits)
  then show ?thesis
    by (simp add: posix_acl_set_def posix_acl_get_raw_def posix_acl_set_raw_def posix_acl_ctx_get_def assms Let_def)
      (simp add: assms [unfolded posix_acl_ctx_get_def] posix_acl_ctx_get_def)
qed


lemma new_keeps:
  assumes "acl_inv K s" "posix_acl_new es s = (a, s')"
  shows "entries_at s' a = es" "\<And>b. acls s b \<noteq> None \<Longrightarrow> entries_at s' b = entries_at s b \<and> b \<noteq> a"
proof -
  show "entries_at s' a = es" using acl_inv_new [OF assms] by (simp add: entries_at_def)
  show "entries_at s' b = entries_at s b \<and> b \<noteq> a" if "acls s b \<noteq> None" for b
    using that acl_inv_new [OF assms] by (cases "b = a") (simp_all add: entries_at_def)
qed

lemma ctxs_xattr_update: "posix_acl_xattr_update data old s = (p, s') \<Longrightarrow> ctxs s' = ctxs s"
  by (auto simp: posix_acl_xattr_update_def posix_acl_from_xattr_def posix_acl_new_def Let_def split: option.splits prod.splits)

lemma xattr_update_keeps:
  assumes "acl_inv K s" "posix_acl_xattr_update data old s = (p, s')" "acls s b \<noteq> None"
  shows "entries_at s' b = entries_at s b"
  using assms new_keeps [OF assms(1)]
  by (auto simp: posix_acl_xattr_update_def posix_acl_from_xattr_def split: option.splits prod.splits)

lemma access_alive: "acl_inv H s \<Longrightarrow> access_ptr s i = Some a \<Longrightarrow> acls s a \<noteq> None"
  using acl_inv_ptr_alive [of H s i a] by auto

text \<open>Setting an access ACL puts it on the inode and its mode into the context.\<close>

lemma setxattr_update_effect:
  assumes inv: "acl_inv {#} s" and c: "posix_acl_ctx_get i s = (c, s0)"
    and x: "xd_access xattr = Some buf" "decode_xattr buf = Some es"
  obtains a dfl where "entries_at (posix_acl_setxattr_update i xattr s) a = es"
    "ctxs (posix_acl_setxattr_update i xattr s) i =
       Some (snd (posix_acl_access_set_mode es (c\<lparr>ctx_access := Some a, ctx_default := dfl\<rparr>)))"
proof -
  have s0: "acl_inv {#} s0" "ctxs s0 i = Some c" using acl_inv_ctx_get [OF inv c] by simp_all
  obtain oa od s1 where g: "posix_acl_get i True True s0 = (oa, od, s1)" by (metis prod_cases3)
  note get = acl_inv_get [OF s0(1) g]
  have s1: "ctxs s1 i = Some c" using get(8) s0(2) by (simp add: ctx_get_again [OF c])
  obtain a s2 where a: "posix_acl_new es s1 = (a, s2)" by fastforce
  note new = acl_inv_new [OF get(1) a]
  have up: "posix_acl_xattr_update (xd_access xattr) oa s1 = (Some a, s2)"
    by (simp add: posix_acl_xattr_update_def posix_acl_from_xattr_def x a)
  have ne: "oa \<noteq> Some a" using access_alive [OF get(1), of i a] new(3) get(2,6) by auto
  obtain dfl s3 where d: "posix_acl_xattr_update (xd_default xattr) od s2 = (dfl, s3)" by fastforce
  have e3: "entries_at s3 a = es"
    using xattr_update_keeps [OF new(1) d, of a] new(2) new_keeps(1) [OF get(1) a] by simp
  have c3: "ctxs s3 i = Some c"
    using s1 new(5) ctxs_xattr_update [OF d] by simp
  let ?s4 = "posix_acl_set i (Some a) dfl s3"
  let ?s5 = "ctx_modify i (\<lambda>ctx. snd (posix_acl_access_set_mode (entries_at ?s4 a) ctx)) ?s4"
  have s': "posix_acl_setxattr_update i xattr s =
      unref_opt od (unref_opt oa (unref_opt dfl (unref_opt (Some a) ?s5)))" (is "?l = ?r")
    using ne by (simp add: posix_acl_setxattr_update_def c g up d Let_def)
  have c5: "ctxs ?r i = Some (snd (posix_acl_access_set_mode (entries_at ?s4 a) (c\<lparr>ctx_access := Some a, ctx_default := dfl\<rparr>)))"
    using c3 ctxs_set [of i s3 c s3 "Some a" dfl] by (simp add: ctx_modify_def posix_acl_ctx_get_def)
  have "access_ptr ?l i = Some a" unfolding s' by (simp add: access_ptr_def c5 [simplified] set_mode_ptrs)
  then have "acls ?l a \<noteq> None" by (rule access_alive [OF setxattr_update_inv [OF inv]])
  then have alive: "acls ?r a \<noteq> None" unfolding s' .
  have e4: "entries_at ?r a = entries_at ?s5 a" "acls ?s5 a \<noteq> None"
    using alive entries_unref_opt alive_unref_opt by metis+
  have "entries_at ?s5 a = entries_at ?s4 a" "acls ?s4 a \<noteq> None"
    using e4(2) by (simp_all add: ctx_modify_def)
  then have "entries_at ?r a = es" "entries_at ?s4 a = es" using e4(1) entries_set e3 by simp_all
  then show ?thesis using that s' c5 by metis
qed


text \<open>A default ACL of the directory becomes the access ACL of the new inode, narrowed by the mode
  asked for, and of a new directory the default ACL as well.\<close>

lemma inherit_effect:
  assumes inv: "acl_inv {#} s" and pd: "default_ptr s p = Some pd" and ne: "p \<noteq> i"
    and cm: "client_mode mode umask params = (rm, cu, Some prm)"
    and nm: "posix_acl_inherit_mode (entries_at s pd) rm = (nm, es)"
    and r: "posix_acl_inherit p i params mode umask is_dir s = (m, params', s')"
  obtains a c where "m = nm" "ctxs s' i = Some c" "ctx_perm c = nm" "ctx_access c = Some a" "entries_at s' a = es"
    "ctx_default c = (if is_dir then Some pd else None)" "entries_at s' pd = entries_at s pd"
    "params' = Some (prm\<lparr>cp_access := Some (acl_xattr es),
       cp_default := (if is_dir then Some (acl_xattr (entries_at s pd)) else cp_default prm)\<rparr>)"
proof -
  let ?dfl = "if is_dir then Some pd else None"
  obtain x dp s1 where g: "posix_acl_get p False True s = (x, dp, s1)" by (metis prod_cases3)
  note get = acl_inv_get [OF inv g]
  have dp: "dp = Some pd" using get(7) pd by simp
  have s1: "acl_inv {#pd#} s1" using get(1,6) dp by simp
  obtain c2 s2 where c2: "posix_acl_ctx_get i s1 = (c2, s2)" by fastforce
  note s2 = acl_inv_ctx_get [OF s1 c2]
  have e2: "entries_at s2 pd = entries_at s pd" using get(9) ctx_get_keeps [OF c2] by simp
  obtain a s3 where a: "posix_acl_new (entries_at s2 pd) s2 = (a, s3)" by fastforce
  note new = acl_inv_new [OF s2(1) a]
  have pd2: "acls s2 pd \<noteq> None" using acl_inv_alive [OF s2(1), of pd] by auto
  have e3: "entries_at s3 a = entries_at s pd" "entries_at s3 pd = entries_at s pd" "pd \<noteq> a"
    using new_keeps [OF s2(1) a] pd2 e2 by simp_all
  define s4 where "s4 = acl_modify (\<lambda>x. x\<lparr>acl_entries := es\<rparr>) a s3"
  have e4: "entries_at s4 a = es" "entries_at s4 pd = entries_at s pd"
    using new(2) e3 by (simp_all add: s4_def entries_at_def acls_modify)
  define s5 where "s5 = ctx_modify i (\<lambda>c. c\<lparr>ctx_perm := nm\<rparr>) s4"
  have c5: "ctxs s5 i = Some (c2\<lparr>ctx_perm := nm\<rparr>)" "\<And>j. j \<noteq> i \<Longrightarrow> ctxs s5 j = ctxs s1 j"
    using s2(2,6) new(5) by (simp_all add: s5_def s4_def ctx_modify_def)
  have e5: "entries_at s5 a = es" "entries_at s5 pd = entries_at s pd" using e4 by (simp_all add: s5_def ctx_modify_def)
  let ?s7 = "posix_acl_set i (Some a) ?dfl (ref_opt ?dfl s5)"
  let ?s8 = "unref_opt ?dfl (unref_opt (Some a) (unref_opt (Some pd) ?s7))"
  have res: "m = nm" "s' = ?s8" "params' = Some (prm\<lparr>cp_access := Some (acl_xattr es),
       cp_default := (if is_dir then Some (acl_xattr (entries_at s pd)) else cp_default prm)\<rparr>)"
    using r unfolding posix_acl_inherit_def cm g dp
    by (auto simp: c2 posix_acl_dup_def a e3 nm s4_def [symmetric] s5_def [symmetric] e5 Let_def unref_opt_def split: if_splits)
  have c7: "ctxs s' i = Some (c2\<lparr>ctx_perm := nm, ctx_access := Some a, ctx_default := ?dfl\<rparr>)"
    "\<And>j. j \<noteq> i \<Longrightarrow> ctxs s' j = ctxs s1 j"
    using ctxs_set [of i "ref_opt ?dfl s5" "c2\<lparr>ctx_perm := nm\<rparr>" "ref_opt ?dfl s5" "Some a" ?dfl] c5
    by (simp_all add: res(2) posix_acl_ctx_get_def)
  have inv': "acl_inv {#} s'" by (rule inherit_inv [OF inv r])
  have "default_ptr s' p = Some pd" using pd get(3) ne c7(2) by (simp add: default_ptr_def fun_eq_iff)
  then have "acls s' a \<noteq> None" "acls s' pd \<noteq> None"
    using acl_inv_ptr_alive [OF inv', of i a] acl_inv_ptr_alive [OF inv', of p pd] c7(1) by (auto simp: access_ptr_def)
  then have "entries_at s' a = es" "entries_at s' pd = entries_at s pd"
    unfolding res(2) using e5 entries_set entries_unref_opt alive_unref_opt entries_ref_opt by metis+
  then show ?thesis using that [OF res(1) c7(1)] res(3) by simp
qed

end
