(* ===== verification/Posix_Acl_Props.thy ===== *)
theory Posix_Acl_Props
  imports Posix_Acl_Effects
begin

unbundle bit_operations_syntax

text \<open>
  Properties of the access-control translator: the permission check, the encoding of ACLs, the
  agreement of ACLs and modes, the reference counts and the file operations.
\<close>

section \<open>Example states\<close>

text \<open>A directory, inode 11, of user 100 and group 100 with mode 1770 and an ACL that lets user 200
  read and search it; its default ACL is the same.  Inode 12 is a file of user 300 in it.\<close>

definition acl_sample_entries :: "posix_ace list" where
  "acl_sample_entries =
     [\<lparr>ace_tag = 1, ace_perm = 7, ace_id = 0xffffffff\<rparr>, \<lparr>ace_tag = 2, ace_perm = 5, ace_id = 200\<rparr>,
      \<lparr>ace_tag = 4, ace_perm = 7, ace_id = 0xffffffff\<rparr>, \<lparr>ace_tag = 16, ace_perm = 7, ace_id = 0xffffffff\<rparr>,
      \<lparr>ace_tag = 32, ace_perm = 0, ace_id = 0xffffffff\<rparr>]"

definition acl_sample_buf :: iatt where
  "acl_sample_buf = \<lparr>ia_type = IA_IFDIR, ia_prot = ia_prot_from_st_mode 0x3f8, ia_uid = 100, ia_gid = 100\<rparr>"

definition acl_sample_file :: iatt where
  "acl_sample_file = \<lparr>ia_type = IA_IFREG, ia_prot = ia_prot_from_st_mode 0x1a0, ia_uid = 300, ia_gid = 300\<rparr>"

definition acl_sample_dict :: xattr_dict where
  "acl_sample_dict = \<lparr>xd_access = Some (acl_xattr acl_sample_entries), xd_default = Some (acl_xattr acl_sample_entries)\<rparr>"

definition acl_sample_state :: acl_state where
  "acl_sample_state =
     snd (posix_acl_lookup_cbk 0 0 12 acl_sample_file \<lparr>xd_access = None, xd_default = None\<rparr>
       (snd (posix_acl_lookup_cbk 0 0 11 acl_sample_buf acl_sample_dict (posix_acl_init 0))))"

definition acl_sample_frame :: "nat \<Rightarrow> call_root" where
  "acl_sample_frame uid = \<lparr>frame_id = 1, rt_client = 1, rt_pid = 9, rt_lk_owner = [], rt_uid = uid, rt_gid = uid, rt_groups = []\<rparr>"

lemma acl_sample_reachable: "acl_reachable acl_sample_state"
  unfolding acl_sample_state_def by (intro acl_reachable.intros)

lemma acl_sample_valid: "acl_valid acl_sample_entries" "perms_low acl_sample_entries" "list_all ace_codable acl_sample_entries"
  by (simp_all add: acl_valid_def acl_grouped_def by_tag_def acl_sample_entries_def perms_low_def ace_codable_def acl_tags_def)

lemma acl_sample_normal: "posix_acl_normalize acl_sample_entries = acl_sample_entries"
  by (simp add: posix_acl_normalize_def acl_sample_entries_def posix_ace_cmp_def)

lemma acl_sample_decode: "decode_xattr (acl_xattr acl_sample_entries) = Some acl_sample_entries"
  by (simp add: decode_encode acl_sample_valid acl_sample_normal)

lemma acl_sample_modes: "st_mode_from_ia (ia_prot acl_sample_buf) (ia_type acl_sample_buf) = 0x43f8"
   "st_mode_from_ia (ia_prot acl_sample_file) (ia_type acl_sample_file) = 0x81a0"
  by code_simp+


lemmas acl_run = posix_acl_init_def posix_acl_new_def posix_acl_ref_def posix_acl_unref_def posix_acl_destroy_def
  acl_modify_def ref_opt_def unref_opt_def posix_acl_get_def posix_acl_get_raw_def posix_acl_set_def posix_acl_set_raw_def
  posix_acl_ctx_get_def zero_ctx_def lookup_acl_def posix_acl_from_xattr_def posix_acl_ctx_update_def entries_at_def
  posix_acl_lookup_cbk_def Let_def

lemma acl_sample_first:
  "snd (posix_acl_lookup_cbk 0 0 11 acl_sample_buf acl_sample_dict (posix_acl_init 0)) =
     \<lparr>super_uid = 0, minimal_acl = 1,
      acls = [1 \<mapsto> \<lparr>acl_refcnt = 1, acl_entries = minimal_entries\<rparr>, 2 \<mapsto> \<lparr>acl_refcnt = 1, acl_entries = acl_sample_entries\<rparr>,
              3 \<mapsto> \<lparr>acl_refcnt = 1, acl_entries = acl_sample_entries\<rparr>],
      acl_brk = 4,
      ctxs = [11 \<mapsto> \<lparr>ctx_uid = 100, ctx_gid = 100, ctx_perm = 0x43f8, ctx_access = Some 2, ctx_default = Some 3\<rparr>]\<rparr>"
  by (simp add: acl_run acl_sample_dict_def acl_sample_decode acl_sample_modes) (auto simp: acl_sample_buf_def fun_eq_iff)


lemma acl_sample_second:
  "acl_sample_state =
     \<lparr>super_uid = 0, minimal_acl = 1,
      acls = [1 \<mapsto> \<lparr>acl_refcnt = 1, acl_entries = minimal_entries\<rparr>, 2 \<mapsto> \<lparr>acl_refcnt = 1, acl_entries = acl_sample_entries\<rparr>,
              3 \<mapsto> \<lparr>acl_refcnt = 1, acl_entries = acl_sample_entries\<rparr>],
      acl_brk = 4,
      ctxs = [11 \<mapsto> \<lparr>ctx_uid = 100, ctx_gid = 100, ctx_perm = 0x43f8, ctx_access = Some 2, ctx_default = Some 3\<rparr>,
              12 \<mapsto> \<lparr>ctx_uid = 300, ctx_gid = 300, ctx_perm = 0x81a0, ctx_access = None, ctx_default = None\<rparr>]\<rparr>"
  unfolding acl_sample_state_def acl_sample_first
  by (simp add: acl_run acl_sample_modes) (simp add: acl_sample_file_def)

lemma acl_sample_facts:
  "posix_acl_ctx_get 11 acl_sample_state =
     (\<lparr>ctx_uid = 100, ctx_gid = 100, ctx_perm = 0x43f8, ctx_access = Some 2, ctx_default = Some 3\<rparr>, acl_sample_state)"
  "entries_at acl_sample_state 2 = acl_sample_entries" "entries_at acl_sample_state 3 = acl_sample_entries" "super_uid acl_sample_state = 0"
  "ctxs acl_sample_state 11 = Some \<lparr>ctx_uid = 100, ctx_gid = 100, ctx_perm = 0x43f8, ctx_access = Some 2, ctx_default = Some 3\<rparr>"
  by (simp_all add: acl_sample_second posix_acl_ctx_get_def entries_at_def)

section \<open>The permission check\<close>

text \<open>C3: on an inode whose ACL is valid, or that has none, acl_permits grants exactly what the
  access check of POSIX.1e grants, and everything to the super user.\<close>

theorem acl_permits_posix1e:
  assumes "acl_valid (effective_acl s (fst (posix_acl_ctx_get inode s)))"
  shows "fst (acl_permits frame inode want s) \<longleftrightarrow>
    frame_is_super_user s frame \<or>
    posix1e_allows frame (fst (posix_acl_ctx_get inode s)) (effective_acl s (fst (posix_acl_ctx_get inode s))) want"
  using acl_permits_valid [of inode s "fst (posix_acl_ctx_get inode s)" "snd (posix_acl_ctx_get inode s)"] assms by simp

theorem acl_permits_posix1e_witness:
  "acl_valid (effective_acl acl_sample_state (fst (posix_acl_ctx_get 11 acl_sample_state))) \<and>
   fst (acl_permits (acl_sample_frame 200) 11 POSIX_ACL_READ acl_sample_state) \<and>
   \<not> fst (acl_permits (acl_sample_frame 200) 11 POSIX_ACL_WRITE acl_sample_state)"
proof -
  have v: "acl_valid (effective_acl acl_sample_state (fst (posix_acl_ctx_get 11 acl_sample_state)))"
    by (simp add: effective_acl_def acl_sample_facts acl_sample_valid)
  show ?thesis
    using v acl_permits_posix1e [OF v, of "acl_sample_frame 200" 4] acl_permits_posix1e [OF v, of "acl_sample_frame 200" 2]
    by (simp add: effective_acl_def acl_sample_facts frame_is_super_user_def frame_is_user_def acl_sample_frame_def
        posix1e_allows_def by_tag_def masked_has_def perm_has_def acl_sample_entries_def)
qed

text \<open>The check relies on the entry for others: an ACL without one leaves the loop with the
  permissions of the last entry looked at, here those of the owning group, and a caller that no
  entry matches is judged by them.  User 500 may write to a directory of mode 1770.\<close>

definition headless_entries :: "posix_ace list" where
  "headless_entries =
     [\<lparr>ace_tag = 1, ace_perm = 7, ace_id = 0xffffffff\<rparr>, \<lparr>ace_tag = 2, ace_perm = 0, ace_id = 200\<rparr>,
      \<lparr>ace_tag = 4, ace_perm = 7, ace_id = 0xffffffff\<rparr>, \<lparr>ace_tag = 16, ace_perm = 7, ace_id = 0xffffffff\<rparr>]"

theorem missing_other_grants:
  "let s = acl_modify (\<lambda>x. x\<lparr>acl_entries := headless_entries\<rparr>) 2 acl_sample_state in
   fst (acl_permits (acl_sample_frame 500) 11 POSIX_ACL_WRITE s) \<and> perm_other (ctx_perm (fst (posix_acl_ctx_get 11 s))) = 0"
proof -
  let ?s = "acl_modify (\<lambda>x. x\<lparr>acl_entries := headless_entries\<rparr>) 2 acl_sample_state"
  let ?c = "\<lparr>ctx_uid = 100, ctx_gid = 100, ctx_perm = 0x43f8, ctx_access = Some 2, ctx_default = Some 3\<rparr>"
  have c: "posix_acl_ctx_get 11 ?s = (?c, ?s)" by (simp add: posix_acl_ctx_get_def acl_sample_second)
  have eff: "effective_acl ?s ?c = headless_entries"
    by (simp add: effective_acl_def entries_at_def acls_modify) (simp add: acl_sample_second)
  have "fst (acl_permits (acl_sample_frame 500) 11 2 ?s)"
    unfolding acl_permits_value [OF c] Let_def eff
    by (simp add: headless_entries_def frame_is_user_def frame_in_group_def
        acl_sample_frame_def acl_decide_def perm_has_def)
  then show ?thesis by (simp add: c perm_other_def Let_def)
qed

section \<open>Extended attributes\<close>

text \<open>C36: an ACL written as an extended attribute is read back with the same entries in the
  order of posix_acl_normalize, which keeps every entry and sorts by tag; and an ACL in that order
  matches its own attribute.\<close>

theorem acl_xattr_round_trip:
  assumes "list_all ace_codable es"
  shows "decode_xattr (acl_xattr es) = Some (posix_acl_normalize es) \<and>
    mset (posix_acl_normalize es) = mset es \<and> tag_sorted (posix_acl_normalize es) \<and>
    (posix_acl_normalize es = es \<longrightarrow> posix_acl_matches_xattr es (acl_xattr es))"
  using decode_encode [OF assms] normalize_mset normalize_sorted
  by (simp_all add: posix_acl_matches_xattr_def)

theorem acl_xattr_round_trip_witness:
  "list_all ace_codable acl_sample_entries \<and> decode_xattr (acl_xattr acl_sample_entries) = Some acl_sample_entries \<and>
   posix_acl_matches_xattr acl_sample_entries (acl_xattr acl_sample_entries)"
  using acl_xattr_round_trip [OF acl_sample_valid(3)] acl_sample_valid(3) acl_sample_normal by simp

section \<open>Modes\<close>

text \<open>C33: the mode and the access ACL a new file inherits have no permission that the requested
  mode or the default ACL lacks, and for a valid default ACL the new ACL stands for exactly the
  permission bits of the new mode.\<close>

theorem inherit_mode_bounds:
  assumes "posix_acl_inherit_mode es modein = (newmode, es')"
  shows "newmode AND NOT modein = 0 \<and> list_all2 ace_within es' es \<and>
    (acl_valid es \<longrightarrow> perms_low es \<longrightarrow> fst (posix_acl_access_set_mode es' ctx) = newmode AND 0x1ff)"
  using inherit_within [OF assms] inherit_agrees assms by blast

text \<open>A directory made with mode 750 under the sample default ACL: others have nothing, the mask
  becomes r-x.\<close>

definition inherited_entries :: "posix_ace list" where
  "inherited_entries = snd (posix_acl_inherit_mode acl_sample_entries 0x1e8)"

lemma inherited_value: "posix_acl_inherit_mode acl_sample_entries 0x1e8 = (0x1e8, inherited_entries)"
  "inherited_entries = acl_sample_entries[3 := \<lparr>ace_tag = 16, ace_perm = 5, ace_id = 0xffffffff\<rparr>]"
  by code_simp+

theorem inherit_mode_bounds_witness:
  "posix_acl_inherit_mode acl_sample_entries 0x1e8 = (0x1e8, inherited_entries) \<and> acl_valid acl_sample_entries \<and>
   perms_low acl_sample_entries \<and> fst (posix_acl_access_set_mode inherited_entries zero_ctx) = 0x1e8"
  using inherit_mode_bounds [OF inherited_value(1), of zero_ctx] inherited_value(1) acl_sample_valid by simp

text \<open>When new attributes arrive for an inode with a valid extended ACL, posix_acl_ctx_update
  takes over owner, group and mode and rewrites the ACL so that it stands for the new mode; no
  other ACL changes.\<close>

theorem ctx_update_agrees:
  assumes "ctxs s inode = Some ctx" "ctx_access ctx = Some a" "acl_valid (entries_at s a)" "3 < length (entries_at s a)"
  shows "let (ret, s') = posix_acl_ctx_update inode buf s; perm = st_mode_from_ia (ia_prot buf) (ia_type buf) in
    ret = 0 \<and> ctxs s' inode = Some (ctx\<lparr>ctx_uid := ia_uid buf, ctx_gid := ia_gid buf, ctx_perm := perm\<rparr>) \<and>
    fst (posix_acl_access_set_mode (entries_at s' a) ctx) = perm AND 0x1ff \<and>
    (\<forall>b. b \<noteq> a \<longrightarrow> entries_at s' b = entries_at s b)"
proof -
  let ?perm = "st_mode_from_ia (ia_prot buf) (ia_type buf)"
  let ?s2 = "s\<lparr>ctxs := (ctxs s)(inode \<mapsto> ctx\<lparr>ctx_uid := ia_uid buf, ctx_gid := ia_gid buf, ctx_perm := ?perm\<rparr>)\<rparr>"
  let ?s3 = "acl_modify (\<lambda>x. x\<lparr>acl_entries := snd (refresh_entries ?perm (entries_at s a))\<rparr>) a ?s2"
  have up: "posix_acl_ctx_update inode buf s = (0, ?s3)"
    using assms refresh_agrees(1) [OF assms(3), of ?perm]
    by (simp add: posix_acl_ctx_update_def posix_acl_ctx_get_def Let_def split_beta)
  have alive: "acls s a \<noteq> None" using assms(4) by (auto simp: entries_at_def split: option.splits)
  then have "entries_at ?s3 a = snd (refresh_entries ?perm (entries_at s a))"
    by (auto simp: entries_at_def acls_modify)
  then show ?thesis
    unfolding up using refresh_agrees(2) [OF assms(3), of ?perm ctx]
    by (auto simp: Let_def entries_at_def acls_modify)
qed

theorem ctx_update_agrees_witness:
  "let ctx = \<lparr>ctx_uid = 100, ctx_gid = 100, ctx_perm = 0x43f8, ctx_access = Some 2, ctx_default = Some 3\<rparr>;
       s' = snd (posix_acl_ctx_update 11 acl_sample_file acl_sample_state) in
   ctxs acl_sample_state 11 = Some ctx \<and> acl_valid (entries_at acl_sample_state 2) \<and> 3 < length (entries_at acl_sample_state 2) \<and>
   fst (posix_acl_access_set_mode (entries_at s' 2) ctx) = 0x1a0"
proof -
  have len: "3 < length (entries_at acl_sample_state 2)" by (simp add: acl_sample_facts acl_sample_entries_def)
  show ?thesis
    using ctx_update_agrees [OF acl_sample_facts(5) _ _ len, of acl_sample_file] len acl_sample_valid
    by (simp add: acl_sample_facts acl_sample_modes Let_def split_beta)
qed

section \<open>References\<close>

text \<open>C6: in every reachable state the reference count of an ACL object is the number of pointers
  to it from inode contexts and from the translator, so that no object is freed while it is in use
  (every pointer leads to an object) and none is leaked (an object has a pointer); and the access
  ACL of an inode is pointed to by nothing else.\<close>

theorem acl_references:
  assumes "acl_reachable s"
  shows "(\<forall>a acl. acls s a = Some acl \<longrightarrow>
      acl_refcnt acl = ctx_refs (ctxs s) a + of_bool (a = minimal_acl s) \<and> 0 < acl_refcnt acl) \<and>
    (\<forall>i a. access_ptr s i = Some a \<or> default_ptr s i = Some a \<longrightarrow> acls s a \<noteq> None) \<and>
    (\<forall>i j a. access_ptr s i = Some a \<longrightarrow> default_ptr s j \<noteq> Some a \<and> (j \<noteq> i \<longrightarrow> access_ptr s j \<noteq> Some a))"
proof -
  have inv: "acl_inv {#} s" by (rule reachable_inv [OF assms])
  have "acl_refcnt acl = acl_total {#} s a \<and> 0 < acl_total {#} s a" if "acls s a = Some acl" for a acl
    using acl_inv_counted [OF inv, of a] that by (simp add: acl_counted_def)
  moreover have "acls s a \<noteq> None" if "access_ptr s i = Some a \<or> default_ptr s i = Some a" for i a
    using acl_inv_ptr_alive [OF inv that] by simp
  moreover have "access_private s" using inv by (simp add: acl_inv_def)
  ultimately show ?thesis unfolding access_private_def acl_private_def by (auto simp: acl_total_def)
qed

theorem acl_references_witness:
  "acl_reachable acl_sample_state \<and> access_ptr acl_sample_state 11 = Some 2 \<and> acls acl_sample_state 2 \<noteq> None \<and>
   default_ptr acl_sample_state 11 \<noteq> Some 2"
proof -
  have p: "access_ptr acl_sample_state 11 = Some 2" by (simp add: access_ptr_def acl_sample_facts)
  show ?thesis using acl_references [OF acl_sample_reachable] p acl_sample_reachable by blast
qed

section \<open>File operations\<close>

lemma super_ctx_get:
  "frame_is_super_user (snd (posix_acl_ctx_get i s)) frame = frame_is_super_user s frame"
  by (simp add: posix_acl_ctx_get_def frame_is_super_user_def split: option.split)

lemma permits_super_uid: "super_uid (snd (acl_permits frame i want s)) = super_uid s"
  by (simp add: acl_permits_def posix_acl_get_def posix_acl_get_raw_def posix_acl_ctx_get_def Let_def split: option.split)

lemma super_permits:
  assumes "frame_is_super_user s frame"
  shows "acl_permits frame i want s = (True, snd (posix_acl_ctx_get i s))"
    "sticky_permits frame p i s = (True, snd (posix_acl_ctx_get i (snd (posix_acl_ctx_get p s))))"
  using assms super_ctx_get by (simp_all add: acl_permits_def sticky_permits_def Let_def split_beta)

lemmas super_simps = super_permits super_ctx_get green_red_def Let_def split_beta

text \<open>No call of the super user is refused with EACCES or EPERM.\<close>

theorem super_user_never_refused:
  assumes "frame_is_super_user s frame"
  shows "fst (acl_fops call frame s) \<notin> {Unwind (- 1) EACCES, Unwind (- 1) EPERM}"
  using assms
  by (cases call)
    (auto simp: super_simps posix_acl_lookup_def posix_acl_access_def posix_acl_open_def posix_acl_truncate_def
      posix_acl_opendir_def posix_acl_mkdir_def posix_acl_mknod_def posix_acl_create_def posix_acl_symlink_def
      posix_acl_unlink_def posix_acl_rmdir_def posix_acl_rename_def posix_acl_link_def posix_acl_readdir_def
      posix_acl_readdirp_def posix_acl_setattr_def setattr_scrutiny_def posix_acl_setxattr_def setxattr_scrutiny_def
      posix_acl_getxattr_def posix_acl_removexattr_def split: option.split)

theorem super_user_never_refused_witness:
  "frame_is_super_user acl_sample_state (acl_sample_frame 0) \<and>
   fst (acl_fops (Unlink 11 12) (acl_sample_frame 0) acl_sample_state) \<noteq> Unwind (- 1) EACCES"
  using super_user_never_refused [of acl_sample_state "acl_sample_frame 0" "Unlink 11 12"]
  by (simp add: frame_is_super_user_def frame_is_user_def acl_sample_frame_def)

text \<open>C34: an unlink or rmdir is passed on exactly when the caller is the super user, or may write
  and search the directory and, where the directory is sticky, owns the directory or the file.\<close>

theorem unlink_sticky:
  assumes "ctxs s parent = Some par" "ctxs s inode = Some ctx" "acl_valid (effective_acl s par)"
  shows "let granted = (frame_is_super_user s frame \<or>
       posix1e_allows frame par (effective_acl s par) (POSIX_ACL_WRITE OR POSIX_ACL_EXECUTE) \<and>
       (ctx_perm par AND S_ISVTX \<noteq> 0 \<longrightarrow> rt_uid frame = ctx_uid par \<or> rt_uid frame = ctx_uid ctx)) in
    fst (posix_acl_unlink frame parent inode s) = (if granted then Wind else Unwind (- 1) EACCES) \<and>
    fst (posix_acl_rmdir frame parent inode s) = (if granted then Wind else Unwind (- 1) EACCES)"
proof -
  have c: "posix_acl_ctx_get parent s = (par, s)" "posix_acl_ctx_get inode s = (ctx, s)"
    using assms by (simp_all add: posix_acl_ctx_get_def)
  show ?thesis
    using acl_permits_valid [OF c(1) assms(3), of frame "POSIX_ACL_WRITE OR POSIX_ACL_EXECUTE"]
    by (auto simp: posix_acl_unlink_def posix_acl_rmdir_def sticky_permits_def c frame_is_user_def green_red_def
        Let_def split_beta)
qed

theorem unlink_sticky_witness:
  "ctxs acl_sample_state 11 = Some \<lparr>ctx_uid = 100, ctx_gid = 100, ctx_perm = 0x43f8, ctx_access = Some 2, ctx_default = Some 3\<rparr> \<and>
   fst (posix_acl_unlink (acl_sample_frame 100) 11 12 acl_sample_state) = Wind \<and>
   fst (posix_acl_unlink (acl_sample_frame 300) 11 12 acl_sample_state) = Unwind (- 1) EACCES"
proof -
  let ?par = "\<lparr>ctx_uid = 100, ctx_gid = 100, ctx_perm = 0x43f8, ctx_access = Some 2, ctx_default = Some 3\<rparr>"
  have c: "ctxs acl_sample_state 12 = Some \<lparr>ctx_uid = 300, ctx_gid = 300, ctx_perm = 0x81a0, ctx_access = None, ctx_default = None\<rparr>"
    by (simp add: acl_sample_second)
  have e: "effective_acl acl_sample_state ?par = acl_sample_entries" by (simp add: effective_acl_def acl_sample_facts)
  have v: "acl_valid (effective_acl acl_sample_state ?par)" by (simp add: e acl_sample_valid)
  show ?thesis
    using unlink_sticky [OF acl_sample_facts(5) c v, of "acl_sample_frame 100"] unlink_sticky [OF acl_sample_facts(5) c v, of "acl_sample_frame 300"]
    by (simp add: e acl_sample_facts(5) Let_def frame_is_super_user_def frame_is_user_def acl_sample_facts(4) acl_sample_frame_def
        posix1e_allows_def by_tag_def group_perms_def frame_in_group_def perm_has_def perm_user_def perm_other_def acl_sample_entries_def)
qed



section \<open>Setting and inheriting ACLs\<close>

lemma scrutiny_access:
  assumes "xd_access xattr = Some buf" "posix_acl_ctx_get inode s = (ctx, s0)" "fst (setxattr_scrutiny frame inode xattr s) = 0"
  shows "frame_is_super_user s frame \<or> rt_uid frame = ctx_uid ctx" "posix_acl_ctx_get inode (snd (setxattr_scrutiny frame inode xattr s)) = (ctx, s0)"
  using assms ctx_get_again [OF assms(2)] by (auto simp: setxattr_scrutiny_def frame_is_user_def Let_def split: if_splits)

text \<open>C32: a setxattr of an access ACL that is passed on comes from the owner or the super user, and
  from then on the inode has the ACL that was sent and the permission bits that ACL stands for.\<close>

theorem setxattr_takes_effect:
  assumes "acl_reachable s" "xd_access xattr = Some buf" "decode_xattr buf = Some es"
    "posix_acl_setxattr frame inode xattr s = (Wind, s')"
  shows "let ctx = fst (posix_acl_ctx_get inode s) in
    (frame_is_super_user s frame \<or> rt_uid frame = ctx_uid ctx) \<and>
    (\<exists>ctx' a. ctxs s' inode = Some ctx' \<and> ctx_access ctx' = Some a \<and> entries_at s' a = es \<and>
      ctx_perm ctx' = ctx_perm (snd (posix_acl_access_set_mode es ctx)))"
proof -
  obtain ctx s0 where c: "posix_acl_ctx_get inode s = (ctx, s0)" by fastforce
  let ?s1 = "snd (setxattr_scrutiny frame inode xattr s)"
  have ok: "fst (setxattr_scrutiny frame inode xattr s) = 0" and s': "s' = posix_acl_setxattr_update inode xattr ?s1"
    using assms(4) by (auto simp: posix_acl_setxattr_def Let_def split_beta split: if_splits)
  note sc = scrutiny_access [OF assms(2) c ok]
  obtain a dfl where e: "entries_at s' a = es"
    "ctxs s' inode = Some (snd (posix_acl_access_set_mode es (ctx\<lparr>ctx_access := Some a, ctx_default := dfl\<rparr>)))"
    using setxattr_update_effect [OF scrutiny_inv(2) [OF reachable_inv [OF assms(1)]] sc(2) assms(2,3)] unfolding s' by blast
  have "ctx_perm (snd (posix_acl_access_set_mode es (ctx\<lparr>ctx_access := Some a, ctx_default := dfl\<rparr>))) =
      ctx_perm (snd (posix_acl_access_set_mode es ctx))"
    by (simp add: posix_acl_access_set_mode_def Let_def split_beta)
  then show ?thesis using sc(1) e by (simp add: c Let_def set_mode_ptrs)
qed

theorem setxattr_takes_effect_witness:
  "acl_reachable acl_sample_state \<and> decode_xattr (acl_xattr acl_sample_entries) = Some acl_sample_entries \<and>
   (\<exists>s' ctx' a. posix_acl_setxattr (acl_sample_frame 100) 11 acl_sample_dict acl_sample_state = (Wind, s') \<and>
     ctxs s' 11 = Some ctx' \<and> ctx_access ctx' = Some a \<and> entries_at s' a = acl_sample_entries)"
proof -
  let ?r = "posix_acl_setxattr (acl_sample_frame 100) 11 acl_sample_dict acl_sample_state"
  have x: "xd_access acl_sample_dict = Some (acl_xattr acl_sample_entries)" by (simp add: acl_sample_dict_def)
  have "fst ?r = Wind"
    by (simp add: posix_acl_setxattr_def setxattr_scrutiny_def acl_sample_facts(1) x frame_is_user_def acl_sample_frame_def Let_def split_beta)
  then have r: "?r = (Wind, snd ?r)" by (simp add: prod_eq_iff)
  show ?thesis
    using setxattr_takes_effect [OF acl_sample_reachable x acl_sample_decode r] acl_sample_reachable acl_sample_decode r
    unfolding Let_def by blast
qed

text \<open>C15: a directory made in a directory with a default ACL gets that ACL as its default ACL and,
  narrowed by the mode asked for, as its access ACL; the mode sent on is the mode the access ACL
  stands for, both ACLs are sent on as extended attributes, and the default ACL of the parent is
  left as it was.\<close>

theorem mkdir_inherits:
  assumes "acl_reachable s" "default_ptr s parent = Some pd" "parent \<noteq> inode"
    "client_mode mode umask xdata = (retmode, client_umask, Some params)"
    "posix_acl_inherit_mode (entries_at s pd) retmode = (newmode, es)"
    "posix_acl_mkdir frame parent inode xdata mode umask s = (Wind_create m xdata', s')"
  shows "m = newmode \<and> entries_at s' pd = entries_at s pd \<and>
    (\<exists>ctx a. ctxs s' inode = Some ctx \<and> ctx_perm ctx = newmode \<and> ctx_access ctx = Some a \<and> entries_at s' a = es \<and>
      ctx_default ctx = Some pd) \<and>
    xdata' = Some (params\<lparr>cp_access := Some (acl_xattr es), cp_default := Some (acl_xattr (entries_at s pd))\<rparr>)"
proof -
  let ?s1 = "snd (acl_permits frame parent WX s)"
  have inv: "acl_inv {#} s" by (rule reachable_inv [OF assms(1)])
  have s1: "acl_inv {#} ?s1" "acl_same s ?s1" using permits_inv [OF inv] by simp_all
  have e: "entries_at ?s1 pd = entries_at s pd"
    unfolding acl_permits_state [OF inv] using ctx_get_keeps [of parent s] by (metis prod.collapse)
  have pd: "default_ptr ?s1 parent = Some pd" using s1(2) assms(2) by (simp add: acl_same_def)
  have r: "posix_acl_inherit parent inode xdata mode umask True ?s1 = (m, xdata', s')"
    using assms(6) by (auto simp: posix_acl_mkdir_def posix_acl_inherit_dir_def Let_def split_beta prod_eq_iff split: if_splits)
  show ?thesis
    by (rule inherit_effect [OF s1(1) pd assms(3,4) assms(5) [folded e] r]) (use e in auto)
qed

theorem mkdir_inherits_witness:
  "acl_reachable acl_sample_state \<and> default_ptr acl_sample_state 11 = Some 3 \<and>
   (\<exists>x' s' ctx a. posix_acl_mkdir (acl_sample_frame 100) 11 20
       (Some \<lparr>cp_umask = None, cp_mode = None, cp_access = None, cp_default = None\<rparr>) 0x1e8 0x12 acl_sample_state =
         (Wind_create 0x1e8 x', s') \<and>
     ctxs s' 20 = Some ctx \<and> ctx_access ctx = Some a \<and> entries_at s' a = inherited_entries \<and> ctx_default ctx = Some 3)"
proof -
  let ?x = "\<lparr>cp_umask = None, cp_mode = None, cp_access = None, cp_default = None\<rparr>"
  let ?r = "posix_acl_mkdir (acl_sample_frame 100) 11 20 (Some ?x) 0x1e8 0x12 acl_sample_state"
  have pd: "default_ptr acl_sample_state 11 = Some 3" by (simp add: default_ptr_def acl_sample_facts)
  have "fst (acl_permits (acl_sample_frame 100) 11 WX acl_sample_state)"
    by (simp add: acl_permits_valid [OF acl_sample_facts(1)] effective_acl_def acl_sample_facts acl_sample_valid posix1e_allows_def
        acl_sample_frame_def perm_has_def perm_user_def)
  then obtain m x' s' where r: "?r = (Wind_create m x', s')"
    by (auto simp: posix_acl_mkdir_def Let_def split_beta)
  have cm: "client_mode 0x1e8 0x12 (Some ?x) = (0x1e8, 0x12, Some ?x)" by (simp add: client_mode_def)
  have im: "posix_acl_inherit_mode (entries_at acl_sample_state 3) 0x1e8 = (0x1e8, inherited_entries)"
    by (simp add: acl_sample_facts inherited_value)
  show ?thesis
    using mkdir_inherits [OF acl_sample_reachable pd _ cm im r] acl_sample_reachable pd r by auto
qed

end
