(* ===== verification/Write_Behind.thy ===== *)
theory Write_Behind
  imports GF_Prelude
begin

text \<open>
  The write-behind translator (performance/write-behind/src/write-behind.c), one inode: the
  requests as objects in a store, the lists an inode keeps of them (all, todo, liability,
  temptation, wip), and the loops that collapse small writes, pick what may be sent, lie to the
  callers and send. A frame sent to the child with a request as its local is an entry of
  \<open>fulfill_frames\<close> or \<open>writev_frames\<close> until its callback runs. Allocation succeeds, and an
  object's address is the number of its allocation.
\<close>

unbundle bit_operations_syntax

type_synonym u64 = "64 word"

section \<open>Data\<close>

datatype wb_fop = GF_FOP_WRITE | GF_FOP_READ | GF_FOP_FLUSH | GF_FOP_FSYNC | GF_FOP_STAT
  | GF_FOP_FSTAT | GF_FOP_TRUNCATE | GF_FOP_FTRUNCATE | GF_FOP_SETATTR | GF_FOP_FSETATTR

text \<open>A piece of a write: the bytes from \<open>iov_base\<close> on, of which \<open>iov_len\<close> belong to it.\<close>

record iovec =
  iov_base :: "8 word list"
  iov_len :: nat

definition iov_length :: "iovec list \<Rightarrow> nat" where
  "iov_length vec = sum_list (map iov_len vec)"

definition iov_unload :: "iovec list \<Rightarrow> 8 word list" where
  "iov_unload vec = concat (map (\<lambda>v. take (iov_len v) (iov_base v)) vec)"

text \<open>What write-behind reads of a stub: the call, its frame, the lock owner of the frame's
  root, the descriptor and its flags, and the arguments.\<close>

record call_stub =
  st_fop :: wb_fop
  st_frame :: addr
  st_owner :: gf_lkowner
  st_fd :: "addr option"
  st_fd_flags :: u32
  st_flags :: u32
  st_vector :: "iovec list"
  st_offset :: u64
  st_size :: u64

record wb_request =
  rq_stub :: call_stub
  write_size :: nat
  orig_size :: nat
  total_size :: nat
  op_ret :: int
  op_errno :: int
  rq_refcount :: int
  rq_fop :: wb_fop
  rq_owner :: gf_lkowner
  rq_iobref :: bool
  rq_gen :: nat
  rq_fd :: "addr option"
  ord_size :: u64
  ord_off :: u64
  ord_append :: bool
  tempted :: bool
  lied :: bool
  fulfilled :: bool
  go :: bool
  winds :: "addr list"

record wb_conf =
  aggregate_size :: nat
  window_size :: nat
  flush_behind :: bool
  trickling_writes :: bool
  strict_write_ordering :: bool
  strict_O_DIRECT :: bool
  page_size :: nat

text \<open>The inode's context with its requests, the error contexts of the descriptors, and the
  frames that are with the child. \<open>overrun\<close> records that more pieces were loaded into the
  vector of wb_fulfill_head than it has room for.\<close>

record wb_state =
  wb_reqs :: "addr \<Rightarrow> wb_request"
  wb_next :: addr
  wb_present :: bool
  window_conf :: int
  window_current :: int
  transit :: int
  wb_all :: "addr list"
  todo :: "addr list"
  liability :: "addr list"
  temptation :: "addr list"
  wip :: "addr list"
  wb_gen :: nat
  wb_size :: u64
  fd_err :: "addr \<Rightarrow> int option"
  fulfill_frames :: "addr list"
  writev_frames :: "addr list"
  overrun :: bool

text \<open>What leaves the translator: a call forwarded on the caller's frame, the write of a head
  request on a frame of its own, a flush in the background, and the answers to callers.\<close>

datatype wb_event =
    Wind call_stub
  | Wind_fulfill addr "addr option" gf_lkowner u64 "iovec list"
  | Wind_flush_bg call_stub
  | Unwind wb_fop addr int int

text \<open>Flags of open and write (Linux, x86-64).\<close>

abbreviation (input) O_WRONLY :: u32 where "O_WRONLY \<equiv> 1"
abbreviation (input) O_RDWR :: u32 where "O_RDWR \<equiv> 2"
abbreviation (input) O_TRUNC :: u32 where "O_TRUNC \<equiv> 512"
abbreviation (input) O_APPEND :: u32 where "O_APPEND \<equiv> 1024"
abbreviation (input) O_DSYNC :: u32 where "O_DSYNC \<equiv> 4096"
abbreviation (input) O_DIRECT :: u32 where "O_DIRECT \<equiv> 16384"
abbreviation (input) O_SYNC :: u32 where "O_SYNC \<equiv> 1052672"

abbreviation (input) MAX_VECTOR_COUNT :: nat where "MAX_VECTOR_COUNT \<equiv> 8"
abbreviation (input) WB_AGGREGATE_SIZE :: nat where "WB_AGGREGATE_SIZE \<equiv> 131072"
abbreviation (input) ULLONG_MAX :: u64 where "ULLONG_MAX \<equiv> - 1"
abbreviation (input) EIO :: int where "EIO \<equiv> 5"

abbreviation rq_vector :: "wb_request \<Rightarrow> iovec list" where "rq_vector q \<equiv> st_vector (rq_stub q)"
abbreviation rq_offset :: "wb_request \<Rightarrow> u64" where "rq_offset q \<equiv> st_offset (rq_stub q)"

definition upd_rq :: "addr \<Rightarrow> (wb_request \<Rightarrow> wb_request) \<Rightarrow> wb_state \<Rightarrow> wb_state" where
  "upd_rq r f s = s\<lparr>wb_reqs := (wb_reqs s)(r := f (wb_reqs s r))\<rparr>"

section \<open>Conflicts\<close>

definition wb_last :: "wb_request \<Rightarrow> u64" where
  "wb_last q = (if ord_size q \<noteq> 0 then ord_off q + ord_size q - 1 else ULLONG_MAX)"

definition wb_requests_overlap :: "wb_request \<Rightarrow> wb_request \<Rightarrow> bool" where
  "wb_requests_overlap q1 q2 \<longleftrightarrow> wb_last q1 \<ge> ord_off q2 \<and> wb_last q2 \<ge> ord_off q1"

definition wb_requests_conflict :: "wb_conf \<Rightarrow> wb_state \<Rightarrow> addr \<Rightarrow> addr \<Rightarrow> bool" where
  "wb_requests_conflict conf s lie r =
     (if lie = r then False
      else if rq_gen (wb_reqs s lie) \<ge> rq_gen (wb_reqs s r) then False
      else if ord_append (wb_reqs s lie) then True
      else if strict_write_ordering conf then True
      else wb_requests_overlap (wb_reqs s lie) (wb_reqs s r))"

definition wb_liability_has_conflict :: "wb_conf \<Rightarrow> wb_state \<Rightarrow> addr \<Rightarrow> bool" where
  "wb_liability_has_conflict conf s r \<longleftrightarrow> list_ex (\<lambda>l. wb_requests_conflict conf s l r) (liability s)"

definition wb_wip_has_conflict :: "wb_state \<Rightarrow> addr \<Rightarrow> bool" where
  "wb_wip_has_conflict s r \<longleftrightarrow>
     (if st_fop (rq_stub (wb_reqs s r)) \<noteq> GF_FOP_WRITE then False
      else list_ex (\<lambda>w. w \<noteq> r \<and> wb_requests_overlap (wb_reqs s w) (wb_reqs s r)) (wip s))"

section \<open>References\<close>

definition wb_request_ref :: "addr \<Rightarrow> wb_state \<Rightarrow> wb_state" where
  "wb_request_ref r s =
     (if rq_refcount (wb_reqs s r) < 0 then s
      else upd_rq r (\<lambda>q. q\<lparr>rq_refcount := rq_refcount q + 1\<rparr>) s)"

text \<open>Freeing an object takes it off every list; when it was the last one, the generation and
  the window start afresh.\<close>

definition wb_request_free :: "addr \<Rightarrow> wb_state \<Rightarrow> wb_state" where
  "wb_request_free r s =
     (let s = s\<lparr>todo := remove1 r (todo s), liability := remove1 r (liability s),
                temptation := remove1 r (temptation s), wip := remove1 r (wip s),
                wb_all := remove1 r (wb_all s)\<rparr>
      in if wb_all s = [] then s\<lparr>wb_gen := 0, window_current := 0\<rparr> else s)"

definition wb_request_unref :: "addr \<Rightarrow> wb_state \<Rightarrow> wb_state" where
  "wb_request_unref r s =
     (if rq_refcount (wb_reqs s r) \<le> 0 then s
      else let s = upd_rq r (\<lambda>q. q\<lparr>rq_refcount := rq_refcount q - 1\<rparr>) s
           in if rq_refcount (wb_reqs s r) = 0 then wb_request_free r s else s)"

section \<open>Arrival of a request\<close>

text \<open>The range a request is ordered by. A write beyond the known end of the file also covers
  the hole before it; calls that read or change attributes keep offset 0 and size 0, which
  stands for the whole file.\<close>

definition wb_ordering :: "wb_state \<Rightarrow> call_stub \<Rightarrow> nat \<Rightarrow> u64 \<times> u64" where
  "wb_ordering s stub len =
     (case st_fop stub of
        GF_FOP_WRITE \<Rightarrow>
          if wb_size s < st_offset stub
          then (wb_size s, st_offset stub + of_nat len - wb_size s)
          else (st_offset stub, of_nat len)
      | GF_FOP_READ \<Rightarrow> (st_offset stub, st_size stub)
      | GF_FOP_TRUNCATE \<Rightarrow> (st_offset stub, 0)
      | GF_FOP_FTRUNCATE \<Rightarrow> (st_offset stub, 0)
      | _ \<Rightarrow> (0, 0))"

definition wb_new_size :: "wb_state \<Rightarrow> call_stub \<Rightarrow> nat \<Rightarrow> u64" where
  "wb_new_size s stub len =
     (case st_fop stub of
        GF_FOP_WRITE \<Rightarrow>
          if wb_size s < st_offset stub + of_nat len then st_offset stub + of_nat len else wb_size s
      | GF_FOP_TRUNCATE \<Rightarrow> st_offset stub
      | GF_FOP_FTRUNCATE \<Rightarrow> st_offset stub
      | _ \<Rightarrow> wb_size s)"

definition wb_new_request :: "wb_state \<Rightarrow> call_stub \<Rightarrow> bool \<Rightarrow> wb_request" where
  "wb_new_request s stub tmpt =
     (let write = (st_fop stub = GF_FOP_WRITE);
          len = (if write then iov_length (st_vector stub) else 0);
          rng = wb_ordering s stub len
      in \<lparr>rq_stub = stub, write_size = len, orig_size = len, total_size = 0,
          op_ret = (if write then int len else 0), op_errno = 0, rq_refcount = 0,
          rq_fop = st_fop stub, rq_owner = st_owner stub, rq_iobref = False, rq_gen = wb_gen s,
          rq_fd = (if st_fop stub \<in> {GF_FOP_WRITE, GF_FOP_READ, GF_FOP_FTRUNCATE}
                   then st_fd stub else None),
          ord_size = snd rng, ord_off = fst rng,
          ord_append = (write \<and> st_fd_flags stub AND O_APPEND \<noteq> 0), tempted = tmpt, lied = False, fulfilled = False,
          go = False, winds = []\<rparr>)"

definition wb_enqueue_common :: "wb_state \<Rightarrow> call_stub \<Rightarrow> bool \<Rightarrow> wb_state" where
  "wb_enqueue_common s stub tmpt =
     (let r = wb_next s;
          q = wb_new_request s stub tmpt;
          s = s\<lparr>wb_reqs := (wb_reqs s)(r := q), wb_next := r + 1,
                wb_size := wb_new_size s stub (write_size q),
                wb_all := list_add_tail r (wb_all s), todo := list_add_tail r (todo s)\<rparr>;
          s = wb_request_ref r s
      in if tmpt
         then wb_request_ref r (s\<lparr>temptation := list_add_tail r (temptation s)\<rparr>)
         else s)"

definition wb_enqueue :: "wb_state \<Rightarrow> call_stub \<Rightarrow> wb_state" where
  "wb_enqueue s stub = wb_enqueue_common s stub False"

definition wb_enqueue_tempted :: "wb_state \<Rightarrow> call_stub \<Rightarrow> wb_state" where
  "wb_enqueue_tempted s stub = wb_enqueue_common s stub True"

section \<open>Completion\<close>

definition wb_fulfill_request :: "addr \<Rightarrow> wb_state \<Rightarrow> wb_state" where
  "wb_fulfill_request r s =
     (let size = int (total_size (wb_reqs s r));
          s = upd_rq r (\<lambda>q. q\<lparr>fulfilled := True\<rparr>) s;
          s = s\<lparr>window_current := window_current s - size, transit := transit s - size\<rparr>
      in wb_request_unref r s)"

definition wb_head_done :: "addr \<Rightarrow> wb_state \<Rightarrow> wb_state" where
  "wb_head_done head s =
     wb_fulfill_request head (fold wb_fulfill_request (winds (wb_reqs s head)) s)"

text \<open>The error is kept for the calls still to come on the descriptor and set in the requests
  that have arrived on it.\<close>

definition wb_fulfill_err :: "addr \<Rightarrow> int \<Rightarrow> wb_state \<Rightarrow> wb_state" where
  "wb_fulfill_err head errno s =
     (let fd = rq_fd (wb_reqs s head);
          s = (case fd of None \<Rightarrow> s | Some d \<Rightarrow> s\<lparr>fd_err := (fd_err s)(d := Some errno)\<rparr>)
      in fold (\<lambda>r s. if rq_fd (wb_reqs s r) \<noteq> fd then s
                     else upd_rq r (\<lambda>q. q\<lparr>op_ret := -1, op_errno := errno\<rparr>) s) (wb_all s) s)"

definition wb_fd_err :: "wb_state \<Rightarrow> addr option \<Rightarrow> int option" where
  "wb_fd_err s fd = Option.bind fd (fd_err s)"

section \<open>Sending buffered writes\<close>

text \<open>The pieces of the head and of the requests joined to it go out in one write. On a
  descriptor that has failed nothing is sent and the requests are settled.\<close>

definition wb_fulfill_head :: "addr \<Rightarrow> wb_state \<Rightarrow> wb_state \<times> wb_event list \<times> bool" where
  "wb_fulfill_head head s =
     (let group = head # winds (wb_reqs s head);
          vec = concat (map (\<lambda>r. rq_vector (wb_reqs s r)) group);
          size = sum_list (map (\<lambda>r. write_size (wb_reqs s r)) group);
          s = upd_rq head (\<lambda>q. q\<lparr>total_size := total_size q + size\<rparr>) s;
          s = s\<lparr>overrun := overrun s \<or> length vec > MAX_VECTOR_COUNT\<rparr>;
          q = wb_reqs s head
      in if wb_fd_err s (rq_fd q) \<noteq> None then (wb_head_done head s, [], True)
         else (s\<lparr>transit := transit s + int (total_size q),
                 fulfill_frames := list_add_tail head (fulfill_frames s)\<rparr>,
               [Wind_fulfill head (rq_fd q) (rq_owner q) (rq_offset q) vec], False))"

text \<open>The requests are taken in order: one that follows its predecessor's head joins it, any
  other becomes the next head. \<open>exp\<close> is \<open>expected_offset\<close>, \<open>agg\<close> and \<open>cnt\<close> are
  \<open>curr_aggregate\<close> and \<open>vector_count\<close>.\<close>

fun wb_fulfill_loop :: "wb_conf \<Rightarrow> addr list \<Rightarrow> (addr \<times> u64 \<times> nat \<times> nat) option \<Rightarrow> wb_state \<Rightarrow>
    wb_state \<times> wb_event list \<times> bool" where
  "wb_fulfill_loop conf [] None s = (s, [], False)"
| "wb_fulfill_loop conf [] (Some (head, exp, agg, cnt)) s = wb_fulfill_head head s"
| "wb_fulfill_loop conf (r # rs) None s =
     wb_fulfill_loop conf rs (Some (r, rq_offset (wb_reqs s r) + of_nat (write_size (wb_reqs s r)), 0, 0)) s"
| "wb_fulfill_loop conf (r # rs) (Some (head, exp, agg, cnt)) s =
     (let q = wb_reqs s r; h = wb_reqs s head
      in if rq_fd q \<noteq> rq_fd h \<or> \<not> is_same_lkowner (rq_owner q) (rq_owner h) \<or> exp \<noteq> rq_offset q
            \<or> agg + write_size q > aggregate_size conf \<or> cnt + length (rq_vector q) > MAX_VECTOR_COUNT
         then let (s, ev, ret) = wb_fulfill_head head s;
                  (s, ev', ret') = wb_fulfill_loop conf rs (Some (r, rq_offset q + of_nat (write_size q), 0, 0)) s
              in (s, ev @ ev', ret \<or> ret')
         else wb_fulfill_loop conf rs (Some (head, exp, agg + write_size q, cnt + length (rq_vector q)))
                (upd_rq head (\<lambda>h. h\<lparr>winds := list_add_tail r (winds h)\<rparr>) s))"

definition wb_fulfill :: "wb_conf \<Rightarrow> addr list \<Rightarrow> wb_state \<Rightarrow> wb_state \<times> wb_event list \<times> bool" where
  "wb_fulfill conf liabilities s = wb_fulfill_loop conf liabilities None s"

section \<open>Answering callers early\<close>

fun wb_do_unwinds :: "addr list \<Rightarrow> wb_state \<Rightarrow> wb_state \<times> wb_event list" where
  "wb_do_unwinds [] s = (s, [])"
| "wb_do_unwinds (r # rs) s =
     (let q = wb_reqs s r;
          (s, ev) = wb_do_unwinds rs (wb_request_unref r s)
      in (s, Unwind GF_FOP_WRITE (st_frame (rq_stub q)) (op_ret q) (op_errno q) # ev))"

fun wb_pick_unwinds_loop :: "addr list \<Rightarrow> wb_state \<Rightarrow> wb_state \<times> addr list" where
  "wb_pick_unwinds_loop [] s = (s, [])"
| "wb_pick_unwinds_loop (r # rs) s =
     (if \<not> fulfilled (wb_reqs s r) \<and> window_current s > window_conf s
      then wb_pick_unwinds_loop rs s
      else let s = s\<lparr>temptation := remove1 r (temptation s),
                     window_current := window_current s + int (orig_size (wb_reqs s r))\<rparr>;
               s = (if \<not> fulfilled (wb_reqs s r)
                    then (upd_rq r (\<lambda>q. q\<lparr>lied := True\<rparr>) s)
                           \<lparr>liability := list_add_tail r (liability s), wb_gen := wb_gen s + 1\<rparr>
                    else s);
               (s, lies) = wb_pick_unwinds_loop rs s
           in (s, r # lies))"

definition wb_pick_unwinds :: "wb_state \<Rightarrow> wb_state \<times> addr list" where
  "wb_pick_unwinds s = wb_pick_unwinds_loop (temptation s) s"

section \<open>Collapsing small writes\<close>

text \<open>The holder's bytes move to a buffer of their own the first time; \<open>iov_len\<close> of its first
  piece is kept as it was. The bytes of the collapsed request are copied behind the holder's
  \<open>write_size\<close> bytes.\<close>

definition wb_collapse_small_writes :: "addr \<Rightarrow> addr \<Rightarrow> wb_state \<Rightarrow> wb_state" where
  "wb_collapse_small_writes holder r s =
     (let q = wb_reqs s r
      in upd_rq holder (\<lambda>h.
           let first = hd (rq_vector h);
               buf = (if rq_iobref h then iov_base first else iov_unload (rq_vector h));
               iov = \<lparr>iov_base = take (write_size h) buf @ iov_unload (rq_vector q),
                      iov_len = iov_len first + write_size q\<rparr>
           in h\<lparr>rq_stub := (rq_stub h)\<lparr>st_vector := [iov]\<rparr>, rq_iobref := True,
                write_size := write_size h + write_size q,
                ord_size := ord_size h + of_nat (write_size q)\<rparr>) s)"

definition set_go :: "addr \<Rightarrow> wb_state \<Rightarrow> wb_state" where
  "set_go r s = upd_rq r (\<lambda>q. q\<lparr>go := True\<rparr>) s"

fun wb_preprocess_loop :: "wb_conf \<Rightarrow> addr list \<Rightarrow> addr option \<Rightarrow> wb_state \<Rightarrow> addr option \<times> wb_state" where
  "wb_preprocess_loop conf [] holder s = (holder, s)"
| "wb_preprocess_loop conf (r # rs) holder s =
     (if \<not> tempted (wb_reqs s r)
      then wb_preprocess_loop conf rs holder
             (case holder of
                None \<Rightarrow> s
              | Some h \<Rightarrow> if wb_requests_conflict conf s h r then set_go h s else s)
      else (case holder of
              None \<Rightarrow> wb_preprocess_loop conf rs (Some r) s
            | Some h \<Rightarrow>
                (let q = wb_reqs s r; hq = wb_reqs s h
                 in if rq_offset q \<noteq> rq_offset hq + of_nat (write_size hq)
                       \<or> \<not> is_same_lkowner (rq_owner q) (rq_owner hq)
                       \<or> rq_fd q \<noteq> rq_fd hq
                       \<or> int (page_size conf) - int (write_size hq) < int (write_size q)
                    then wb_preprocess_loop conf rs (Some r) (set_go h s)
                    else let s = wb_collapse_small_writes h r s;
                             s = s\<lparr>todo := remove1 r (todo s)\<rparr>
                         in wb_preprocess_loop conf rs (Some h) (wb_fulfill_request r s))))"

definition wb_preprocess_winds :: "wb_conf \<Rightarrow> wb_state \<Rightarrow> wb_state" where
  "wb_preprocess_winds conf s =
     (case wb_preprocess_loop conf (todo s) None s of
        (holder, s) \<Rightarrow>
          (case holder of
             None \<Rightarrow> s
           | Some h \<Rightarrow> if trickling_writes conf \<and> transit s = 0 then set_go h s else s))"

section \<open>Picking what to send\<close>

text \<open>The tasks (calls to forward) and the liabilities (buffered writes) picked from the list.\<close>

fun wb_pick_winds_loop :: "wb_conf \<Rightarrow> addr list \<Rightarrow> wb_state \<Rightarrow> wb_state \<times> addr list \<times> addr list" where
  "wb_pick_winds_loop conf [] s = (s, [], [])"
| "wb_pick_winds_loop conf (r # rs) s =
     (let q = wb_reqs s r; write = (st_fop (rq_stub q) = GF_FOP_WRITE)
      in if wb_liability_has_conflict conf s r \<or> (tempted q \<and> \<not> go q)
            \<or> (write \<and> wb_wip_has_conflict s r)
         then wb_pick_winds_loop conf rs s
         else let s = (if write then s\<lparr>wip := list_add_tail r (wip s)\<rparr> else s);
                  s = (if write \<and> \<not> tempted q then wb_request_ref r s else s);
                  s = s\<lparr>todo := remove1 r (todo s)\<rparr>;
                  (s, tasks, liabilities) = wb_pick_winds_loop conf rs s
              in if tempted q then (s, tasks, r # liabilities) else (s, r # tasks, liabilities))"

definition wb_pick_winds :: "wb_conf \<Rightarrow> wb_state \<Rightarrow> wb_state \<times> addr list \<times> addr list" where
  "wb_pick_winds conf s = wb_pick_winds_loop conf (todo s) s"

section \<open>Forwarding calls\<close>

definition wb_flush_helper :: "wb_conf \<Rightarrow> wb_state \<Rightarrow> call_stub \<Rightarrow> wb_event list" where
  "wb_flush_helper conf s stub =
     (if \<not> wb_present s then [Unwind GF_FOP_FLUSH (st_frame stub) (-1) EINVAL]
      else case wb_fd_err s (st_fd stub) of
        Some errno \<Rightarrow> [Unwind GF_FOP_FLUSH (st_frame stub) (-1) errno]
      | None \<Rightarrow>
          if flush_behind conf
          then [Wind_flush_bg stub, Unwind GF_FOP_FLUSH (st_frame stub) 0 0]
          else [Wind stub])"

text \<open>call_resume: the helper of the call; only the write's frame has the request as its local
  and comes back to write-behind.\<close>

definition call_resume :: "wb_conf \<Rightarrow> addr \<Rightarrow> wb_state \<Rightarrow> wb_state \<times> wb_event list" where
  "call_resume conf r s =
     (let stub = rq_stub (wb_reqs s r)
      in case st_fop stub of
           GF_FOP_WRITE \<Rightarrow> (s\<lparr>writev_frames := list_add_tail r (writev_frames s)\<rparr>, [Wind stub])
         | GF_FOP_FLUSH \<Rightarrow> (s, wb_flush_helper conf s stub)
         | _ \<Rightarrow> (s, [Wind stub]))"

fun wb_do_winds :: "wb_conf \<Rightarrow> addr list \<Rightarrow> wb_state \<Rightarrow> wb_state \<times> wb_event list" where
  "wb_do_winds conf [] s = (s, [])"
| "wb_do_winds conf (r # rs) s =
     (let (s, ev) = call_resume conf r s;
          (s, ev') = wb_do_winds conf rs (wb_request_unref r s)
      in (s, ev @ ev'))"

section \<open>The queue\<close>

definition wb_process_once :: "wb_conf \<Rightarrow> wb_state \<Rightarrow> wb_state \<times> wb_event list \<times> bool" where
  "wb_process_once conf s =
     (let s = wb_preprocess_winds conf s;
          (s, tasks, liabilities) = wb_pick_winds conf s;
          (s, lies) = wb_pick_unwinds s;
          (s, ev1) = wb_do_unwinds lies s;
          (s, ev2) = wb_do_winds conf tasks s;
          (s, ev3, retry) = wb_fulfill conf liabilities s
      in (s, ev1 @ ev2 @ ev3, retry))"

text \<open>The loop ends: a retry means that requests were picked from the list of things to do, and
  no step adds to it.\<close>

lemma todo_upd_rq [simp]: "todo (upd_rq r f s) = todo s"
  by (simp add: upd_rq_def)

lemma todo_unref: "length (todo (wb_request_unref r s)) \<le> length (todo s)"
  by (auto simp: wb_request_unref_def wb_request_free_def Let_def length_remove1)

lemma todo_fulfill_request: "length (todo (wb_fulfill_request r s)) \<le> length (todo s)"
  unfolding wb_fulfill_request_def Let_def by (rule order_trans [OF todo_unref]) simp

lemma todo_fold_fulfill: "length (todo (fold wb_fulfill_request rs s)) \<le> length (todo s)"
  by (induction rs arbitrary: s) (auto intro: order_trans [OF _ todo_fulfill_request])

lemma todo_preprocess_loop:
  "length (todo (snd (wb_preprocess_loop conf rs holder s))) \<le> length (todo s)"
proof (induction rs arbitrary: holder s)
  case (Cons r rs)
  have f: "length (todo (wb_fulfill_request r (wb_collapse_small_writes h r s\<lparr>todo := remove1 r (todo s)\<rparr>)))
      \<le> length (todo s)" for h
    using todo_fulfill_request [of r "wb_collapse_small_writes h r s\<lparr>todo := remove1 r (todo s)\<rparr>"]
    by (auto simp: length_remove1 split: if_splits)
  show ?case
    using Cons.IH [of "Some r" s] Cons.IH [of holder s] order_trans [OF Cons.IH f]
      Cons.IH [of _ "set_go _ s"]
    by (auto simp: Let_def set_go_def wb_collapse_small_writes_def split: option.splits)
qed simp

lemma todo_preprocess_winds: "length (todo (wb_preprocess_winds conf s)) \<le> length (todo s)"
  using todo_preprocess_loop [of conf "todo s" None s]
  by (auto simp: wb_preprocess_winds_def set_go_def split: prod.splits option.splits)

lemma todo_pick_winds_loop:
  "wb_pick_winds_loop conf rs s = (s', tasks, liabs) \<Longrightarrow> mset rs \<subseteq># mset (todo s) \<Longrightarrow>
     length (todo s') + length tasks + length liabs = length (todo s)"
proof (induction rs arbitrary: s s' tasks liabs)
  case (Cons r rs)
  let ?q = "wb_reqs s r"
  let ?w = "st_fop (rq_stub ?q) = GF_FOP_WRITE"
  let ?a = "if ?w then s\<lparr>wip := list_add_tail r (wip s)\<rparr> else s"
  let ?b = "if ?w \<and> \<not> tempted ?q then wb_request_ref r ?a else ?a"
  let ?c = "?b\<lparr>todo := remove1 r (todo ?b)\<rparr>"
  have sub: "mset rs \<subseteq># mset (todo s)"
    using Cons.prems(2) by (auto intro: subset_mset.order_trans [OF _ Cons.prems(2)])
  have b: "todo ?b = todo s" by (simp add: wb_request_ref_def)
  have r: "r \<in> set (todo s)" using Cons.prems(2) by (auto dest: mset_subset_eqD)
  have sub': "mset rs \<subseteq># mset (todo ?c)"
    using Cons.prems(2) by (simp add: b insert_subset_eq_iff)
  show ?case
  proof (cases "wb_liability_has_conflict conf s r \<or> (tempted ?q \<and> \<not> go ?q) \<or> (?w \<and> wb_wip_has_conflict s r)")
    case True
    then show ?thesis using Cons.prems(1) Cons.IH [OF _ sub] by (simp add: Let_def)
  next
    case False
    obtain s1 ta li where l: "wb_pick_winds_loop conf rs ?c = (s1, ta, li)" by (metis prod_cases3)
    then have "todo s' = todo s1" "length tasks + length liabs = Suc (length ta + length li)"
      using False Cons.prems(1) by (auto simp: Let_def split: if_splits prod.splits)
    moreover have "length (todo ?c) = length (todo s) - 1"
      using r b by (simp add: length_remove1)
    ultimately show ?thesis using Cons.IH [OF l sub'] length_pos_if_in_set [OF r]
      unfolding \<open>todo s' = todo s1\<close> by linarith
  qed
qed simp

lemma todo_pick_unwinds_loop: "wb_pick_unwinds_loop rs s = (s', lies) \<Longrightarrow> todo s' = todo s"
  by (induction rs arbitrary: s s' lies) (fastforce simp: Let_def split: prod.splits if_splits)+

lemma todo_do_unwinds: "length (todo (fst (wb_do_unwinds rs s))) \<le> length (todo s)"
proof (induction rs arbitrary: s)
  case (Cons r rs)
  show ?case using order_trans [OF Cons.IH todo_unref] by (simp add: Let_def split: prod.splits) (metis fst_conv)
qed simp

lemma todo_call_resume [simp]: "todo (fst (call_resume conf r s)) = todo s"
  by (simp add: call_resume_def Let_def split: wb_fop.splits)

lemma todo_do_winds: "length (todo (fst (wb_do_winds conf rs s))) \<le> length (todo s)"
proof (induction rs arbitrary: s)
  case (Cons r rs)
  show ?case
    using Cons.IH [of "wb_request_unref r (fst (call_resume conf r s))"]
      todo_unref [of r "fst (call_resume conf r s)"]
    by (auto split: prod.splits)
qed simp

lemma todo_fulfill_head: "length (todo (fst (wb_fulfill_head h s))) \<le> length (todo s)"
proof -
  have "length (todo (wb_head_done h s)) \<le> length (todo s)" for s
    unfolding wb_head_done_def by (rule order_trans [OF todo_fulfill_request todo_fold_fulfill])
  from order_trans [OF this] show ?thesis by (auto simp: wb_fulfill_head_def Let_def)
qed

lemma todo_fulfill_loop: "length (todo (fst (wb_fulfill_loop conf rs acc s))) \<le> length (todo s)"
proof (induction conf rs acc s rule: wb_fulfill_loop.induct)
  case (4 conf r rs head exp agg cnt s)
  obtain s1 ev1 r1 where h: "wb_fulfill_head head s = (s1, ev1, r1)" by (metis prod_cases3)
  then have le: "length (todo s1) \<le> length (todo s)" using todo_fulfill_head [of head s] by simp
  show ?case
    using 4(1) [OF refl refl _ h [symmetric] refl refl] 4(2) [OF refl refl] le h
    by (auto simp: Let_def split: prod.splits intro: order_trans)
qed (auto intro: todo_fulfill_head)

lemma wb_process_once_decreases:
  assumes "wb_process_once conf s = (s', ev, True)"
  shows "length (todo s') < length (todo s)"
proof -
  let ?a = "wb_preprocess_winds conf s"
  obtain b tasks liabs where b: "wb_pick_winds conf ?a = (b, tasks, liabs)" by (metis prod_cases3)
  obtain c lies where c: "wb_pick_unwinds b = (c, lies)" by (metis prod.exhaust)
  obtain d ev1 where d: "wb_do_unwinds lies c = (d, ev1)" by (metis prod.exhaust)
  obtain e ev2 where e: "wb_do_winds conf tasks d = (e, ev2)" by (metis prod.exhaust)
  obtain f ev3 ret where f: "wb_fulfill conf liabs e = (f, ev3, ret)" by (metis prod_cases3)
  have r: "f = s'" "ret" using assms b c d e f by (auto simp: wb_process_once_def Let_def)
  then have "liabs \<noteq> []" using f by (auto simp: wb_fulfill_def)
  then have "length (todo b) < length (todo ?a)"
    using todo_pick_winds_loop [of conf "todo ?a" ?a b tasks liabs] b by (cases liabs) (auto simp: wb_pick_winds_def)
  moreover have "length (todo c) = length (todo b)" using c todo_pick_unwinds_loop by (simp add: wb_pick_unwinds_def)
  moreover have "length (todo d) \<le> length (todo c)" using todo_do_unwinds [of lies c] d by simp
  moreover have "length (todo e) \<le> length (todo d)" using todo_do_winds [of conf tasks d] e by simp
  moreover have "length (todo f) \<le> length (todo e)"
    using todo_fulfill_loop [of conf liabs None e] f by (simp add: wb_fulfill_def)
  ultimately show ?thesis using todo_preprocess_winds [of conf s] unfolding r(1) by linarith
qed

function wb_process_queue :: "wb_conf \<Rightarrow> wb_state \<Rightarrow> wb_state \<times> wb_event list" where
  "wb_process_queue conf s =
     (case wb_process_once conf s of
        (s', ev, retry) \<Rightarrow>
          if retry then let (s'', ev') = wb_process_queue conf s' in (s'', ev @ ev') else (s', ev))"
  by pat_completeness auto
termination
  by (relation "measure (\<lambda>(conf, s). length (todo s))") (auto dest: wb_process_once_decreases [OF sym])

declare wb_process_queue.simps [simp del]

end
