(* ===== verification/Write_Behind_Fops.thy ===== *)
theory Write_Behind_Fops
  imports Write_Behind
begin

text \<open>
  The calls and callbacks of the write-behind translator (write-behind.c, wb_writev to
  wb_release and init) on one inode, and the runs they make: any sequence of calls, of replies
  of the child to frames that are with it, and of closings of descriptors. A call is executed
  whole before the next one starts.
\<close>

section \<open>The inode's context\<close>

definition wb_inode_create :: "wb_conf \<Rightarrow> wb_state \<Rightarrow> wb_state" where
  "wb_inode_create conf s =
     (if wb_present s then s
      else s\<lparr>wb_present := True, window_conf := int (window_size conf), window_current := 0,
             transit := 0, wb_all := [], todo := [], liability := [], temptation := [],
             wip := [], wb_gen := 0, wb_size := 0\<rparr>)"

definition wb_set_inode_size :: "u64 \<Rightarrow> wb_state \<Rightarrow> wb_state" where
  "wb_set_inode_size sz s = s\<lparr>wb_size := sz\<rparr>"

section \<open>Calls\<close>

text \<open>A write on a descriptor opened for synchronous writing, or with such flags of its own, is
  queued as it is; any other write is one to lie about.\<close>

definition wb_disabled :: "wb_conf \<Rightarrow> call_stub \<Rightarrow> bool" where
  "wb_disabled conf a \<longleftrightarrow>
     (let o_direct = (if strict_O_DIRECT conf then O_DIRECT else 0)
      in st_fd_flags a AND (O_SYNC OR O_DSYNC OR o_direct) \<noteq> 0 \<or>
         st_flags a AND (O_SYNC OR O_DSYNC OR o_direct) \<noteq> 0)"

definition wb_writev :: "wb_conf \<Rightarrow> call_stub \<Rightarrow> wb_state \<Rightarrow> wb_state \<times> wb_event list" where
  "wb_writev conf a s =
     (case wb_fd_err s (st_fd a) of
        Some errno \<Rightarrow> (s, [Unwind GF_FOP_WRITE (st_frame a) (-1) errno])
      | None \<Rightarrow>
          let s = wb_inode_create conf s;
              stub = a\<lparr>st_fop := GF_FOP_WRITE\<rparr>;
              s = (if wb_disabled conf a then wb_enqueue s stub else wb_enqueue_tempted s stub)
          in wb_process_queue conf s)"

text \<open>The calls that are queued only when the inode has a context.\<close>

definition wb_queue :: "wb_conf \<Rightarrow> call_stub \<Rightarrow> wb_state \<Rightarrow> wb_state \<times> wb_event list" where
  "wb_queue conf stub s =
     (if \<not> wb_present s then (s, [Wind stub]) else wb_process_queue conf (wb_enqueue s stub))"

definition wb_readv :: "wb_conf \<Rightarrow> call_stub \<Rightarrow> wb_state \<Rightarrow> wb_state \<times> wb_event list" where
  "wb_readv conf a s = wb_queue conf (a\<lparr>st_fop := GF_FOP_READ\<rparr>) s"

definition wb_flush :: "wb_conf \<Rightarrow> call_stub \<Rightarrow> wb_state \<Rightarrow> wb_state \<times> wb_event list" where
  "wb_flush conf a s = wb_queue conf (a\<lparr>st_fop := GF_FOP_FLUSH\<rparr>) s"

definition wb_fsync :: "wb_conf \<Rightarrow> call_stub \<Rightarrow> wb_state \<Rightarrow> wb_state \<times> wb_event list" where
  "wb_fsync conf a s =
     (case wb_fd_err s (st_fd a) of
        Some errno \<Rightarrow> (s, [Unwind GF_FOP_FSYNC (st_frame a) (-1) errno])
      | None \<Rightarrow> wb_queue conf (a\<lparr>st_fop := GF_FOP_FSYNC\<rparr>) s)"

definition wb_stat :: "wb_conf \<Rightarrow> call_stub \<Rightarrow> wb_state \<Rightarrow> wb_state \<times> wb_event list" where
  "wb_stat conf a s = wb_queue conf (a\<lparr>st_fop := GF_FOP_STAT\<rparr>) s"

definition wb_fstat :: "wb_conf \<Rightarrow> call_stub \<Rightarrow> wb_state \<Rightarrow> wb_state \<times> wb_event list" where
  "wb_fstat conf a s = wb_queue conf (a\<lparr>st_fop := GF_FOP_FSTAT\<rparr>) s"

definition wb_truncate :: "wb_conf \<Rightarrow> call_stub \<Rightarrow> wb_state \<Rightarrow> wb_state \<times> wb_event list" where
  "wb_truncate conf a s =
     wb_process_queue conf (wb_enqueue (wb_inode_create conf s) (a\<lparr>st_fop := GF_FOP_TRUNCATE\<rparr>))"

definition wb_ftruncate :: "wb_conf \<Rightarrow> call_stub \<Rightarrow> wb_state \<Rightarrow> wb_state \<times> wb_event list" where
  "wb_ftruncate conf a s =
     (let s = wb_inode_create conf s
      in case wb_fd_err s (st_fd a) of
           Some errno \<Rightarrow> (s, [Unwind GF_FOP_FTRUNCATE (st_frame a) (-1) errno])
         | None \<Rightarrow> wb_process_queue conf (wb_enqueue s (a\<lparr>st_fop := GF_FOP_FTRUNCATE\<rparr>)))"

definition wb_setattr :: "wb_conf \<Rightarrow> call_stub \<Rightarrow> wb_state \<Rightarrow> wb_state \<times> wb_event list" where
  "wb_setattr conf a s = wb_queue conf (a\<lparr>st_fop := GF_FOP_SETATTR\<rparr>) s"

definition wb_fsetattr :: "wb_conf \<Rightarrow> call_stub \<Rightarrow> wb_state \<Rightarrow> wb_state \<times> wb_event list" where
  "wb_fsetattr conf a s = wb_queue conf (a\<lparr>st_fop := GF_FOP_FSETATTR\<rparr>) s"

text \<open>The handlers of open and create; the table of calls does not name them.\<close>

definition wb_open :: "wb_conf \<Rightarrow> u32 \<Rightarrow> wb_state \<Rightarrow> wb_state" where
  "wb_open conf flags s =
     (let s = wb_inode_create conf s
      in if (flags AND O_RDWR \<noteq> 0 \<or> flags AND O_WRONLY \<noteq> 0) \<and> flags AND O_TRUNC \<noteq> 0
         then s\<lparr>wb_size := 0\<rparr> else s)"

definition wb_create :: "wb_conf \<Rightarrow> u32 \<Rightarrow> wb_state \<Rightarrow> wb_state" where
  "wb_create conf flags s =
     (let s = wb_inode_create conf s
      in if (flags AND O_RDWR \<noteq> 0 \<or> flags AND O_WRONLY \<noteq> 0) \<and> flags AND O_TRUNC \<noteq> 0
         then s\<lparr>wb_size := 0\<rparr> else s)"

section \<open>Callbacks\<close>

text \<open>The reply to a head: \<open>op_ret\<close> is compared with a size_t, so a negative value other than
  \<open>-1\<close> counts as large.\<close>

definition wb_fulfill_cbk :: "wb_conf \<Rightarrow> addr \<Rightarrow> int \<Rightarrow> int \<Rightarrow> wb_state \<Rightarrow> wb_state \<times> wb_event list" where
  "wb_fulfill_cbk conf head ret errno s =
     (let s = s\<lparr>fulfill_frames := remove1 head (fulfill_frames s)\<rparr>;
          s = (if ret = -1 then wb_fulfill_err head errno s
               else if ret mod 2 ^ 64 < int (total_size (wb_reqs s head)) then wb_fulfill_err head EIO s
               else s)
      in wb_process_queue conf (wb_head_done head s))"

definition wb_writev_cbk :: "wb_conf \<Rightarrow> addr \<Rightarrow> int \<Rightarrow> int \<Rightarrow> wb_state \<Rightarrow> wb_state \<times> wb_event list" where
  "wb_writev_cbk conf r ret errno s =
     (let frame = st_frame (rq_stub (wb_reqs s r));
          s = wb_request_unref r (s\<lparr>writev_frames := remove1 r (writev_frames s)\<rparr>);
          (s, ev) = wb_process_queue conf s
      in (s, ev @ [Unwind GF_FOP_WRITE frame ret errno]))"

definition wb_truncate_cbk :: "addr \<Rightarrow> int \<Rightarrow> int \<Rightarrow> u64 \<Rightarrow> wb_state \<Rightarrow> wb_state \<times> wb_event list" where
  "wb_truncate_cbk frame ret errno sz s =
     (if ret = 0 then wb_set_inode_size sz s else s, [Unwind GF_FOP_TRUNCATE frame ret errno])"

definition wb_ftruncate_cbk :: "addr \<Rightarrow> int \<Rightarrow> int \<Rightarrow> u64 \<Rightarrow> wb_state \<Rightarrow> wb_state \<times> wb_event list" where
  "wb_ftruncate_cbk frame ret errno sz s =
     (if ret = 0 then wb_set_inode_size sz s else s, [Unwind GF_FOP_FTRUNCATE frame ret errno])"

definition wb_lookup_cbk :: "int \<Rightarrow> u64 \<Rightarrow> wb_state \<Rightarrow> wb_state" where
  "wb_lookup_cbk ret sz s = (if ret = 0 \<and> wb_present s then wb_set_inode_size sz s else s)"

text \<open>Forgetting an inode asserts that three of its lists are empty.\<close>

definition wb_forget :: "wb_state \<Rightarrow> bool \<times> wb_state" where
  "wb_forget s =
     (if \<not> wb_present s then (True, s)
      else (todo s = [] \<and> liability s = [] \<and> temptation s = [], s\<lparr>wb_present := False\<rparr>))"

definition wb_release :: "addr \<Rightarrow> wb_state \<Rightarrow> wb_state" where
  "wb_release fd s = s\<lparr>fd_err := (fd_err s)(fd := None)\<rparr>"

text \<open>The configuration from the values of the options; it is refused when the translator does
  not have exactly one child or the window is smaller than an aggregate.\<close>

definition wb_init :: "nat \<Rightarrow> nat \<Rightarrow> bool \<Rightarrow> bool \<Rightarrow> bool \<Rightarrow> bool \<Rightarrow> nat \<Rightarrow> wb_conf option" where
  "wb_init children cache_size fb tw od swo page =
     (if children \<noteq> 1 then None
      else let w = (if cache_size = 0 then WB_AGGREGATE_SIZE else cache_size)
           in if w < WB_AGGREGATE_SIZE then None
              else Some \<lparr>aggregate_size = WB_AGGREGATE_SIZE, window_size = w, flush_behind = fb,
                         trickling_writes = tw, strict_write_ordering = swo, strict_O_DIRECT = od,
                         page_size = page\<rparr>)"

text \<open>New values of the options; the window of an inode that has a context stays as it is.\<close>

definition wb_reconfigure :: "nat \<Rightarrow> bool \<Rightarrow> bool \<Rightarrow> bool \<Rightarrow> bool \<Rightarrow> wb_conf \<Rightarrow> wb_conf" where
  "wb_reconfigure cache_size fb tw od swo conf =
     conf\<lparr>window_size := cache_size, flush_behind := fb, trickling_writes := tw, strict_O_DIRECT := od,
          strict_write_ordering := swo\<rparr>"

section \<open>Runs\<close>

datatype wb_call =
    Call wb_fop call_stub
  | Fulfill_cbk addr int int
  | Writev_cbk addr int int
  | Truncate_cbk addr int int u64
  | Ftruncate_cbk addr int int u64
  | Release addr

text \<open>The table of calls and the callbacks.\<close>

definition wb_exec :: "wb_conf \<Rightarrow> wb_call \<Rightarrow> wb_state \<Rightarrow> wb_state \<times> wb_event list" where
  "wb_exec conf c s =
     (case c of
        Call fop a \<Rightarrow>
          (case fop of
             GF_FOP_WRITE \<Rightarrow> wb_writev conf a s
           | GF_FOP_READ \<Rightarrow> wb_readv conf a s
           | GF_FOP_FLUSH \<Rightarrow> wb_flush conf a s
           | GF_FOP_FSYNC \<Rightarrow> wb_fsync conf a s
           | GF_FOP_STAT \<Rightarrow> wb_stat conf a s
           | GF_FOP_FSTAT \<Rightarrow> wb_fstat conf a s
           | GF_FOP_TRUNCATE \<Rightarrow> wb_truncate conf a s
           | GF_FOP_FTRUNCATE \<Rightarrow> wb_ftruncate conf a s
           | GF_FOP_SETATTR \<Rightarrow> wb_setattr conf a s
           | GF_FOP_FSETATTR \<Rightarrow> wb_fsetattr conf a s)
      | Fulfill_cbk h ret errno \<Rightarrow> wb_fulfill_cbk conf h ret errno s
      | Writev_cbk r ret errno \<Rightarrow> wb_writev_cbk conf r ret errno s
      | Truncate_cbk f ret errno sz \<Rightarrow> wb_truncate_cbk f ret errno sz s
      | Ftruncate_cbk f ret errno sz \<Rightarrow> wb_ftruncate_cbk f ret errno sz s
      | Release fd \<Rightarrow> (wb_release fd s, []))"

text \<open>When a call can happen: a write names an open descriptor, carries its bytes, and ends
  where a file may end; a reply comes for a frame that is with the child; a descriptor is
  released when no request holds it.\<close>

definition wb_enabled :: "wb_state \<Rightarrow> wb_call \<Rightarrow> bool" where
  "wb_enabled s c \<longleftrightarrow>
     (case c of
        Call fop a \<Rightarrow>
          fop = GF_FOP_WRITE \<longrightarrow>
            st_fd a \<noteq> None \<and> st_vector a \<noteq> [] \<and>
            list_all (\<lambda>v. iov_len v \<le> length (iov_base v)) (st_vector a) \<and>
            uint (st_offset a) + int (iov_length (st_vector a)) \<le> 2 ^ 63
      | Fulfill_cbk h ret errno \<Rightarrow> h \<in> set (fulfill_frames s)
      | Writev_cbk r ret errno \<Rightarrow> r \<in> set (writev_frames s)
      | Truncate_cbk f ret errno sz \<Rightarrow> True
      | Ftruncate_cbk f ret errno sz \<Rightarrow> True
      | Release fd \<Rightarrow> list_all (\<lambda>r. rq_fd (wb_reqs s r) \<noteq> Some fd) (wb_all s))"

definition wb_blank :: wb_request where
  "wb_blank = \<lparr>rq_stub = \<lparr>st_fop = GF_FOP_STAT, st_frame = 0, st_owner = [], st_fd = None,
       st_fd_flags = 0, st_flags = 0, st_vector = [], st_offset = 0, st_size = 0\<rparr>,
     write_size = 0, orig_size = 0, total_size = 0, op_ret = 0, op_errno = 0, rq_refcount = 0,
     rq_fop = GF_FOP_STAT, rq_owner = [], rq_iobref = False, rq_gen = 0, rq_fd = None,
     ord_size = 0, ord_off = 0, ord_append = False, tempted = False, lied = False,
     fulfilled = False, go = False, winds = []\<rparr>"

definition wb_start :: wb_state where
  "wb_start = \<lparr>wb_reqs = (\<lambda>_. wb_blank), wb_next = 1, wb_present = False, window_conf = 0,
     window_current = 0, transit = 0, wb_all = [], todo = [], liability = [], temptation = [],
     wip = [], wb_gen = 0, wb_size = 0, fd_err = (\<lambda>_. None), fulfill_frames = [],
     writev_frames = [], overrun = False\<rparr>"

text \<open>Runs in which every call satisfies \<open>C\<close> and every state reached satisfies \<open>P\<close>.\<close>

inductive wb_run :: "wb_conf \<Rightarrow> (wb_call \<Rightarrow> bool) \<Rightarrow> (wb_state \<Rightarrow> bool) \<Rightarrow> wb_state \<Rightarrow>
    wb_call list \<Rightarrow> wb_event list \<Rightarrow> wb_state \<Rightarrow> bool"
  for conf C P s where
  wb_run_none: "wb_run conf C P s [] [] s"
| wb_run_call: "wb_run conf C P s cs ev s' \<Longrightarrow> C c \<Longrightarrow> wb_enabled s' c \<Longrightarrow>
    wb_exec conf c s' = (s'', ev') \<Longrightarrow> P s'' \<Longrightarrow> wb_run conf C P s (cs @ [c]) (ev @ ev') s''"

abbreviation wb_any :: "'a \<Rightarrow> bool" where "wb_any \<equiv> (\<lambda>_. True)"

definition wb_reachable :: "wb_conf \<Rightarrow> (wb_call \<Rightarrow> bool) \<Rightarrow> (wb_state \<Rightarrow> bool) \<Rightarrow> wb_state \<Rightarrow> bool" where
  "wb_reachable conf C P s \<longleftrightarrow> (\<exists>cs ev. wb_run conf C P wb_start cs ev s)"

end
