(* ===== verification/Write_Behind_Steps.thy ===== *)
theory Write_Behind_Steps
  imports Write_Behind_Fops
begin

text \<open>
  The work of wb_process_queue as a sequence of small steps. A configuration is the state with
  the local lists of the function: the tasks, lies and liabilities picked, the head request
  whose group is being put together, and the requests that are being settled. The loops are shown to be sequences of such steps,
  so that an invariant of the steps is an invariant of the queue.
\<close>

type_synonym wb_cfg = "wb_state \<times> addr list \<times> addr list \<times> addr list \<times> addr option \<times> addr list"

section \<open>Steps\<close>

definition collapsible :: "wb_conf \<Rightarrow> wb_request \<Rightarrow> wb_request \<Rightarrow> bool" where
  "collapsible conf hq q \<longleftrightarrow> rq_offset q = rq_offset hq + of_nat (write_size hq) \<and>
     rq_owner q = rq_owner hq \<and> rq_fd q = rq_fd hq \<and> write_size hq + write_size q \<le> page_size conf"

definition pickable :: "wb_conf \<Rightarrow> wb_state \<Rightarrow> addr \<Rightarrow> bool" where
  "pickable conf s r \<longleftrightarrow> \<not> wb_liability_has_conflict conf s r \<and>
     (tempted (wb_reqs s r) \<longrightarrow> go (wb_reqs s r)) \<and> \<not> wb_wip_has_conflict s r"

abbreviation is_write :: "wb_state \<Rightarrow> addr \<Rightarrow> bool" where
  "is_write s r \<equiv> st_fop (rq_stub (wb_reqs s r)) = GF_FOP_WRITE"

definition picked :: "addr \<Rightarrow> wb_state \<Rightarrow> wb_state" where
  "picked r s =
     (let s = (if is_write s r then s\<lparr>wip := list_add_tail r (wip s)\<rparr> else s);
          s = (if is_write s r \<and> \<not> tempted (wb_reqs s r) then wb_request_ref r s else s)
      in s\<lparr>todo := remove1 r (todo s)\<rparr>)"

definition lie_to :: "addr \<Rightarrow> wb_state \<Rightarrow> wb_state" where
  "lie_to r s =
     (let s = s\<lparr>temptation := remove1 r (temptation s),
                window_current := window_current s + int (orig_size (wb_reqs s r))\<rparr>
      in if \<not> fulfilled (wb_reqs s r)
         then (upd_rq r (\<lambda>q. q\<lparr>lied := True\<rparr>) s)
                \<lparr>liability := list_add_tail r (liability s), wb_gen := wb_gen s + 1\<rparr>
         else s)"

definition head_loaded :: "addr \<Rightarrow> wb_state \<Rightarrow> wb_state" where
  "head_loaded h s =
     (let group = h # winds (wb_reqs s h);
          vec = concat (map (\<lambda>r. rq_vector (wb_reqs s r)) group);
          size = sum_list (map (\<lambda>r. write_size (wb_reqs s r)) group);
          s = upd_rq h (\<lambda>q. q\<lparr>total_size := total_size q + size\<rparr>) s
      in s\<lparr>overrun := overrun s \<or> length vec > MAX_VECTOR_COUNT\<rparr>)"

definition head_sent :: "addr \<Rightarrow> wb_state \<Rightarrow> wb_state" where
  "head_sent h s = s\<lparr>transit := transit s + int (total_size (wb_reqs s h)),
     fulfill_frames := list_add_tail h (fulfill_frames s)\<rparr>"

definition head_event :: "addr \<Rightarrow> wb_state \<Rightarrow> wb_event" where
  "head_event h s = Wind_fulfill h (rq_fd (wb_reqs s h)) (rq_owner (wb_reqs s h)) (rq_offset (wb_reqs s h))
     (concat (map (\<lambda>r. rq_vector (wb_reqs s r)) (h # winds (wb_reqs s h))))"

inductive wb_mstep :: "wb_conf \<Rightarrow> wb_cfg \<Rightarrow> wb_event list \<Rightarrow> wb_cfg \<Rightarrow> bool" for conf where
  m_go: "r \<in> set (todo s) \<Longrightarrow> tempted (wb_reqs s r) \<Longrightarrow>
    wb_mstep conf (s, T, L, B, G, D) [] (set_go r s, T, L, B, G, D)"
| m_collapse: "todo s = xs @ h # ys @ r # zs \<Longrightarrow> \<forall>y \<in> set ys. \<not> tempted (wb_reqs s y) \<Longrightarrow>
    distinct (todo s) \<Longrightarrow> tempted (wb_reqs s h) \<Longrightarrow> tempted (wb_reqs s r) \<Longrightarrow>
    collapsible conf (wb_reqs s h) (wb_reqs s r) \<Longrightarrow>
    wb_mstep conf (s, T, L, B, G, D) []
      ((wb_collapse_small_writes h r s)\<lparr>todo := xs @ h # ys @ zs\<rparr>, T, L, B, G, r # D)"
| m_settle: "wb_mstep conf (s, T, L, B, G, r # D) [] (wb_fulfill_request r s, T, L, B, G, D)"
| m_task: "r \<in> set (todo s) \<Longrightarrow> pickable conf s r \<Longrightarrow> \<not> tempted (wb_reqs s r) \<Longrightarrow>
    wb_mstep conf (s, T, L, B, G, D) [] (picked r s, T @ [r], L, B, G, D)"
| m_liab: "r \<in> set (todo s) \<Longrightarrow> pickable conf s r \<Longrightarrow> tempted (wb_reqs s r) \<Longrightarrow>
    wb_mstep conf (s, T, L, B, G, D) [] (picked r s, T, L, B @ [r], G, D)"
| m_lie: "r \<in> set (temptation s) \<Longrightarrow> fulfilled (wb_reqs s r) \<or> window_current s \<le> window_conf s \<Longrightarrow>
    wb_mstep conf (s, T, L, B, G, D) [] (lie_to r s, T, L @ [r], B, G, D)"
| m_unwind: "wb_mstep conf (s, T, r # L, B, G, D)
    [Unwind GF_FOP_WRITE (st_frame (rq_stub (wb_reqs s r))) (op_ret (wb_reqs s r)) (op_errno (wb_reqs s r))]
    (wb_request_unref r s, T, L, B, G, D)"
| m_wind: "call_resume conf r s = (s', ev) \<Longrightarrow>
    wb_mstep conf (s, r # T, L, B, G, D) ev (wb_request_unref r s', T, L, B, G, D)"
| m_head: "wb_mstep conf (s, T, L, r # B, None, D) [] (s, T, L, B, Some r, D)"
| m_join: "rq_fd (wb_reqs s r) = rq_fd (wb_reqs s h) \<Longrightarrow> rq_owner (wb_reqs s r) = rq_owner (wb_reqs s h) \<Longrightarrow>
    rq_offset (wb_reqs s r) = rq_offset (wb_reqs s h) + of_nat (write_size (wb_reqs s h)) \<Longrightarrow>
    wb_mstep conf (s, T, L, r # B, Some h, D) []
      (upd_rq h (\<lambda>q. q\<lparr>winds := list_add_tail r (winds q)\<rparr>) s, T, L, B, Some h, D)"
| m_send: "wb_fd_err s (rq_fd (wb_reqs s h)) = None \<Longrightarrow>
    wb_mstep conf (s, T, L, B, Some h, D) [head_event h s] (head_sent h (head_loaded h s), T, L, B, None, D)"
| m_drop: "wb_fd_err s (rq_fd (wb_reqs s h)) \<noteq> None \<Longrightarrow>
    wb_mstep conf (s, T, L, B, Some h, D) [] (head_loaded h s, T, L, B, None, winds (wb_reqs s h) @ h # D)"

inductive wb_msteps :: "wb_conf \<Rightarrow> wb_cfg \<Rightarrow> wb_event list \<Rightarrow> wb_cfg \<Rightarrow> bool" for conf where
  ms_none: "wb_msteps conf c [] c"
| ms_step: "wb_mstep conf c ev c' \<Longrightarrow> wb_msteps conf c' ev' c'' \<Longrightarrow> wb_msteps conf c (ev @ ev') c''"

lemma ms_one: "wb_mstep conf c ev c' \<Longrightarrow> wb_msteps conf c ev c'"
  using ms_step [OF _ ms_none] by fastforce

lemma ms_trans: "wb_msteps conf c ev c' \<Longrightarrow> wb_msteps conf c' ev' c'' \<Longrightarrow> wb_msteps conf c (ev @ ev') c''"
  by (induction rule: wb_msteps.induct) (auto intro: ms_step)

lemma ms_step0: "wb_mstep conf c [] c' \<Longrightarrow> wb_msteps conf c' ev c'' \<Longrightarrow> wb_msteps conf c ev c''"
  using ms_step by fastforce

text \<open>Induction over the configurations of a sequence of steps.\<close>

lemma ms_invariant:
  assumes "wb_msteps conf c ev c'" "I c" "\<And>c ev c'. wb_mstep conf c ev c' \<Longrightarrow> I c \<Longrightarrow> I c'"
  shows "I c'"
  using assms by (induction rule: wb_msteps.induct) auto

section \<open>What the small steps leave alone\<close>

lemma reqs_upd_rq: "wb_reqs (upd_rq r f s) x = (if x = r then f (wb_reqs s r) else wb_reqs s x)"
  by (simp add: upd_rq_def)

lemma reqs_free [simp]: "wb_reqs (wb_request_free r s) = wb_reqs s"
  by (simp add: wb_request_free_def Let_def)

lemma unref_reqs:
  "wb_reqs (wb_request_unref r s) x =
     (if x = r \<and> rq_refcount (wb_reqs s r) > 0
      then (wb_reqs s r)\<lparr>rq_refcount := rq_refcount (wb_reqs s r) - 1\<rparr> else wb_reqs s x)"
  by (simp add: wb_request_unref_def Let_def reqs_upd_rq)

lemma fulfill_request_reqs:
  "wb_reqs (wb_fulfill_request r s) x =
     (if x = r then (wb_reqs s r)\<lparr>fulfilled := True,
        rq_refcount := (if rq_refcount (wb_reqs s r) > 0 then rq_refcount (wb_reqs s r) - 1
                        else rq_refcount (wb_reqs s r))\<rparr>
      else wb_reqs s x)"
  by (simp add: wb_fulfill_request_def Let_def unref_reqs reqs_upd_rq)

lemma todo_unref_eq:
  "todo (wb_request_unref r s) = todo s \<or> todo (wb_request_unref r s) = remove1 r (todo s)"
  "temptation (wb_request_unref r s) = temptation s \<or>
     temptation (wb_request_unref r s) = remove1 r (temptation s)"
  by (auto simp: wb_request_unref_def wb_request_free_def Let_def upd_rq_def)

lemma todo_fulfill_request_id: "r \<notin> set (todo s) \<Longrightarrow> todo (wb_fulfill_request r s) = todo s"
proof -
  assume "r \<notin> set (todo s)"
  then have "todo (wb_request_unref r x) = todo s" if "todo x = todo s" for x
    using todo_unref_eq(1) [of r x] that by (auto simp: remove1_idem)
  then show ?thesis unfolding wb_fulfill_request_def Let_def by simp
qed

text \<open>Two lists without repetition stay so; they only shrink.\<close>

definition wb_lists :: "wb_state \<Rightarrow> bool" where
  "wb_lists s \<longleftrightarrow> distinct (todo s) \<and> distinct (temptation s)"

lemma wb_lists_upd [simp]: "wb_lists (upd_rq r f s) = wb_lists s"
  by (simp add: wb_lists_def upd_rq_def)

lemma wb_lists_unref: "wb_lists s \<Longrightarrow> wb_lists (wb_request_unref r s)"
  using todo_unref_eq [of r s] by (auto simp: wb_lists_def)

lemma wb_lists_fulfill_request: "wb_lists s \<Longrightarrow> wb_lists (wb_fulfill_request r s)"
  unfolding wb_fulfill_request_def Let_def by (rule wb_lists_unref) (simp add: wb_lists_def upd_rq_def)

lemma wb_lists_mstep: "wb_mstep conf c ev c' \<Longrightarrow> wb_lists (fst c) \<Longrightarrow> wb_lists (fst c')"
proof (induction rule: wb_mstep.induct)
  case (m_wind r s s' ev)
  then have "wb_lists s'"
    by (auto simp: call_resume_def Let_def wb_lists_def split: wb_fop.splits)
  then show ?case by (simp add: wb_lists_unref)
qed (auto simp: set_go_def picked_def lie_to_def head_sent_def head_loaded_def wb_collapse_small_writes_def
    Let_def wb_request_ref_def wb_lists_unref wb_lists_fulfill_request, auto simp: wb_lists_def upd_rq_def)

lemma wb_lists_msteps: "wb_msteps conf c ev c' \<Longrightarrow> wb_lists (fst c) \<Longrightarrow> wb_lists (fst c')"
  by (induction rule: wb_msteps.induct) (auto dest: wb_lists_mstep)

section \<open>The loops are sequences of steps\<close>

lemma subset_remove1: "set rs \<subseteq> set xs \<Longrightarrow> r \<notin> set rs \<Longrightarrow> set rs \<subseteq> set (remove1 r xs)"
  by (metis in_set_remove1 subset_iff)

lemma preprocess_loop_steps:
  assumes "wb_preprocess_loop conf rs holder s = (holder', s')" "wb_lists s" "todo s = ds @ rs"
    "case holder of None \<Rightarrow> True | Some h \<Rightarrow> \<exists>xs ys. ds = xs @ h # ys \<and>
        (\<forall>y \<in> set ys. \<not> tempted (wb_reqs s y)) \<and> tempted (wb_reqs s h)"
  shows "wb_msteps conf (s, T, L, B, G, D) [] (s', T, L, B, G, D) \<and>
    (case holder' of None \<Rightarrow> True | Some h \<Rightarrow> h \<in> set (todo s') \<and> tempted (wb_reqs s' h))"
  using assms
proof (induction conf rs holder s arbitrary: ds rule: wb_preprocess_loop.induct)
  case (1 conf holder s)
  then show ?case by (auto intro: ms_none split: option.splits)
next
  case (2 conf r rs holder s)
  show ?case
  proof (cases "tempted (wb_reqs s r)")
    case f: False
    let ?s1 = "case holder of None \<Rightarrow> s
      | Some h \<Rightarrow> if wb_requests_conflict conf s h r then set_go h s else s"
    have st: "wb_msteps conf (s, T, L, B, G, D) [] (?s1, T, L, B, G, D)"
      using 2(7,8) by (auto split: option.splits intro!: ms_none ms_one m_go)
    have td: "todo ?s1 = (ds @ [r]) @ rs" "wb_lists ?s1" "\<And>y. tempted (wb_reqs ?s1 y) = tempted (wb_reqs s y)"
      using 2(6,7) by (auto simp: set_go_def reqs_upd_rq split: option.splits)
    have hl: "case holder of None \<Rightarrow> True | Some h \<Rightarrow> \<exists>xs ys. ds @ [r] = xs @ h # ys \<and>
        (\<forall>y \<in> set ys. \<not> tempted (wb_reqs ?s1 y)) \<and> tempted (wb_reqs ?s1 h)"
    proof (cases holder)
      case (Some h)
      then obtain xs ys where "ds = xs @ h # ys" "\<forall>y \<in> set ys. \<not> tempted (wb_reqs s y)" "tempted (wb_reqs s h)"
        using 2(8) by auto
      then show ?thesis using Some f td(3) by (auto intro: exI [of _ xs])
    qed simp
    have "wb_preprocess_loop conf rs holder ?s1 = (holder', s')" using 2(5) f by simp
    from 2(1) [OF f this td(2,1) hl] show ?thesis using ms_trans [OF st] by fastforce
  next
    case t: True
    have last: "\<exists>xs ys. ds @ [r] = xs @ r # ys \<and> (\<forall>y \<in> set ys. \<not> tempted (wb_reqs x y))" for x
      by (intro exI [of _ ds] exI [of _ "[]"]) simp
    show ?thesis
    proof (cases holder)
      case None
      then have "wb_preprocess_loop conf rs (Some r) s = (holder', s')" using 2(5) t by simp
      then show ?thesis using 2(2) [OF _ None, of "ds @ [r]"] 2(6,7) t last by auto
    next
      case (Some h)
      from 2(8) Some obtain xs ys where h: "ds = xs @ h # ys" "\<forall>y \<in> set ys. \<not> tempted (wb_reqs s y)"
        "tempted (wb_reqs s h)" by auto
      show ?thesis
      proof (cases "collapsible conf (wb_reqs s h) (wb_reqs s r)")
        case False
        then have e: "wb_preprocess_loop conf rs (Some r) (set_go h s) = (holder', s')"
          using 2(5) t Some by (auto simp: collapsible_def Let_def split: if_splits)
        have m: "wb_mstep conf (s, T, L, B, G, D) [] (set_go h s, T, L, B, G, D)"
          by (rule m_go) (use 2(7) h in auto)
        have "wb_lists (set_go h s)" "todo (set_go h s) = (ds @ [r]) @ rs" "tempted (wb_reqs (set_go h s) r)"
          using 2(6,7) t by (auto simp: set_go_def reqs_upd_rq)
        moreover have "rq_offset (wb_reqs s r) \<noteq> rq_offset (wb_reqs s h) + of_nat (write_size (wb_reqs s h))
            \<or> \<not> is_same_lkowner (rq_owner (wb_reqs s r)) (rq_owner (wb_reqs s h))
            \<or> rq_fd (wb_reqs s r) \<noteq> rq_fd (wb_reqs s h)
            \<or> int (page_size conf) - int (write_size (wb_reqs s h)) < int (write_size (wb_reqs s r))"
          using False by (auto simp: collapsible_def)
        ultimately show ?thesis
          using 2(3) [OF _ Some refl refl _ e, of "ds @ [r]"] t last [of "set_go h s"] ms_step0 [OF m] by simp
      next
        case True
        let ?s1 = "(wb_collapse_small_writes h r s)\<lparr>todo := xs @ h # ys @ rs\<rparr>"
        have td: "remove1 r (todo (wb_collapse_small_writes h r s)) = xs @ h # ys @ rs"
          using 2(6,7) h(1) by (auto simp: wb_lists_def wb_collapse_small_writes_def Let_def remove1_append)
        then have e: "wb_preprocess_loop conf rs (Some h) (wb_fulfill_request r ?s1) = (holder', s')"
          using 2(5) t Some True by (auto simp: collapsible_def Let_def)
        have "wb_mstep conf (s, T, L, B, G, D) [] (?s1, T, L, B, G, r # D)"
          by (rule m_collapse [where xs = xs and h = h and ys = ys and r = r and zs = rs])
            (use 2(6,7) h t True in \<open>auto simp: wb_lists_def\<close>)
        from ms_step0 [OF this ms_one [OF m_settle]]
        have m: "wb_msteps conf (s, T, L, B, G, D) [] (wb_fulfill_request r ?s1, T, L, B, G, D)" .
        have "r \<notin> set (xs @ h # ys @ rs)" using 2(6,7) h(1) by (auto simp: wb_lists_def)
        then have td2: "todo (wb_fulfill_request r ?s1) = ds @ rs"
          using todo_fulfill_request_id [of r ?s1] h(1) by simp
        have tm: "tempted (wb_reqs (wb_fulfill_request r ?s1) y) = tempted (wb_reqs s y)" for y
          by (simp add: fulfill_request_reqs wb_collapse_small_writes_def Let_def reqs_upd_rq)
        have c: "\<not> (rq_offset (wb_reqs s r) \<noteq> rq_offset (wb_reqs s h) + of_nat (write_size (wb_reqs s h))
            \<or> \<not> is_same_lkowner (rq_owner (wb_reqs s r)) (rq_owner (wb_reqs s h))
            \<or> rq_fd (wb_reqs s r) \<noteq> rq_fd (wb_reqs s h)
            \<or> int (page_size conf) - int (write_size (wb_reqs s h)) < int (write_size (wb_reqs s r)))"
          using True by (auto simp: collapsible_def)
        have "wb_lists (wb_fulfill_request r ?s1)" using wb_lists_msteps [OF m] 2(6) by simp
        moreover have "\<exists>xs ys. ds = xs @ h # ys \<and> (\<forall>y \<in> set ys. \<not> tempted (wb_reqs s y))"
          using h(1,2) by blast
        ultimately show ?thesis
          using 2(4) [OF _ Some refl refl c refl refl, of ds] t e td td2 tm h(3) ms_trans [OF m, of "[]"] by simp
      qed
    qed
  qed
qed

lemma preprocess_steps:
  assumes "wb_lists s"
  shows "wb_msteps conf (s, T, L, B, G, D) [] (wb_preprocess_winds conf s, T, L, B, G, D)"
proof -
  obtain holder s' where e: "wb_preprocess_loop conf (todo s) None s = (holder, s')" by (metis prod.exhaust)
  from preprocess_loop_steps [OF e assms, of "[]"]
  have st: "wb_msteps conf (s, T, L, B, G, D) [] (s', T, L, B, G, D)"
    and h: "case holder of None \<Rightarrow> True | Some h \<Rightarrow> h \<in> set (todo s') \<and> tempted (wb_reqs s' h)" by auto
  have "wb_msteps conf (s', T, L, B, G, D) [] (wb_preprocess_winds conf s, T, L, B, G, D)"
    using e h by (auto simp: wb_preprocess_winds_def split: option.splits intro!: ms_none ms_one m_go)
  from ms_trans [OF st this] show ?thesis by simp
qed

lemma pick_winds_loop_steps:
  "wb_pick_winds_loop conf rs s = (s', tasks, liabs) \<Longrightarrow> set rs \<subseteq> set (todo s) \<Longrightarrow> distinct rs \<Longrightarrow>
     wb_msteps conf (s, T, L, B, G, D) [] (s', T @ tasks, L, B @ liabs, G, D)"
proof (induction rs arbitrary: s s' tasks liabs T B)
  case Nil
  then show ?case by (auto intro: ms_none)
next
  case (Cons r rs)
  show ?case
  proof (cases "pickable conf s r")
    case False
    then have "wb_pick_winds_loop conf rs s = (s', tasks, liabs)"
      using Cons.prems(1) by (auto simp: pickable_def Let_def wb_wip_has_conflict_def split: if_splits)
    then show ?thesis using Cons.IH Cons.prems(2,3) by auto
  next
    case True
    obtain s1 ta li where l: "wb_pick_winds_loop conf rs (picked r s) = (s1, ta, li)" by (metis prod_cases3)
    have r: "s1 = s'" "tempted (wb_reqs s r) \<Longrightarrow> tasks = ta \<and> liabs = r # li"
      "\<not> tempted (wb_reqs s r) \<Longrightarrow> tasks = r # ta \<and> liabs = li"
      using Cons.prems(1) True l by (auto simp: pickable_def picked_def Let_def split: if_splits prod.splits)
    have sub: "set rs \<subseteq> set (todo (picked r s))"
      using subset_remove1 [of rs "todo s" r] Cons.prems(2,3)
      by (simp add: picked_def Let_def wb_request_ref_def)
    show ?thesis
    proof (cases "tempted (wb_reqs s r)")
      case t: True
      have "wb_mstep conf (s, T, L, B, G, D) [] (picked r s, T, L, B @ [r], G, D)"
        using m_liab True t Cons.prems(2) by auto
      from ms_step0 [OF this Cons.IH [OF l sub]] show ?thesis using Cons.prems(3) r t by simp
    next
      case t: False
      have "wb_mstep conf (s, T, L, B, G, D) [] (picked r s, T @ [r], L, B, G, D)"
        using m_task True t Cons.prems(2) by auto
      from ms_step0 [OF this Cons.IH [OF l sub]] show ?thesis using Cons.prems(3) r t by simp
    qed
  qed
qed

lemma pick_unwinds_loop_steps:
  "wb_pick_unwinds_loop rs s = (s', lies) \<Longrightarrow> set rs \<subseteq> set (temptation s) \<Longrightarrow> distinct rs \<Longrightarrow>
     wb_msteps conf (s, T, L, B, G, D) [] (s', T, L @ lies, B, G, D)"
proof (induction rs arbitrary: s s' lies L)
  case Nil
  then show ?case by (auto intro: ms_none)
next
  case (Cons r rs)
  show ?case
  proof (cases "\<not> fulfilled (wb_reqs s r) \<and> window_current s > window_conf s")
    case True
    then show ?thesis using Cons by auto
  next
    case False
    obtain s1 li where l: "wb_pick_unwinds_loop rs (lie_to r s) = (s1, li)" by (metis prod.exhaust)
    have e: "s1 = s'" "lies = r # li"
      using Cons.prems(1) False l by (auto simp: lie_to_def Let_def split: if_splits prod.splits)
    have "set rs \<subseteq> set (temptation (lie_to r s))"
      using subset_remove1 [of rs "temptation s" r] Cons.prems(2,3) by (simp add: lie_to_def Let_def upd_rq_def)
    from Cons.IH [OF l this, of "L @ [r]"] have st: "wb_msteps conf (lie_to r s, T, L @ [r], B, G, D) [] (s', T, L @ lies, B, G, D)"
      using Cons.prems(3) e by simp
    have "wb_mstep conf (s, T, L, B, G, D) [] (lie_to r s, T, L @ [r], B, G, D)"
      using Cons.prems(2) False by (intro m_lie) auto
    from ms_step0 [OF this st] show ?thesis .
  qed
qed

lemma do_unwinds_steps:
  "wb_do_unwinds rs s = (s', ev) \<Longrightarrow> wb_msteps conf (s, T, rs @ L, B, G, D) ev (s', T, L, B, G, D)"
proof (induction rs arbitrary: s s' ev)
  case Nil
  then show ?case by (auto intro: ms_none)
next
  case (Cons r rs)
  obtain s1 ev1 where "wb_do_unwinds rs (wb_request_unref r s) = (s1, ev1)" by (metis prod.exhaust)
  then show ?case using Cons.prems ms_step [OF m_unwind Cons.IH] by (fastforce simp: Let_def)
qed

lemma do_winds_steps:
  "wb_do_winds conf rs s = (s', ev) \<Longrightarrow> wb_msteps conf (s, rs @ T, L, B, G, D) ev (s', T, L, B, G, D)"
proof (induction rs arbitrary: s s' ev)
  case Nil
  then show ?case by (auto intro: ms_none)
next
  case (Cons r rs)
  obtain s1 ev1 where c: "call_resume conf r s = (s1, ev1)" by (metis prod.exhaust)
  obtain s2 ev2 where "wb_do_winds conf rs (wb_request_unref r s1) = (s2, ev2)" by (metis prod.exhaust)
  then show ?case using Cons.prems c ms_step [OF m_wind [OF c] Cons.IH] by (fastforce simp: Let_def)
qed

lemma settle_steps: "wb_msteps conf (s, T, L, B, G, rs @ D) [] (fold wb_fulfill_request rs s, T, L, B, G, D)"
  by (induction rs arbitrary: s) (auto intro: ms_none ms_step0 [OF m_settle])

lemma wb_head_done_steps:
  "wb_msteps conf (s, T, L, B, G, winds (wb_reqs s h) @ h # D) [] (wb_head_done h s, T, L, B, G, D)"
  using ms_trans [OF settle_steps ms_one [OF m_settle]] by (fastforce simp: wb_head_done_def)

lemma winds_head_loaded [simp]: "winds (wb_reqs (head_loaded h s) r) = winds (wb_reqs s r)"
  by (simp add: head_loaded_def Let_def reqs_upd_rq)

lemma fulfill_head_cases:
  assumes "wb_fulfill_head h s = (s', ev, ret)"
  obtains "wb_fd_err s (rq_fd (wb_reqs s h)) = None" "s' = head_sent h (head_loaded h s)" "ev = [head_event h s]" "\<not> ret"
  | "wb_fd_err s (rq_fd (wb_reqs s h)) \<noteq> None" "s' = wb_head_done h (head_loaded h s)" "ev = []" "ret"
proof -
  have "wb_fd_err (head_loaded h s) x = wb_fd_err s x" for x
    by (simp add: wb_fd_err_def head_loaded_def Let_def upd_rq_def)
  then show thesis using assms that
    by (fastforce simp: wb_fulfill_head_def head_loaded_def head_sent_def head_event_def Let_def reqs_upd_rq
        split: if_splits)
qed

lemma fulfill_head_steps:
  assumes "wb_fulfill_head h s = (s', ev, ret)"
  shows "wb_msteps conf (s, T, L, B, Some h, D) ev (s', T, L, B, None, D)"
  using assms
proof (cases rule: fulfill_head_cases)
  case 1
  then show ?thesis using ms_one [OF m_send] by simp
next
  case 2
  have "wb_msteps conf (head_loaded h s, T, L, B, None, winds (wb_reqs s h) @ h # D) [] (s', T, L, B, None, D)"
    using wb_head_done_steps [of conf "head_loaded h s" T L B None h D] 2(2) by simp
  then show ?thesis using ms_step0 [OF m_drop] 2 by simp
qed

lemma fulfill_request_stub [simp]:
  "rq_stub (wb_reqs (wb_fulfill_request r s) x) = rq_stub (wb_reqs s x)"
  "write_size (wb_reqs (wb_fulfill_request r s) x) = write_size (wb_reqs s x)"
  by (simp_all add: fulfill_request_reqs)

lemma fold_fulfill_stub [simp]:
  "rq_stub (wb_reqs (fold wb_fulfill_request rs s) x) = rq_stub (wb_reqs s x)"
  "write_size (wb_reqs (fold wb_fulfill_request rs s) x) = write_size (wb_reqs s x)"
  by (induction rs arbitrary: s) simp_all

lemma fulfill_head_stub:
  assumes "wb_fulfill_head h s = (s', ev, ret)"
  shows "rq_offset (wb_reqs s' x) = rq_offset (wb_reqs s x) \<and> write_size (wb_reqs s' x) = write_size (wb_reqs s x)"
  using assms by (cases rule: fulfill_head_cases)
    (auto simp: wb_head_done_def head_sent_def head_loaded_def Let_def reqs_upd_rq)

lemma fulfill_loop_steps:
  "wb_fulfill_loop conf rs acc s = (s', ev, ret) \<Longrightarrow>
   (case acc of None \<Rightarrow> True | Some (h, exp, agg, cnt) \<Rightarrow>
      exp = rq_offset (wb_reqs s h) + of_nat (write_size (wb_reqs s h))) \<Longrightarrow>
   wb_msteps conf (s, T, L, rs @ B, map_option fst acc, D) ev (s', T, L, B, None, D)"
proof (induction conf rs acc s arbitrary: s' ev ret rule: wb_fulfill_loop.induct)
  case (3 conf r rs s)
  then show ?case using ms_step0 [OF m_head] by fastforce
next
  case (4 conf r rs head exp agg cnt s)
  let ?q = "wb_reqs s r" and ?h = "wb_reqs s head"
  let ?new = "rq_fd ?q \<noteq> rq_fd ?h \<or> \<not> is_same_lkowner (rq_owner ?q) (rq_owner ?h) \<or> exp \<noteq> rq_offset ?q
    \<or> agg + write_size ?q > aggregate_size conf \<or> cnt + length (rq_vector ?q) > MAX_VECTOR_COUNT"
  show ?case
  proof (cases ?new)
    case True
    obtain s1 ev1 r1 where h: "wb_fulfill_head head s = (s1, ev1, r1)" by (metis prod_cases3)
    let ?acc = "Some (r, rq_offset ?q + of_nat (write_size ?q), 0::nat, 0::nat)"
    obtain s2 ev2 r2 where l: "wb_fulfill_loop conf rs ?acc s1 = (s2, ev2, r2)" by (metis prod_cases3)
    have e: "s' = s2" "ev = ev1 @ ev2" using 4(3) True h l by (auto simp: Let_def)
    have "wb_msteps conf (s1, T, L, rs @ B, map_option fst ?acc, D) ev2 (s2, T, L, B, None, D)"
      using 4(1) [OF refl refl True h [symmetric] refl refl l] fulfill_head_stub [OF h, of r] by simp
    then have "wb_msteps conf (s1, T, L, r # rs @ B, None, D) ev2 (s2, T, L, B, None, D)"
      using ms_step0 [OF m_head] by simp
    from ms_trans [OF fulfill_head_steps [OF h] this] show ?thesis using e by simp
  next
    case False
    let ?s1 = "upd_rq head (\<lambda>h. h\<lparr>winds := list_add_tail r (winds h)\<rparr>) s"
    have l: "wb_fulfill_loop conf rs (Some (head, exp, agg + write_size ?q, cnt + length (rq_vector ?q))) ?s1 = (s', ev, ret)"
      using 4(3) False by (simp add: Let_def)
    have m: "wb_mstep conf (s, T, L, r # rs @ B, Some head, D) [] (?s1, T, L, rs @ B, Some head, D)"
      using False 4(4) by (intro m_join) auto
    have "wb_msteps conf (?s1, T, L, rs @ B, Some head, D) ev (s', T, L, B, None, D)"
      using 4(2) [OF refl refl False l] 4(4) by (simp add: reqs_upd_rq)
    from ms_step0 [OF m this] show ?thesis by simp
  qed
qed (auto intro: ms_none dest: fulfill_head_steps)

section \<open>The queue is a sequence of steps\<close>

lemma process_once_stages:
  assumes "wb_process_once conf s = (s', ev, retry)" "wb_lists s"
  obtains b T B c L d ev1 e ev2 ev3 where
    "wb_pick_winds conf (wb_preprocess_winds conf s) = (b, T, B)" "wb_pick_unwinds b = (c, L)" "wb_do_unwinds L c = (d, ev1)"
    "wb_do_winds conf T d = (e, ev2)" "wb_fulfill conf B e = (s', ev3, retry)" "ev = (ev1 @ ev2) @ ev3"
    "wb_msteps conf (s, [], [], [], None, []) [] (wb_preprocess_winds conf s, [], [], [], None, [])"
    "wb_msteps conf (wb_preprocess_winds conf s, [], [], [], None, []) (ev1 @ ev2) (e, [], [], B, None, [])"
proof -
  let ?a = "wb_preprocess_winds conf s"
  obtain b T B where b: "wb_pick_winds conf ?a = (b, T, B)" by (metis prod_cases3)
  obtain c L where c: "wb_pick_unwinds b = (c, L)" by (metis prod.exhaust)
  obtain d ev1 where d: "wb_do_unwinds L c = (d, ev1)" by (metis prod.exhaust)
  obtain e ev2 where e: "wb_do_winds conf T d = (e, ev2)" by (metis prod.exhaust)
  obtain f ev3 ret where f: "wb_fulfill conf B e = (f, ev3, ret)" by (metis prod_cases3)
  have r: "f = s'" "ev = (ev1 @ ev2) @ ev3" "ret = retry" using assms b c d e f by (auto simp: wb_process_once_def Let_def)
  note 1 = preprocess_steps [OF assms(2), of conf "[]" "[]" "[]" None "[]"]
  have la: "wb_lists ?a" using wb_lists_msteps [OF 1] assms(2) by simp
  have 2: "wb_msteps conf (?a, [], [], [], None, []) [] (b, T, [], B, None, [])"
    using pick_winds_loop_steps [of conf "todo ?a" ?a b T B "[]" "[]" "[]" None "[]"] b la
    by (simp add: wb_pick_winds_def wb_lists_def)
  have lb: "wb_lists b" using wb_lists_msteps [OF 2] la by simp
  have 3: "wb_msteps conf (b, T, [], B, None, []) [] (c, T, L, B, None, [])"
    using pick_unwinds_loop_steps [of "temptation b" b c L conf T "[]" B None "[]"] c lb
    by (simp add: wb_pick_unwinds_def wb_lists_def)
  have 4: "wb_msteps conf (c, T, L, B, None, []) ev1 (d, T, [], B, None, [])"
    using do_unwinds_steps [OF d, of conf T "[]" B None "[]"] by simp
  have 5: "wb_msteps conf (d, T, [], B, None, []) ev2 (e, [], [], B, None, [])"
    using do_winds_steps [OF e, of "[]" "[]" B None "[]"] by simp
  show thesis
    using that [OF b c d e f [unfolded r] r(2) 1] ms_trans [OF 2 ms_trans [OF 3 ms_trans [OF 4 5]]] by simp
qed

lemma process_once_steps:
  assumes "wb_process_once conf s = (s', ev, retry)" "wb_lists s"
  shows "wb_msteps conf (s, [], [], [], None, []) ev (s', [], [], [], None, [])"
proof -
  from assms obtain B e ev12 ev3 where f: "wb_fulfill conf B e = (s', ev3, retry)" "ev = ev12 @ ev3"
    and a: "wb_msteps conf (s, [], [], [], None, []) [] (wb_preprocess_winds conf s, [], [], [], None, [])"
      "wb_msteps conf (wb_preprocess_winds conf s, [], [], [], None, []) ev12 (e, [], [], B, None, [])"
    by (rule process_once_stages)
  have "wb_msteps conf (e, [], [], B, None, []) ev3 (s', [], [], [], None, [])"
    using fulfill_loop_steps [OF f(1) [unfolded wb_fulfill_def], of "[]" "[]" "[]" "[]"] by simp
  then show ?thesis using ms_trans [OF a(1) ms_trans [OF a(2)]] f(2) by simp
qed

lemma process_queue_steps:
  "wb_process_queue conf s = (s', ev) \<Longrightarrow> wb_lists s \<Longrightarrow>
     wb_msteps conf (s, [], [], [], None, []) ev (s', [], [], [], None, [])"
proof (induction conf s arbitrary: s' ev rule: wb_process_queue.induct)
  case (1 conf s)
  obtain s1 ev1 retry where o: "wb_process_once conf s = (s1, ev1, retry)" by (metis prod_cases3)
  note st = process_once_steps [OF o 1(3)]
  show ?case
  proof (cases retry)
    case False
    then show ?thesis using st 1(2) o by (simp add: wb_process_queue.simps [of conf s])
  next
    case True
    obtain s2 ev2 where q: "wb_process_queue conf s1 = (s2, ev2)" by (metis prod.exhaust)
    then have e: "s' = s2" "ev = ev1 @ ev2" using 1(2) o True by (simp_all add: wb_process_queue.simps [of conf s])
    have "wb_lists s1" using wb_lists_msteps [OF st] 1(3) by simp
    from 1(1) [OF o [symmetric] refl True q this] show ?thesis using ms_trans [OF st] e by simp
  qed
qed

end
