(* ===== verification/Write_Behind_Refs.thy ===== *)
theory Write_Behind_Refs
  imports Write_Behind_Steps
begin

text \<open>
  The references to the requests of the write-behind translator: each request is held once for
  sending, once for answering its caller early, and once by the frame of a synchronous write,
  and is freed exactly when nobody holds it. The invariant also says which lists a request may
  be on together. Every small step keeps it.
\<close>

section \<open>References\<close>

lemma upd_rq_fields [simp]:
  "wb_next (upd_rq r f s) = wb_next s" "wb_present (upd_rq r f s) = wb_present s"
  "window_conf (upd_rq r f s) = window_conf s" "window_current (upd_rq r f s) = window_current s"
  "transit (upd_rq r f s) = transit s" "wb_all (upd_rq r f s) = wb_all s"
  "liability (upd_rq r f s) = liability s" "temptation (upd_rq r f s) = temptation s"
  "wip (upd_rq r f s) = wip s" "wb_gen (upd_rq r f s) = wb_gen s" "wb_size (upd_rq r f s) = wb_size s"
  "fd_err (upd_rq r f s) = fd_err s" "fulfill_frames (upd_rq r f s) = fulfill_frames s"
  "writev_frames (upd_rq r f s) = writev_frames s" "overrun (upd_rq r f s) = overrun s"
  by (simp_all add: upd_rq_def)

text \<open>Every request object is held as many times as its count says, and the objects are exactly
  those on the list of all requests.\<close>

definition wb_acct :: "addr multiset \<Rightarrow> wb_state \<Rightarrow> bool" where
  "wb_acct H s \<longleftrightarrow> distinct (wb_all s) \<and> set (wb_all s) = set_mset H \<and>
     (\<forall>r \<in># H. rq_refcount (wb_reqs s r) = int (count H r) \<and> r < wb_next s) \<and>
     distinct (liability s) \<and> set (liability s) \<subseteq> set_mset H \<and>
     distinct (wip s) \<and> set (wip s) \<subseteq> set_mset H"

definition only_lists :: "wb_state \<Rightarrow> wb_state \<Rightarrow> bool" where
  "only_lists s s' \<longleftrightarrow> todo s' = todo s \<and> temptation s' = temptation s \<and>
     fulfill_frames s' = fulfill_frames s \<and> writev_frames s' = writev_frames s \<and>
     wb_next s' = wb_next s \<and> wb_present s' = wb_present s"

lemma unref_fields [simp]:
  "wb_next (wb_request_unref r s) = wb_next s" "wb_present (wb_request_unref r s) = wb_present s"
  "transit (wb_request_unref r s) = transit s" "window_conf (wb_request_unref r s) = window_conf s"
  "wb_size (wb_request_unref r s) = wb_size s" "fd_err (wb_request_unref r s) = fd_err s"
  "fulfill_frames (wb_request_unref r s) = fulfill_frames s"
  "writev_frames (wb_request_unref r s) = writev_frames s" "overrun (wb_request_unref r s) = overrun s"
  by (simp_all add: wb_request_unref_def wb_request_free_def Let_def)

lemma acct_unref:
  assumes a: "wb_acct H s" and r: "r \<in># H"
    and t: "set (todo s) \<union> set (temptation s) \<subseteq> set_mset (H - {#r#})"
  shows "wb_acct (H - {#r#}) (wb_request_unref r s) \<and> only_lists s (wb_request_unref r s)"
    "liability (wb_request_unref r s) = filter (\<lambda>x. x \<in># H - {#r#}) (liability s)"
    "wip (wb_request_unref r s) = filter (\<lambda>x. x \<in># H - {#r#}) (wip s)"
    "wb_all (wb_request_unref r s) = filter (\<lambda>x. x \<in># H - {#r#}) (wb_all s)"
proof -
  have rc: "rq_refcount (wb_reqs s r) = int (count H r)" "count H r > 0" using a r by (auto simp: wb_acct_def)
  have in_H: "x \<in># H - {#r#} \<longleftrightarrow> x \<in># H \<and> (x = r \<longrightarrow> count H r \<noteq> 1)" for x
  proof (cases "x = r")
    case True
    have "1 < count H r \<longleftrightarrow> count H r \<noteq> 1" using rc(2) by linarith
    then show ?thesis using True r by (simp add: in_diff_count)
  qed (simp add: in_diff_count)
  have flt: "filter (\<lambda>x. x \<in># H - {#r#}) xs = (if count H r = 1 then remove1 r xs else xs)"
    if "distinct xs" "set xs \<subseteq> set_mset H" for xs
    using that by (auto simp: in_H distinct_remove1_removeAll removeAll_filter_not_eq filter_id_conv intro!: filter_cong)
  have l: "liability (wb_request_unref r s) = filter (\<lambda>x. x \<in># H - {#r#}) (liability s)"
    "wip (wb_request_unref r s) = filter (\<lambda>x. x \<in># H - {#r#}) (wip s)"
    "wb_all (wb_request_unref r s) = filter (\<lambda>x. x \<in># H - {#r#}) (wb_all s)"
    using a rc flt [of "liability s"] flt [of "wip s"] flt [of "wb_all s"]
    by (auto simp: wb_acct_def wb_request_unref_def wb_request_free_def Let_def reqs_upd_rq)
  then show "liability (wb_request_unref r s) = filter (\<lambda>x. x \<in># H - {#r#}) (liability s)"
    "wip (wb_request_unref r s) = filter (\<lambda>x. x \<in># H - {#r#}) (wip s)"
    "wb_all (wb_request_unref r s) = filter (\<lambda>x. x \<in># H - {#r#}) (wb_all s)" by simp_all
  have o: "only_lists s (wb_request_unref r s)"
  proof (cases "count H r = 1")
    case True
    then have "r \<notin> set (todo s)" "r \<notin> set (temptation s)" using t in_H by auto
    then show ?thesis
      by (auto simp: only_lists_def wb_request_unref_def wb_request_free_def Let_def remove1_idem)
  next
    case False
    then show ?thesis using rc by (auto simp: only_lists_def wb_request_unref_def Let_def reqs_upd_rq)
  qed
  have "wb_acct (H - {#r#}) (wb_request_unref r s)"
    using a rc o l unfolding wb_acct_def only_lists_def
    by (auto simp: unref_reqs in_H dest: in_diffD)
  then show "wb_acct (H - {#r#}) (wb_request_unref r s) \<and> only_lists s (wb_request_unref r s)"
    using o by simp
qed


section \<open>The shape of a configuration\<close>

definition head_group :: "wb_state \<Rightarrow> addr option \<Rightarrow> addr list" where
  "head_group s G = (case G of None \<Rightarrow> [] | Some h \<Rightarrow> h # winds (wb_reqs s h))"

definition flight :: "wb_state \<Rightarrow> addr list" where
  "flight s = concat (map (\<lambda>h. h # winds (wb_reqs s h)) (fulfill_frames s))"

text \<open>The holders of a reference for sending, for answering, and of the local of a frame.\<close>

fun wind_refs :: "wb_cfg \<Rightarrow> addr list" where
  "wind_refs (s, T, L, B, G, D) = todo s @ T @ B @ head_group s G @ flight s @ D"

fun unwind_refs :: "wb_cfg \<Rightarrow> addr list" where
  "unwind_refs (s, T, L, B, G, D) = temptation s @ L"

fun local_refs :: "wb_cfg \<Rightarrow> addr list" where
  "local_refs (s, T, L, B, G, D) = writev_frames s @ filter (is_write s) T"

definition cfg_refs :: "wb_cfg \<Rightarrow> addr multiset" where
  "cfg_refs c = mset (wind_refs c) + mset (unwind_refs c) + mset (local_refs c)"

fun wb_shape :: "wb_cfg \<Rightarrow> bool" where
  "wb_shape (s, T, L, B, G, D) \<longleftrightarrow>
     distinct (temptation s @ L) \<and> distinct (writev_frames s) \<and>
     (\<forall>r \<in> set (todo s @ T @ B). winds (wb_reqs s r) = []) \<and>
     set (wip s) \<inter> set (todo s) = {} \<and>
     set (filter (is_write s) T @ B @ head_group s G @ flight s @ writev_frames s) \<subseteq> set (wip s) \<and>
     set (liability s) \<inter> set (temptation s) = {} \<and> (wb_present s \<or> wb_all s = [])"

fun wb_kinds :: "wb_cfg \<Rightarrow> bool" where
  "wb_kinds (s, T, L, B, G, D) \<longleftrightarrow>
     (\<forall>r \<in> set (T @ writev_frames s). \<not> tempted (wb_reqs s r)) \<and>
     (\<forall>r \<in> set (temptation s @ L @ B @ head_group s G @ flight s @ D @ liability s). tempted (wb_reqs s r)) \<and>
     (\<forall>r \<in> set (wb_all s). tempted (wb_reqs s r) \<longrightarrow> is_write s r) \<and>
     (\<forall>r \<in> set (writev_frames s @ wip s). is_write s r)"

fun wb_settled :: "wb_cfg \<Rightarrow> bool" where
  "wb_settled (s, T, L, B, G, D) \<longleftrightarrow>
     (\<forall>r \<in> set (wb_all s). tempted (wb_reqs s r) \<longrightarrow>
        (fulfilled (wb_reqs s r) \<longleftrightarrow> r \<notin> set (wind_refs (s, T, L, B, G, D))))"

definition wb_inv :: "wb_cfg \<Rightarrow> bool" where
  "wb_inv c \<longleftrightarrow> wb_acct (cfg_refs c) (fst c) \<and> distinct (wind_refs c) \<and>
     set (writev_frames (fst c)) \<inter> set (wind_refs c) = {} \<and> wb_shape c \<and> wb_kinds c \<and> wb_settled c"

text \<open>What the invariant reads of a state.\<close>

definition same_shape :: "wb_state \<Rightarrow> wb_state \<Rightarrow> bool" where
  "same_shape s s' \<longleftrightarrow> only_lists s s' \<and> liability s' = liability s \<and> wip s' = wip s \<and> wb_all s' = wb_all s \<and>
     (\<forall>r. rq_refcount (wb_reqs s' r) = rq_refcount (wb_reqs s r) \<and> winds (wb_reqs s' r) = winds (wb_reqs s r) \<and>
        tempted (wb_reqs s' r) = tempted (wb_reqs s r) \<and> fulfilled (wb_reqs s' r) = fulfilled (wb_reqs s r) \<and>
        st_fop (rq_stub (wb_reqs s' r)) = st_fop (rq_stub (wb_reqs s r)))"

lemma same_shape_lists:
  assumes "\<forall>r. winds (wb_reqs s' r) = winds (wb_reqs s r)" "fulfill_frames s' = fulfill_frames s"
  shows "head_group s' G = head_group s G" "flight s' = flight s"
  using assms by (auto simp: head_group_def flight_def split: option.splits)

lemma wb_inv_cong:
  assumes "same_shape s s'"
  shows "wb_inv (s', T, L, B, G, D) = wb_inv (s, T, L, B, G, D)"
proof -
  have g: "head_group s' G = head_group s G" "flight s' = flight s"
    using same_shape_lists assms by (simp_all add: same_shape_def only_lists_def)
  have "wind_refs (s', T, L, B, G, D) = wind_refs (s, T, L, B, G, D)"
    "cfg_refs (s', T, L, B, G, D) = cfg_refs (s, T, L, B, G, D)"
    using assms g by (simp_all add: same_shape_def only_lists_def cfg_refs_def)
  then show ?thesis using assms g
    by (simp add: wb_inv_def wb_acct_def same_shape_def only_lists_def)
qed

lemma inv_go: "wb_inv (s, T, L, B, G, D) \<Longrightarrow> wb_inv (set_go r s, T, L, B, G, D)"
  by (subst wb_inv_cong [of s]) (auto simp: same_shape_def only_lists_def set_go_def reqs_upd_rq)

text \<open>Moving a request from one list to another.\<close>

lemma wb_inv_move:
  assumes i: "wb_inv (s, T, L, B, G, D)"
    and w: "mset (wind_refs (s', T', L', B', G', D')) = mset (wind_refs (s, T, L, B, G, D))"
    and a: "wb_acct (cfg_refs (s', T', L', B', G', D')) s'"
    and e: "wb_all s' = wb_all s" "writev_frames s' = writev_frames s"
      "\<forall>r. tempted (wb_reqs s' r) = tempted (wb_reqs s r) \<and> fulfilled (wb_reqs s' r) = fulfilled (wb_reqs s r)"
    and k: "wb_shape (s', T', L', B', G', D')" "wb_kinds (s', T', L', B', G', D')"
  shows "wb_inv (s', T', L', B', G', D')"
proof -
  have "set (wind_refs (s', T', L', B', G', D')) = set (wind_refs (s, T, L, B, G, D))"
    "distinct (wind_refs (s', T', L', B', G', D')) = distinct (wind_refs (s, T, L, B, G, D))"
    using w mset_eq_setD mset_eq_imp_distinct_iff by blast+
  then show ?thesis using i a e k unfolding wb_inv_def wb_settled.simps by simp
qed

lemma group_flight_upd:
  assumes "\<And>q. winds (f q) = winds q"
  shows "head_group (upd_rq r f s) G = head_group s G" "flight (upd_rq r f s) = flight s"
  using same_shape_lists [of "upd_rq r f s" s] assms by (simp_all add: reqs_upd_rq)

lemma wb_invD:
  assumes "wb_inv (s, T, L, B, G, D)"
  shows "wb_acct (cfg_refs (s, T, L, B, G, D)) s" "distinct (wind_refs (s, T, L, B, G, D))"
    "set (writev_frames s) \<inter> set (wind_refs (s, T, L, B, G, D)) = {}" "wb_shape (s, T, L, B, G, D)"
    "wb_kinds (s, T, L, B, G, D)" "wb_settled (s, T, L, B, G, D)"
  using assms unfolding wb_inv_def fst_conv by blast+

lemma inv_collapse:
  assumes i: "wb_inv (s, T, L, B, G, D)" and t: "todo s = xs @ h # ys @ r # zs" and r: "tempted (wb_reqs s r)"
  shows "wb_inv ((wb_collapse_small_writes h r s)\<lparr>todo := xs @ h # ys @ zs\<rparr>, T, L, B, G, r # D)"
proof -
  let ?a = "wb_collapse_small_writes h r s"
  have ss: "same_shape s ?a"
    by (auto simp: same_shape_def only_lists_def wb_collapse_small_writes_def Let_def reqs_upd_rq)
  have i': "wb_inv (?a, T, L, B, G, D)" using wb_inv_cong [OF ss] i by simp
  have ta: "todo ?a = xs @ h # ys @ r # zs" "tempted (wb_reqs ?a r)"
    using ss t r by (simp_all add: same_shape_def only_lists_def)
  let ?b = "?a\<lparr>todo := xs @ h # ys @ zs\<rparr>"
  have g: "head_group ?b G = head_group ?a G" "flight ?b = flight ?a" using same_shape_lists [of ?b ?a] by simp_all
  have w: "mset (wind_refs (?b, T, L, B, G, r # D)) = mset (wind_refs (?a, T, L, B, G, D))"
    using ta g by simp
  have h: "cfg_refs (?b, T, L, B, G, r # D) = cfg_refs (?a, T, L, B, G, D)"
    unfolding cfg_refs_def w by simp
  show ?thesis
  proof (rule wb_inv_move [OF i' w])
    show "wb_acct (cfg_refs (?b, T, L, B, G, r # D)) ?b"
      using wb_invD(1) [OF i'] unfolding h by (simp add: wb_acct_def)
    show "wb_shape (?b, T, L, B, G, r # D)" using wb_invD(4) [OF i'] g ta by auto
    show "wb_kinds (?b, T, L, B, G, r # D)" using wb_invD(5) [OF i'] g ta by auto
  qed simp_all
qed

lemma inv_task:
  assumes i: "wb_inv (s, T, L, B, G, D)" and t: "r \<in> set (todo s)" and r: "\<not> tempted (wb_reqs s r)"
  shows "wb_inv (picked r s, T @ [r], L, B, G, D)"
proof -
  let ?b = "picked r s"
  have ra: "r \<in># cfg_refs (s, T, L, B, G, D)" using t by (simp add: cfg_refs_def)
  then have rc: "rq_refcount (wb_reqs s r) = int (count (cfg_refs (s, T, L, B, G, D)) r)" "rq_refcount (wb_reqs s r) > 0"
    using wb_invD(1) [OF i] by (auto simp: wb_acct_def)
  have q: "wb_reqs ?b x = (if x = r \<and> is_write s r then (wb_reqs s r)\<lparr>rq_refcount := rq_refcount (wb_reqs s r) + 1\<rparr> else wb_reqs s x)" for x
    using r rc(2) by (auto simp: picked_def Let_def wb_request_ref_def reqs_upd_rq)
  have f: "todo ?b = remove1 r (todo s)" "temptation ?b = temptation s" "liability ?b = liability s"
    "wip ?b = (if is_write s r then wip s @ [r] else wip s)" "wb_all ?b = wb_all s" "writev_frames ?b = writev_frames s"
    "fulfill_frames ?b = fulfill_frames s" "wb_next ?b = wb_next s" "wb_present ?b = wb_present s"
    by (auto simp: picked_def Let_def wb_request_ref_def list_add_tail_def)
  have g: "head_group ?b G = head_group s G" "flight ?b = flight s" using same_shape_lists [of ?b s] q f by simp_all
  have w: "mset (wind_refs (?b, T @ [r], L, B, G, D)) = mset (wind_refs (s, T, L, B, G, D))"
    using t g f by simp
  have lw: "is_write ?b = is_write s" by (simp add: q fun_eq_iff)
  have h: "cfg_refs (?b, T @ [r], L, B, G, D) = cfg_refs (s, T, L, B, G, D) + (if is_write s r then {#r#} else {#})"
    unfolding cfg_refs_def w using lw by (simp add: f)
  have sr: "set (remove1 r (todo s)) = set (todo s) - {r}" using wb_invD(2) [OF i] by simp
  have rw: "r \<notin> set (wip s)" using wb_invD(4) [OF i] t by auto
  show ?thesis
  proof (rule wb_inv_move [OF i w])
    show "wb_acct (cfg_refs (?b, T @ [r], L, B, G, D)) ?b"
      using wb_invD(1) [OF i] ra rc rw unfolding h by (auto simp: wb_acct_def f q)
    show "wb_shape (?b, T @ [r], L, B, G, D)"
      using wb_invD(4) [OF i] t g by (auto simp: f q sr)
    show "wb_kinds (?b, T @ [r], L, B, G, D)" using wb_invD(5) [OF i] r g by (auto simp: f q)
  qed (simp_all add: f q)
qed


lemma inv_liab:
  assumes i: "wb_inv (s, T, L, B, G, D)" and t: "r \<in> set (todo s)" and r: "tempted (wb_reqs s r)"
  shows "wb_inv (picked r s, T, L, B @ [r], G, D)"
proof -
  let ?b = "picked r s"
  have "r \<in> set (wb_all s)" using wb_invD(1) [OF i] t by (auto simp: wb_acct_def cfg_refs_def)
  then have wr: "is_write s r" using wb_invD(5) [OF i] r by simp
  have q: "wb_reqs ?b = wb_reqs s" using r by (auto simp: picked_def Let_def)
  have f: "todo ?b = remove1 r (todo s)" "temptation ?b = temptation s" "liability ?b = liability s"
    "wip ?b = wip s @ [r]" "wb_all ?b = wb_all s" "writev_frames ?b = writev_frames s"
    "fulfill_frames ?b = fulfill_frames s" "wb_next ?b = wb_next s" "wb_present ?b = wb_present s"
    using wr r by (auto simp: picked_def Let_def list_add_tail_def)
  have g: "head_group ?b G = head_group s G" "flight ?b = flight s" using same_shape_lists [of ?b s] q f by simp_all
  have w: "mset (wind_refs (?b, T, L, B @ [r], G, D)) = mset (wind_refs (s, T, L, B, G, D))"
    using t g f by simp
  have h: "cfg_refs (?b, T, L, B @ [r], G, D) = cfg_refs (s, T, L, B, G, D)"
    unfolding cfg_refs_def w by (simp add: f q)
  have sr: "set (remove1 r (todo s)) = set (todo s) - {r}" using wb_invD(2) [OF i] by simp
  have rw: "r \<notin> set (wip s)" using wb_invD(4) [OF i] t by auto
  have ra: "r \<in># cfg_refs (s, T, L, B, G, D)" using t by (simp add: cfg_refs_def)
  show ?thesis
  proof (rule wb_inv_move [OF i w])
    show "wb_acct (cfg_refs (?b, T, L, B @ [r], G, D)) ?b"
      using wb_invD(1) [OF i] rw ra unfolding h by (auto simp: wb_acct_def f q)
    show "wb_shape (?b, T, L, B @ [r], G, D)" using wb_invD(4) [OF i] t g by (auto simp: f q sr)
    show "wb_kinds (?b, T, L, B @ [r], G, D)" using wb_invD(5) [OF i] r g wr by (auto simp: f q)
  qed (simp_all add: f q)
qed

lemma inv_lie:
  assumes i: "wb_inv (s, T, L, B, G, D)" and t: "r \<in> set (temptation s)"
  shows "wb_inv (lie_to r s, T, L @ [r], B, G, D)"
proof -
  let ?b = "lie_to r s"
  have q: "wb_reqs ?b x = (if x = r \<and> \<not> fulfilled (wb_reqs s r) then (wb_reqs s r)\<lparr>lied := True\<rparr> else wb_reqs s x)" for x
    by (simp add: lie_to_def Let_def reqs_upd_rq)
  have f: "todo ?b = todo s" "temptation ?b = remove1 r (temptation s)"
    "liability ?b = (if fulfilled (wb_reqs s r) then liability s else liability s @ [r])"
    "wip ?b = wip s" "wb_all ?b = wb_all s" "writev_frames ?b = writev_frames s"
    "fulfill_frames ?b = fulfill_frames s" "wb_next ?b = wb_next s" "wb_present ?b = wb_present s"
    by (auto simp: lie_to_def Let_def list_add_tail_def)
  have g: "head_group ?b G = head_group s G" "flight ?b = flight s" using same_shape_lists [of ?b s] q f by simp_all
  have w: "mset (wind_refs (?b, T, L @ [r], B, G, D)) = mset (wind_refs (s, T, L, B, G, D))"
    using g f by simp
  have lw: "is_write ?b = is_write s" by (simp add: q fun_eq_iff)
  have h: "cfg_refs (?b, T, L @ [r], B, G, D) = cfg_refs (s, T, L, B, G, D)"
    unfolding cfg_refs_def w using lw t by (simp add: f)
  have sr: "set (remove1 r (temptation s)) = set (temptation s) - {r}" using wb_invD(4) [OF i] by simp
  have rl: "r \<notin> set (liability s)" using wb_invD(4) [OF i] t by auto
  have ra: "r \<in># cfg_refs (s, T, L, B, G, D)" using t by (simp add: cfg_refs_def)
  show ?thesis
  proof (rule wb_inv_move [OF i w])
    show "wb_acct (cfg_refs (?b, T, L @ [r], B, G, D)) ?b"
      using wb_invD(1) [OF i] rl ra unfolding h by (auto simp: wb_acct_def f q)
    show "wb_shape (?b, T, L @ [r], B, G, D)" using wb_invD(4) [OF i] t g by (auto simp: f q sr)
    show "wb_kinds (?b, T, L @ [r], B, G, D)" using wb_invD(5) [OF i] t g by (auto simp: f q sr)
  qed (simp_all add: f q)
qed

lemma inv_head:
  assumes i: "wb_inv (s, T, L, r # B, None, D)"
  shows "wb_inv (s, T, L, B, Some r, D)"
proof -
  have g: "head_group s (Some r) = [r]" "head_group s None = []" using wb_invD(4) [OF i] by (auto simp: head_group_def)
  have w: "mset (wind_refs (s, T, L, B, Some r, D)) = mset (wind_refs (s, T, L, r # B, None, D))"
    using g by simp
  have h: "cfg_refs (s, T, L, B, Some r, D) = cfg_refs (s, T, L, r # B, None, D)" unfolding cfg_refs_def w by simp
  show ?thesis
    using wb_invD [OF i] g unfolding h by (intro wb_inv_move [OF i w]) (auto simp: h)
qed

lemma inv_join:
  assumes i: "wb_inv (s, T, L, r # B, Some h, D)"
  shows "wb_inv (upd_rq h (\<lambda>q. q\<lparr>winds := list_add_tail r (winds q)\<rparr>) s, T, L, B, Some h, D)"
proof -
  let ?b = "upd_rq h (\<lambda>q. q\<lparr>winds := list_add_tail r (winds q)\<rparr>) s"
  have d: "h \<notin> set (todo s @ T @ B)" "h \<notin> set (flight s)" using wb_invD(2) [OF i] by (auto simp: head_group_def)
  have fl: "flight ?b = flight s"
    using d(2) by (auto simp: flight_def reqs_upd_rq intro!: arg_cong [where f = concat])
  have g: "head_group ?b (Some h) = head_group s (Some h) @ [r]"
    by (simp add: head_group_def reqs_upd_rq list_add_tail_def)
  have w: "mset (wind_refs (?b, T, L, B, Some h, D)) = mset (wind_refs (s, T, L, r # B, Some h, D))"
    using g fl by simp
  have lw: "is_write ?b = is_write s" by (simp add: reqs_upd_rq fun_eq_iff)
  have h: "cfg_refs (?b, T, L, B, Some h, D) = cfg_refs (s, T, L, r # B, Some h, D)"
    unfolding cfg_refs_def w using lw by simp
  show ?thesis
  proof (rule wb_inv_move [OF i w])
    show "wb_acct (cfg_refs (?b, T, L, B, Some h, D)) ?b"
      using wb_invD(1) [OF i] unfolding h by (auto simp: wb_acct_def reqs_upd_rq)
    show "wb_shape (?b, T, L, B, Some h, D)" using wb_invD(4) [OF i] d g fl by (auto simp: reqs_upd_rq)
    show "wb_kinds (?b, T, L, B, Some h, D)" using wb_invD(5) [OF i] g fl by (auto simp: reqs_upd_rq)
  qed (simp_all add: reqs_upd_rq)
qed

lemma inv_loaded: "wb_inv (head_loaded h s, T, L, B, G, D) = wb_inv (s, T, L, B, G, D)"
  by (rule wb_inv_cong) (auto simp: same_shape_def only_lists_def head_loaded_def Let_def reqs_upd_rq)

lemma inv_send:
  assumes i: "wb_inv (s, T, L, B, Some h, D)"
  shows "wb_inv (head_sent h s, T, L, B, None, D)"
proof -
  let ?b = "head_sent h s"
  have f: "flight ?b = flight s @ head_group s (Some h)" "head_group ?b None = []"
    by (simp_all add: head_sent_def flight_def head_group_def list_add_tail_def)
  have q: "wb_reqs ?b = wb_reqs s" by (simp add: head_sent_def)
  have e: "todo ?b = todo s" "temptation ?b = temptation s" "liability ?b = liability s"
    "wip ?b = wip s" "wb_all ?b = wb_all s" "writev_frames ?b = writev_frames s"
    "wb_next ?b = wb_next s" "wb_present ?b = wb_present s" by (simp_all add: head_sent_def)
  have w: "mset (wind_refs (?b, T, L, B, None, D)) = mset (wind_refs (s, T, L, B, Some h, D))"
    using f e by simp
  have h: "cfg_refs (?b, T, L, B, None, D) = cfg_refs (s, T, L, B, Some h, D)"
    unfolding cfg_refs_def w by (simp add: e q)
  show ?thesis
  proof (rule wb_inv_move [OF i w])
    show "wb_acct (cfg_refs (?b, T, L, B, None, D)) ?b"
      using wb_invD(1) [OF i] unfolding h by (auto simp: wb_acct_def e q)
    show "wb_shape (?b, T, L, B, None, D)" using wb_invD(4) [OF i] by (auto simp: e q f)
    show "wb_kinds (?b, T, L, B, None, D)" using wb_invD(5) [OF i] by (auto simp: e q f)
  qed (simp_all add: e q)
qed

lemma inv_drop:
  assumes i: "wb_inv (s, T, L, B, Some h, D)"
  shows "wb_inv (s, T, L, B, None, winds (wb_reqs s h) @ h # D)"
proof -
  let ?D = "winds (wb_reqs s h) @ h # D"
  have w: "mset (wind_refs (s, T, L, B, None, ?D)) = mset (wind_refs (s, T, L, B, Some h, D))"
    by (simp add: head_group_def)
  have h: "cfg_refs (s, T, L, B, None, ?D) = cfg_refs (s, T, L, B, Some h, D)" unfolding cfg_refs_def w by simp
  show ?thesis
  proof (rule wb_inv_move [OF i w])
    show "wb_acct (cfg_refs (s, T, L, B, None, ?D)) s" using wb_invD(1) [OF i] unfolding h .
    show "wb_shape (s, T, L, B, None, ?D)" using wb_invD(4) [OF i] by (auto simp: head_group_def)
    show "wb_kinds (s, T, L, B, None, ?D)" using wb_invD(5) [OF i] by (auto simp: head_group_def)
  qed simp_all
qed


text \<open>A configuration in which \<open>r\<close> is held once more than its lists say, about to be dropped.\<close>

definition wb_extra :: "addr \<Rightarrow> wb_cfg \<Rightarrow> bool" where
  "wb_extra r c \<longleftrightarrow> wb_acct (add_mset r (cfg_refs c)) (fst c) \<and> distinct (wind_refs c) \<and>
     set (writev_frames (fst c)) \<inter> set (wind_refs c) = {} \<and> wb_shape c \<and> wb_kinds c \<and> wb_settled c"

lemma extra_lists:
  assumes "wb_extra r (s, T, L, B, G, D)"
  shows "only_lists s (wb_request_unref r s)"
    "liability (wb_request_unref r s) = filter (\<lambda>x. x \<in># cfg_refs (s, T, L, B, G, D)) (liability s)"
    "wip (wb_request_unref r s) = filter (\<lambda>x. x \<in># cfg_refs (s, T, L, B, G, D)) (wip s)"
    "wb_all (wb_request_unref r s) = filter (\<lambda>x. x \<in># cfg_refs (s, T, L, B, G, D)) (wb_all s)"
    "wb_acct (cfg_refs (s, T, L, B, G, D)) (wb_request_unref r s)"
proof -
  let ?H = "cfg_refs (s, T, L, B, G, D)"
  have t: "set (todo s) \<union> set (temptation s) \<subseteq> set_mset ?H" by (auto simp: cfg_refs_def)
  have a: "wb_acct (add_mset r ?H) s" using assms by (simp add: wb_extra_def)
  note u = acct_unref [OF a, of r, simplified, OF t [simplified]]
  show "only_lists s (wb_request_unref r s)" "wb_acct ?H (wb_request_unref r s)" using u(1) by simp_all
  show "liability (wb_request_unref r s) = filter (\<lambda>x. x \<in># ?H) (liability s)"
    "wip (wb_request_unref r s) = filter (\<lambda>x. x \<in># ?H) (wip s)"
    "wb_all (wb_request_unref r s) = filter (\<lambda>x. x \<in># ?H) (wb_all s)" by (fact u)+
qed

lemma inv_unref:
  assumes x: "wb_extra r (s, T, L, B, G, D)"
  shows "wb_inv (wb_request_unref r s, T, L, B, G, D)"
proof -
  let ?H = "cfg_refs (s, T, L, B, G, D)" and ?b = "wb_request_unref r s"
  note u = extra_lists [OF x]
  have w: "distinct (wind_refs (s, T, L, B, G, D))" "set (writev_frames s) \<inter> set (wind_refs (s, T, L, B, G, D)) = {}"
    and k: "wb_shape (s, T, L, B, G, D)" "wb_kinds (s, T, L, B, G, D)" "wb_settled (s, T, L, B, G, D)"
    using x unfolding wb_extra_def fst_conv by blast+
  have f: "todo ?b = todo s" "temptation ?b = temptation s" using u(1) by (auto simp: only_lists_def)
  have q: "winds (wb_reqs ?b x) = winds (wb_reqs s x)" "tempted (wb_reqs ?b x) = tempted (wb_reqs s x)"
    "fulfilled (wb_reqs ?b x) = fulfilled (wb_reqs s x)" "rq_stub (wb_reqs ?b x) = rq_stub (wb_reqs s x)" for x
    by (simp_all add: unref_reqs)
  have g: "head_group ?b G = head_group s G" "flight ?b = flight s" using same_shape_lists [of ?b s] q by simp_all
  have wr: "wind_refs (?b, T, L, B, G, D) = wind_refs (s, T, L, B, G, D)" using f g by simp
  have h: "cfg_refs (?b, T, L, B, G, D) = ?H" unfolding cfg_refs_def wr using f q by simp
  have H: "set T \<union> set B \<union> set (head_group s G) \<union> set (flight s) \<union> set (writev_frames s) \<subseteq> set_mset ?H"
    by (auto simp: cfg_refs_def)
  show ?thesis unfolding wb_inv_def fst_conv
  proof (intro conjI)
    show "distinct (wind_refs (?b, T, L, B, G, D))" "set (writev_frames ?b) \<inter> set (wind_refs (?b, T, L, B, G, D)) = {}"
      unfolding wr unref_fields by (fact w)+
    show "wb_acct (cfg_refs (?b, T, L, B, G, D)) ?b" using u(5) h by simp
    show "wb_shape (?b, T, L, B, G, D)" using k(1) u H f g by (auto simp: q)
    show "wb_kinds (?b, T, L, B, G, D)" using k(2) u f g by (auto simp: q)
    show "wb_settled (?b, T, L, B, G, D)" using k(3) u(4) unfolding wb_settled.simps wr by (auto simp: q simp del: wind_refs.simps)
  qed
qed

definition fulfil_mark :: "addr \<Rightarrow> wb_state \<Rightarrow> wb_state" where
  "fulfil_mark r s = (upd_rq r (\<lambda>q. q\<lparr>fulfilled := True\<rparr>) s)\<lparr>window_current := window_current s -
    int (total_size (wb_reqs s r)), transit := transit s - int (total_size (wb_reqs s r))\<rparr>"

lemma fulfill_request_eq: "wb_fulfill_request r s = wb_request_unref r (fulfil_mark r s)"
  by (simp add: wb_fulfill_request_def fulfil_mark_def Let_def)

lemma settle_extra:
  assumes i: "wb_inv (s, T, L, B, G, r # D)"
  shows "wb_extra r (fulfil_mark r s, T, L, B, G, D)"
proof -
  define a where "a = fulfil_mark r s"
  have q: "winds (wb_reqs a x) = winds (wb_reqs s x)" "tempted (wb_reqs a x) = tempted (wb_reqs s x)"
    "fulfilled (wb_reqs a x) = (x = r \<or> fulfilled (wb_reqs s x))" "rq_stub (wb_reqs a x) = rq_stub (wb_reqs s x)"
    "rq_refcount (wb_reqs a x) = rq_refcount (wb_reqs s x)" for x
    by (auto simp: a_def fulfil_mark_def reqs_upd_rq)
  have f: "todo a = todo s" "temptation a = temptation s" "liability a = liability s" "wip a = wip s"
    "wb_all a = wb_all s" "writev_frames a = writev_frames s" "fulfill_frames a = fulfill_frames s"
    "wb_next a = wb_next s" "wb_present a = wb_present s" by (simp_all add: a_def fulfil_mark_def)
  have g: "head_group a G = head_group s G" "flight a = flight s" using same_shape_lists [of a s] q f by simp_all
  have w: "wind_refs (a, T, L, B, G, r # D) = wind_refs (s, T, L, B, G, r # D)"
    "mset (wind_refs (a, T, L, B, G, r # D)) = add_mset r (mset (wind_refs (a, T, L, B, G, D)))"
    using f g by simp_all
  have "cfg_refs (s, T, L, B, G, r # D) = cfg_refs (a, T, L, B, G, r # D)" unfolding cfg_refs_def w(1) using f q by simp
  also have "\<dots> = add_mset r (cfg_refs (a, T, L, B, G, D))" unfolding cfg_refs_def w(2) by simp
  finally have h: "cfg_refs (s, T, L, B, G, r # D) = add_mset r (cfg_refs (a, T, L, B, G, D))" .
  have sw: "set (wind_refs (a, T, L, B, G, D)) = set (wind_refs (s, T, L, B, G, r # D)) - {r}"
    "distinct (wind_refs (a, T, L, B, G, D))" using wb_invD(2) [OF i] f g by auto
  show ?thesis unfolding a_def [symmetric] wb_extra_def fst_conv
  proof (intro conjI)
    show "wb_acct (add_mset r (cfg_refs (a, T, L, B, G, D))) a"
      using wb_invD(1) [OF i] unfolding h by (simp add: wb_acct_def f q)
    show "set (writev_frames a) \<inter> set (wind_refs (a, T, L, B, G, D)) = {}"
      using wb_invD(3) [OF i] unfolding sw f by blast
    show "wb_shape (a, T, L, B, G, D)" using wb_invD(4) [OF i] by (simp add: f g q)
    show "wb_kinds (a, T, L, B, G, D)" using wb_invD(5) [OF i] by (simp add: f g q)
    show "wb_settled (a, T, L, B, G, D)" using wb_invD(6) [OF i] unfolding wb_settled.simps sw by (auto simp: f q simp del: wind_refs.simps)
  qed (use sw in simp)
qed

lemma unwind_extra:
  assumes i: "wb_inv (s, T, r # L, B, G, D)"
  shows "wb_extra r (s, T, L, B, G, D)"
  unfolding wb_extra_def fst_conv
proof (intro conjI)
  have w: "wind_refs (s, T, L, B, G, D) = wind_refs (s, T, r # L, B, G, D)" by simp
  have "cfg_refs (s, T, r # L, B, G, D) = add_mset r (cfg_refs (s, T, L, B, G, D))"
    unfolding cfg_refs_def w by simp
  then show "wb_acct (add_mset r (cfg_refs (s, T, L, B, G, D))) s" using wb_invD(1) [OF i] by simp
  show "distinct (wind_refs (s, T, L, B, G, D))" "set (writev_frames s) \<inter> set (wind_refs (s, T, L, B, G, D)) = {}"
    "wb_settled (s, T, L, B, G, D)"
    using wb_invD(2,3,6) [OF i] unfolding w wb_settled.simps .
  show "wb_shape (s, T, L, B, G, D)" using wb_invD(4) [OF i] by simp
  show "wb_kinds (s, T, L, B, G, D)" using wb_invD(5) [OF i] by simp
qed

lemma wind_extra:
  assumes i: "wb_inv (s, r # T, L, B, G, D)" and c: "call_resume conf r s = (a, ev)"
  shows "wb_extra r (a, T, L, B, G, D)"
proof -
  have q: "wb_reqs a = wb_reqs s" and f: "todo a = todo s" "temptation a = temptation s" "liability a = liability s"
    "wip a = wip s" "wb_all a = wb_all s" "fulfill_frames a = fulfill_frames s" "wb_next a = wb_next s"
    "wb_present a = wb_present s" "writev_frames a = (if is_write s r then writev_frames s @ [r] else writev_frames s)"
    using c by (auto simp: call_resume_def Let_def list_add_tail_def split: wb_fop.splits)
  have g: "head_group a G = head_group s G" "flight a = flight s" using same_shape_lists [of a s] q f by simp_all
  have w: "mset (wind_refs (s, r # T, L, B, G, D)) = add_mset r (mset (wind_refs (a, T, L, B, G, D)))"
    using f g by simp
  have h: "cfg_refs (s, r # T, L, B, G, D) = add_mset r (cfg_refs (a, T, L, B, G, D))"
    unfolding cfg_refs_def w using f q by simp
  have sw: "set (wind_refs (a, T, L, B, G, D)) = set (wind_refs (s, r # T, L, B, G, D)) - {r}"
    "distinct (wind_refs (a, T, L, B, G, D))" "r \<notin> set (wind_refs (a, T, L, B, G, D))"
    using wb_invD(2) [OF i] f g by auto
  have rt: "\<not> tempted (wb_reqs s r)" using wb_invD(5) [OF i] by simp
  show ?thesis unfolding wb_extra_def fst_conv
  proof (intro conjI)
    show "wb_acct (add_mset r (cfg_refs (a, T, L, B, G, D))) a"
      using wb_invD(1) [OF i] unfolding h by (simp add: wb_acct_def f q)
    show "set (writev_frames a) \<inter> set (wind_refs (a, T, L, B, G, D)) = {}"
      using wb_invD(3) [OF i] unfolding sw f by auto
    have "r \<notin> set (writev_frames s)" using wb_invD(3) [OF i] by auto
    then show "wb_shape (a, T, L, B, G, D)" using wb_invD(4) [OF i] by (auto simp: f g q)
    show "wb_kinds (a, T, L, B, G, D)" using wb_invD(5) [OF i] rt by (auto simp: f g q)
    show "wb_settled (a, T, L, B, G, D)" using wb_invD(6) [OF i] rt unfolding wb_settled.simps sw by (auto simp: f q simp del: wind_refs.simps)
  qed (use sw in simp)
qed

lemma wb_inv_mstep: "wb_mstep conf c ev c' \<Longrightarrow> wb_inv c \<Longrightarrow> wb_inv c'"
  by (induction rule: wb_mstep.induct)
    (auto simp: fulfill_request_eq intro: inv_go inv_collapse inv_task inv_liab inv_lie inv_head inv_join
      inv_send inv_drop inv_loaded [THEN iffD2] inv_unref [OF settle_extra] inv_unref [OF unwind_extra]
      inv_unref [OF wind_extra])


end
