(* ===== verification/Write_Behind_Calls.thy ===== *)
theory Write_Behind_Calls
  imports Write_Behind_Refs
begin

text \<open>
  Calls and callbacks of write-behind as what they do before the queue is processed followed by
  small steps. The invariant of references holds between calls in every run.
\<close>

section \<open>Between calls\<close>

abbreviation wb_idle :: "wb_state \<Rightarrow> bool" where "wb_idle s \<equiv> wb_inv (s, [], [], [], None, [])"

lemma wb_idle_lists: "wb_idle s \<Longrightarrow> wb_lists s"
  using wb_invD(2,4) [of s] by (auto simp: wb_lists_def)

lemma wb_idle_queue:
  assumes "wb_inv (s, [], [], [], None, D)" "wb_process_queue conf (fold wb_fulfill_request D s) = (s', ev)"
  shows "wb_idle s'"
proof -
  have "wb_idle (fold wb_fulfill_request D s)"
    using ms_invariant [OF settle_steps, of wb_inv s "[]" "[]" "[]" None D "[]"] assms(1) wb_inv_mstep by fastforce
  then show ?thesis
    using ms_invariant [OF process_queue_steps [OF assms(2)], of wb_inv] wb_inv_mstep wb_idle_lists by blast
qed

lemma wb_idle_process: "wb_idle s \<Longrightarrow> wb_process_queue conf s = (s', ev) \<Longrightarrow> wb_idle s'"
  using wb_idle_queue [of s "[]"] by simp

lemma wb_idle_start: "wb_idle wb_start"
  by (simp add: wb_inv_def wb_start_def wb_acct_def cfg_refs_def head_group_def flight_def)

lemma wb_idle_empty:
  assumes "wb_idle s" "\<not> wb_present s"
  shows "wb_all s = []" "todo s = []" "liability s = []" "temptation s = []" "wip s = []"
    "fulfill_frames s = []" "writev_frames s = []"
proof -
  show a: "wb_all s = []" using wb_invD(4) [OF assms(1)] assms(2) by simp
  have "cfg_refs (s, [], [], [], None, []) = {#}" using wb_invD(1) [OF assms(1)] a
    by (simp add: wb_acct_def) (metis set_mset_eq_empty_iff)
  then show "todo s = []" "temptation s = []" "writev_frames s = []" "fulfill_frames s = []"
    by (auto simp: cfg_refs_def flight_def)
  show "liability s = []" "wip s = []"
    using wb_invD(1) [OF assms(1)] \<open>cfg_refs _ = {#}\<close> by (auto simp: wb_acct_def)
qed

lemma wb_idle_create: "wb_idle s \<Longrightarrow> wb_idle (wb_inode_create conf s)"
proof (cases "wb_present s")
  case False
  assume i: "wb_idle s"
  note e = wb_idle_empty [OF i False]
  have "cfg_refs (wb_inode_create conf s, [], [], [], None, []) = {#}"
    using False e by (simp add: cfg_refs_def wb_inode_create_def head_group_def flight_def)
  then show ?thesis using False e
    by (simp add: wb_inv_def wb_acct_def wb_inode_create_def head_group_def flight_def)
qed (simp add: wb_inode_create_def)

lemma wb_new_request_fields [simp]:
  "rq_refcount (wb_new_request s stub t) = 0" "winds (wb_new_request s stub t) = []"
  "tempted (wb_new_request s stub t) = t" "fulfilled (wb_new_request s stub t) = False"
  "rq_stub (wb_new_request s stub t) = stub" "rq_gen (wb_new_request s stub t) = wb_gen s"
  "rq_fop (wb_new_request s stub t) = st_fop stub" "total_size (wb_new_request s stub t) = 0"
  "go (wb_new_request s stub t) = False" "lied (wb_new_request s stub t) = False"
  by (simp_all add: wb_new_request_def Let_def)

lemma enqueue_fields:
  "wb_reqs (wb_enqueue_common s stub t) x =
     (if x = wb_next s then (wb_new_request s stub t)\<lparr>rq_refcount := (if t then 2 else 1)\<rparr> else wb_reqs s x)"
  "todo (wb_enqueue_common s stub t) = todo s @ [wb_next s]"
  "wb_all (wb_enqueue_common s stub t) = wb_all s @ [wb_next s]"
  "temptation (wb_enqueue_common s stub t) = (if t then temptation s @ [wb_next s] else temptation s)"
  "liability (wb_enqueue_common s stub t) = liability s" "wip (wb_enqueue_common s stub t) = wip s"
  "fulfill_frames (wb_enqueue_common s stub t) = fulfill_frames s"
  "writev_frames (wb_enqueue_common s stub t) = writev_frames s"
  "wb_next (wb_enqueue_common s stub t) = Suc (wb_next s)" "wb_present (wb_enqueue_common s stub t) = wb_present s"
  "wb_gen (wb_enqueue_common s stub t) = wb_gen s" "transit (wb_enqueue_common s stub t) = transit s"
  "window_current (wb_enqueue_common s stub t) = window_current s"
  "window_conf (wb_enqueue_common s stub t) = window_conf s" "fd_err (wb_enqueue_common s stub t) = fd_err s"
  "overrun (wb_enqueue_common s stub t) = overrun s"
  by (auto simp: wb_enqueue_common_def Let_def wb_request_ref_def reqs_upd_rq list_add_tail_def)

lemma wb_idle_enqueue:
  assumes i: "wb_idle s" and p: "wb_present s" and t: "t \<Longrightarrow> st_fop stub = GF_FOP_WRITE"
  shows "wb_idle (wb_enqueue_common s stub t)"
proof -
  let ?a = "wb_enqueue_common s stub t" and ?r = "wb_next s"
  let ?H = "cfg_refs (s, [], [], [], None, [])"
  have lt: "\<forall>x \<in># ?H. x < ?r" using wb_invD(1) [OF i] by (simp add: wb_acct_def)
  then have nr: "?r \<notin># ?H" by blast
  then have nf: "?r \<notin> set (flight s)" "?r \<notin> set (todo s)" "?r \<notin> set (temptation s)" "?r \<notin> set (writev_frames s)"
    "?r \<notin> set (wip s)" "?r \<notin> set (liability s)" "?r \<notin> set (wb_all s)"
    using wb_invD(1) [OF i] by (auto simp: cfg_refs_def wb_acct_def)
  have fl: "flight ?a = flight s"
    using nf(1) by (auto simp: flight_def enqueue_fields intro!: arg_cong [where f = concat])
  have w: "wind_refs (?a, [], [], [], None, []) = todo s @ ?r # flight s" by (simp add: fl enqueue_fields head_group_def)
  have w0: "wind_refs (s, [], [], [], None, []) = todo s @ flight s" by (simp add: head_group_def)
  have h: "cfg_refs (?a, [], [], [], None, []) = ?H + (if t then {#?r, ?r#} else {#?r#})"
    unfolding cfg_refs_def w w0 by (simp add: enqueue_fields)
  have ct: "count ?H ?r = 0" using nr by (simp add: count_eq_zero_iff)
  show ?thesis unfolding wb_inv_def fst_conv
  proof (intro conjI)
    show "wb_acct (cfg_refs (?a, [], [], [], None, [])) ?a"
      using wb_invD(1) [OF i] lt nr ct unfolding h by (auto simp: wb_acct_def enqueue_fields nf less_Suc_eq)
    show "distinct (wind_refs (?a, [], [], [], None, []))"
      unfolding w using wb_invD(2) [OF i] nf unfolding w0 by auto
    show "set (writev_frames ?a) \<inter> set (wind_refs (?a, [], [], [], None, [])) = {}"
      unfolding w using wb_invD(3) [OF i] nf unfolding w0 by (auto simp: enqueue_fields)
    show "wb_shape (?a, [], [], [], None, [])"
      using wb_invD(4) [OF i] nf fl p by (auto simp: enqueue_fields head_group_def)
    show "wb_kinds (?a, [], [], [], None, [])"
      using wb_invD(5) [OF i] nf fl t by (auto simp: enqueue_fields head_group_def)
    show "wb_settled (?a, [], [], [], None, [])"
      using wb_invD(6) [OF i] nf unfolding wb_settled.simps w w0
      by (auto simp: enqueue_fields simp del: wind_refs.simps)
  qed
qed

lemma fulfill_err_eq:
  "wb_fulfill_err h e s = s\<lparr>wb_reqs := (\<lambda>x. if x \<in> set (wb_all s) \<and> rq_fd (wb_reqs s x) = rq_fd (wb_reqs s h)
       then (wb_reqs s x)\<lparr>op_ret := -1, op_errno := e\<rparr> else wb_reqs s x),
     fd_err := (case rq_fd (wb_reqs s h) of None \<Rightarrow> fd_err s | Some d \<Rightarrow> (fd_err s)(d := Some e))\<rparr>"
proof -
  have "fold (\<lambda>r s. if rq_fd (wb_reqs s r) \<noteq> fd then s else upd_rq r (\<lambda>q. q\<lparr>op_ret := -1, op_errno := e\<rparr>) s) rs s =
      s\<lparr>wb_reqs := (\<lambda>x. if x \<in> set rs \<and> rq_fd (wb_reqs s x) = fd
        then (wb_reqs s x)\<lparr>op_ret := -1, op_errno := e\<rparr> else wb_reqs s x)\<rparr>" for fd rs and s :: wb_state
    by (induction rs arbitrary: s) (auto simp: upd_rq_def fun_eq_iff intro!: wb_state.equality)
  then show ?thesis by (auto simp: wb_fulfill_err_def Let_def fun_eq_iff split: option.splits intro!: wb_state.equality)
qed

lemma inv_fulfill_err: "wb_inv (wb_fulfill_err h e s, T, L, B, G, D) = wb_inv (s, T, L, B, G, D)"
  by (rule wb_inv_cong) (auto simp: same_shape_def only_lists_def fulfill_err_eq)

lemma flight_remove:
  "h \<in> set (fulfill_frames s) \<Longrightarrow>
     mset (flight s) = mset (winds (wb_reqs s h) @ [h]) + mset (flight (s\<lparr>fulfill_frames := remove1 h (fulfill_frames s)\<rparr>))"
proof -
  have "h \<in> set fs \<Longrightarrow> mset (concat (map (\<lambda>h. h # winds (wb_reqs s h)) fs)) =
      mset (winds (wb_reqs s h) @ [h]) + mset (concat (map (\<lambda>h. h # winds (wb_reqs s h)) (remove1 h fs)))" for fs
    by (induction fs) auto
  then show "h \<in> set (fulfill_frames s) \<Longrightarrow> ?thesis" by (simp add: flight_def)
qed

lemma inv_reply:
  assumes i: "wb_idle s" and h: "h \<in> set (fulfill_frames s)"
  shows "wb_inv (s\<lparr>fulfill_frames := remove1 h (fulfill_frames s)\<rparr>, [], [], [], None, winds (wb_reqs s h) @ [h])"
proof -
  let ?a = "s\<lparr>fulfill_frames := remove1 h (fulfill_frames s)\<rparr>" and ?D = "winds (wb_reqs s h) @ [h]"
  have w: "mset (wind_refs (?a, [], [], [], None, ?D)) = mset (wind_refs (s, [], [], [], None, []))"
    using flight_remove [OF h] by (simp add: head_group_def)
  have c: "cfg_refs (?a, [], [], [], None, ?D) = cfg_refs (s, [], [], [], None, [])" unfolding cfg_refs_def w by simp
  have s: "set (flight ?a) \<union> set ?D = set (flight s)" using flight_remove [OF h]
    by (metis mset_append set_append sup_commute set_mset_mset)
  show ?thesis
  proof (rule wb_inv_move [OF i w])
    show "wb_acct (cfg_refs (?a, [], [], [], None, ?D)) ?a" using wb_invD(1) [OF i] unfolding c by (simp add: wb_acct_def)
    show "wb_shape (?a, [], [], [], None, ?D)" using wb_invD(4) [OF i] s by (auto simp: head_group_def)
    show "wb_kinds (?a, [], [], [], None, ?D)" using wb_invD(5) [OF i] s by (auto simp: head_group_def)
  qed simp_all
qed

lemma written_extra:
  assumes i: "wb_idle s" and r: "r \<in> set (writev_frames s)"
  shows "wb_extra r (s\<lparr>writev_frames := remove1 r (writev_frames s)\<rparr>, [], [], [], None, [])"
  unfolding wb_extra_def fst_conv
proof (intro conjI)
  let ?a = "s\<lparr>writev_frames := remove1 r (writev_frames s)\<rparr>"
  have w: "wind_refs (?a, [], [], [], None, []) = wind_refs (s, [], [], [], None, [])"
    by (simp add: head_group_def flight_def)
  have c: "cfg_refs (s, [], [], [], None, []) = add_mset r (cfg_refs (?a, [], [], [], None, []))"
    unfolding cfg_refs_def w using r by simp
  show "wb_acct (add_mset r (cfg_refs (?a, [], [], [], None, []))) ?a"
    using wb_invD(1) [OF i] unfolding c by (simp add: wb_acct_def)
  show "distinct (wind_refs (?a, [], [], [], None, []))" unfolding w using wb_invD(2) [OF i] .
  have s: "set (remove1 r (writev_frames s)) = set (writev_frames s) - {r}" using wb_invD(4) [OF i] by simp
  show "set (writev_frames ?a) \<inter> set (wind_refs (?a, [], [], [], None, [])) = {}"
    unfolding w using wb_invD(3) [OF i] s by auto
  have f: "flight ?a = flight s" by (simp add: flight_def)
  show "wb_shape (?a, [], [], [], None, [])" using wb_invD(4) [OF i] s f by (auto simp: head_group_def)
  show "wb_kinds (?a, [], [], [], None, [])" using wb_invD(5) [OF i] s f by (auto simp: head_group_def)
  show "wb_settled (?a, [], [], [], None, [])" using wb_invD(6) [OF i] unfolding wb_settled.simps w by simp
qed

lemmas wb_idle_written = inv_unref [OF written_extra]

section \<open>Calls\<close>

definition wb_replied :: "addr \<Rightarrow> int \<Rightarrow> int \<Rightarrow> wb_state \<Rightarrow> wb_state" where
  "wb_replied h ret errno s =
     (let s = s\<lparr>fulfill_frames := remove1 h (fulfill_frames s)\<rparr>
      in if ret = -1 then wb_fulfill_err h errno s
         else if ret mod 2 ^ 64 < int (total_size (wb_reqs s h)) then wb_fulfill_err h EIO s
         else s)"

text \<open>What a call does before the queue is processed, and what it adds to the events.\<close>

lemma wb_exec_cases:
  assumes "wb_exec conf c s = (s', ev)" "wb_enabled s c"
  obtains (queued) fop a s0 t where "c = Call fop a" "s0 = (if wb_present s then s else wb_inode_create conf s)"
      "wb_present s0" "t \<longleftrightarrow> fop = GF_FOP_WRITE \<and> \<not> wb_disabled conf a"
      "wb_process_queue conf (wb_enqueue_common s0 (a\<lparr>st_fop := fop\<rparr>) t) = (s', ev)"
      "fop = GF_FOP_WRITE \<Longrightarrow> wb_fd_err s (st_fd a) = None"
  | (refused) fop a e where "c = Call fop a" "s' = s \<or> s' = wb_inode_create conf s" "ev = [Unwind fop (st_frame a) (-1) e]"
      "wb_fd_err s (st_fd a) = Some e"
  | (forwarded) fop a where "c = Call fop a" "fop \<noteq> GF_FOP_WRITE" "s' = s" "ev = [Wind (a\<lparr>st_fop := fop\<rparr>)]" "\<not> wb_present s"
  | (fulfilled) h ret errno where "c = Fulfill_cbk h ret errno" "h \<in> set (fulfill_frames s)"
      "wb_process_queue conf (wb_head_done h (wb_replied h ret errno s)) = (s', ev)"
  | (written) r ret errno ev0 where "c = Writev_cbk r ret errno" "r \<in> set (writev_frames s)"
      "wb_process_queue conf (wb_request_unref r (s\<lparr>writev_frames := remove1 r (writev_frames s)\<rparr>)) = (s', ev0)"
      "ev = ev0 @ [Unwind GF_FOP_WRITE (st_frame (rq_stub (wb_reqs s r))) ret errno]"
  | (resized) sz where "s' = s\<lparr>wb_size := sz\<rparr>" "\<exists>f e n sz. c = Truncate_cbk f e n sz \<or> c = Ftruncate_cbk f e n sz"
      "\<exists>fop f e n. ev = [Unwind fop f e n]"
  | (released) fd where "c = Release fd" "s' = wb_release fd s" "ev = []"
proof (cases c)
  case (Call fop a)
  have p: "wb_present (wb_inode_create conf s)" by (simp add: wb_inode_create_def)
  have cr: "wb_inode_create conf s = (if wb_present s then s else wb_inode_create conf s)"
    by (simp add: wb_inode_create_def)
  have fe: "wb_fd_err (wb_inode_create conf s) x = wb_fd_err s x" for x by (simp add: wb_fd_err_def wb_inode_create_def)
  have q: thesis if "wb_queue conf (a\<lparr>st_fop := fop\<rparr>) s = (s', ev)" "fop \<noteq> GF_FOP_WRITE"
    using that forwarded [OF Call] queued [OF Call, of s False] by (auto simp: wb_queue_def wb_enqueue_def split: if_splits)
  show ?thesis
  proof (cases fop)
    case GF_FOP_WRITE
    show ?thesis
    proof (cases "wb_fd_err s (st_fd a)")
      case None
      then have "wb_process_queue conf (wb_enqueue_common (wb_inode_create conf s) (a\<lparr>st_fop := fop\<rparr>) (\<not> wb_disabled conf a)) = (s', ev)"
        using assms(1) Call GF_FOP_WRITE
        by (simp add: wb_exec_def wb_writev_def Let_def wb_enqueue_def wb_enqueue_tempted_def split: if_splits)
      then show ?thesis using queued [OF Call cr p] GF_FOP_WRITE None by simp
    next
      case (Some e)
      then show ?thesis using assms(1) Call GF_FOP_WRITE refused [OF Call, of e] by (simp add: wb_exec_def wb_writev_def)
    qed
  next
    case GF_FOP_TRUNCATE
    then have "wb_process_queue conf (wb_enqueue_common (wb_inode_create conf s) (a\<lparr>st_fop := fop\<rparr>) False) = (s', ev)"
      using assms(1) Call by (simp add: wb_exec_def wb_truncate_def wb_enqueue_def)
    then show ?thesis using queued [OF Call cr p, of False] GF_FOP_TRUNCATE by simp
  next
    case GF_FOP_FTRUNCATE
    show ?thesis
    proof (cases "wb_fd_err s (st_fd a)")
      case None
      then have "wb_process_queue conf (wb_enqueue_common (wb_inode_create conf s) (a\<lparr>st_fop := fop\<rparr>) False) = (s', ev)"
        using assms(1) Call GF_FOP_FTRUNCATE by (simp add: wb_exec_def wb_ftruncate_def Let_def wb_enqueue_def fe)
      then show ?thesis using queued [OF Call cr p, of False] GF_FOP_FTRUNCATE by simp
    next
      case (Some e)
      then show ?thesis using assms(1) Call GF_FOP_FTRUNCATE refused [OF Call, of e]
        by (simp add: wb_exec_def wb_ftruncate_def Let_def fe)
    qed
  next
    case GF_FOP_FSYNC
    show ?thesis
    proof (cases "wb_fd_err s (st_fd a)")
      case None
      then show ?thesis using assms(1) Call GF_FOP_FSYNC q by (simp add: wb_exec_def wb_fsync_def)
    next
      case (Some e)
      then show ?thesis using assms(1) Call GF_FOP_FSYNC refused [OF Call, of e] by (simp add: wb_exec_def wb_fsync_def)
    qed
  qed (use assms(1) Call q in \<open>auto simp: wb_exec_def wb_readv_def wb_flush_def wb_stat_def wb_fstat_def
      wb_setattr_def wb_fsetattr_def\<close>)
next
  case (Fulfill_cbk h ret errno)
  then show ?thesis using assms fulfilled [OF Fulfill_cbk]
    by (simp add: wb_exec_def wb_enabled_def wb_fulfill_cbk_def wb_replied_def Let_def)
next
  case (Writev_cbk r ret errno)
  then show ?thesis using assms written [OF Writev_cbk]
    by (auto simp: wb_exec_def wb_enabled_def wb_writev_cbk_def Let_def split: prod.splits)
next
  case (Truncate_cbk f e n sz)
  have "s' = s\<lparr>wb_size := if e = 0 then sz else wb_size s\<rparr>"
    using assms(1) Truncate_cbk by (auto simp: wb_exec_def wb_truncate_cbk_def wb_set_inode_size_def)
  moreover have "ev = [Unwind GF_FOP_TRUNCATE f e n]" using assms(1) Truncate_cbk by (simp add: wb_exec_def wb_truncate_cbk_def)
  ultimately show ?thesis using resized Truncate_cbk by blast
next
  case (Ftruncate_cbk f e n sz)
  have "s' = s\<lparr>wb_size := if e = 0 then sz else wb_size s\<rparr>"
    using assms(1) Ftruncate_cbk by (auto simp: wb_exec_def wb_ftruncate_cbk_def wb_set_inode_size_def)
  moreover have "ev = [Unwind GF_FOP_FTRUNCATE f e n]" using assms(1) Ftruncate_cbk by (simp add: wb_exec_def wb_ftruncate_cbk_def)
  ultimately show ?thesis using resized Ftruncate_cbk by blast
next
  case (Release fd)
  then show ?thesis using assms released [OF Release] by (simp add: wb_exec_def)
qed

lemma wb_idle_exec:
  assumes i: "wb_idle s" and e: "wb_exec conf c s = (s', ev)" "wb_enabled s c"
  shows "wb_idle s'"
  using e
proof (cases rule: wb_exec_cases)
  case (queued fop a s0 t)
  have "wb_idle s0" using queued(2) i wb_idle_create by simp
  from wb_idle_process [OF wb_idle_enqueue [OF this queued(3)] queued(5)] show ?thesis using queued(4) by simp
next
  case (refused fop a e)
  then show ?thesis using i wb_idle_create by auto
next
  case (fulfilled h ret errno)
  let ?D = "winds (wb_reqs s h) @ [h]"
  have w: "winds (wb_reqs (wb_replied h ret errno s) h) = winds (wb_reqs s h)"
    by (simp add: wb_replied_def Let_def fulfill_err_eq)
  have "wb_inv (wb_replied h ret errno s, [], [], [], None, ?D)"
    using inv_reply [OF i fulfilled(2)] by (simp add: wb_replied_def Let_def inv_fulfill_err)
  moreover have "wb_head_done h (wb_replied h ret errno s) = fold wb_fulfill_request ?D (wb_replied h ret errno s)"
    by (simp add: wb_head_done_def w)
  ultimately show ?thesis using wb_idle_queue fulfilled(3) by simp
next
  case (written r ret errno ev0)
  then show ?thesis using wb_idle_process [OF wb_idle_written [OF i]] by blast
next
  case (resized sz)
  then show ?thesis using i by (subst wb_inv_cong [of s]) (auto simp: same_shape_def only_lists_def)
next
  case (released fd)
  then show ?thesis using i by (subst wb_inv_cong [of s]) (auto simp: same_shape_def only_lists_def wb_release_def)
qed (use i in simp)

text \<open>An invariant of the states between calls.\<close>

lemma wb_run_invariant:
  assumes "wb_run conf C P s cs ev s'" "I s"
    "\<And>c s s' ev. I s \<Longrightarrow> C c \<Longrightarrow> wb_enabled s c \<Longrightarrow> wb_exec conf c s = (s', ev) \<Longrightarrow> P s' \<Longrightarrow> I s'"
  shows "I s'"
  using assms by (induction rule: wb_run.induct) auto

lemma wb_run_idle: "wb_run conf C P s cs ev s' \<Longrightarrow> wb_idle s \<Longrightarrow> wb_idle s'"
  by (erule wb_run_invariant) (auto intro: wb_idle_exec)

lemma wb_reachable_idle: "wb_reachable conf C P s \<Longrightarrow> wb_idle s"
  using wb_run_idle wb_idle_start by (auto simp: wb_reachable_def)

end
