(* ===== verification/Write_Behind_Order.thy ===== *)
theory Write_Behind_Order
  imports Write_Behind_Calls
begin

text \<open>
  Order in the write-behind translator: generations, writes in progress that never overlap, and
  ranges that do not wrap around. An invariant of the small steps that the arrival of a call and
  the callbacks keep is an invariant of every call.
\<close>

section \<open>Lifting invariants to calls\<close>

abbreviation idle :: "wb_state \<Rightarrow> wb_cfg" where "idle s \<equiv> (s, [], [], [], None, [])"

lemma process_invariant:
  assumes "wb_inv (s, [], [], [], None, D)" "I (s, [], [], [], None, D)"
    "wb_process_queue conf (fold wb_fulfill_request D s) = (s', ev)"
    and m: "\<And>c ev c'. wb_mstep conf c ev c' \<Longrightarrow> wb_inv c \<Longrightarrow> I c \<Longrightarrow> I c'"
  shows "I (idle s')"
proof -
  have st: "wb_inv c \<and> I c \<Longrightarrow> wb_msteps conf c ev c' \<Longrightarrow> wb_inv c' \<and> I c'" for c ev c'
    by (rule ms_invariant [where I = "\<lambda>c. wb_inv c \<and> I c"]) (auto intro: wb_inv_mstep m)
  have i: "wb_inv (idle (fold wb_fulfill_request D s)) \<and> I (idle (fold wb_fulfill_request D s))"
    using st [OF _ settle_steps [of conf s "[]" "[]" "[]" None D "[]"]] assms(1,2) by simp
  show ?thesis using st [OF i process_queue_steps [OF assms(3)]] i wb_idle_lists by blast
qed

lemma exec_invariant:
  assumes i: "wb_idle s" "I (idle s)" and e: "wb_exec conf c s = (s', ev)" "wb_enabled s c"
    and m: "\<And>c ev c'. wb_mstep conf c ev c' \<Longrightarrow> wb_inv c \<Longrightarrow> I c \<Longrightarrow> I c'"
    and cr: "I (idle (wb_inode_create conf s))"
    and en: "\<And>fop a t s. c = Call fop a \<Longrightarrow> wb_idle s \<Longrightarrow> I (idle s) \<Longrightarrow> wb_present s \<Longrightarrow>
        (t \<longleftrightarrow> fop = GF_FOP_WRITE \<and> \<not> wb_disabled conf a) \<Longrightarrow> (fop = GF_FOP_WRITE \<Longrightarrow> wb_fd_err s (st_fd a) = None) \<Longrightarrow>
        I (idle (wb_enqueue_common s (a\<lparr>st_fop := fop\<rparr>) t))"
    and rp: "\<And>h ret errno. c = Fulfill_cbk h ret errno \<Longrightarrow> h \<in> set (fulfill_frames s) \<Longrightarrow>
        I (wb_replied h ret errno s, [], [], [], None, winds (wb_reqs s h) @ [h])"
    and wr: "\<And>r. r \<in> set (writev_frames s) \<Longrightarrow>
        I (idle (wb_request_unref r (s\<lparr>writev_frames := remove1 r (writev_frames s)\<rparr>)))"
    and sz: "\<And>sz. I (idle (s\<lparr>wb_size := sz\<rparr>))" and rl: "\<And>fd. c = Release fd \<Longrightarrow> I (idle (wb_release fd s))"
  shows "I (idle s')"
  using e
proof (cases rule: wb_exec_cases)
  case (queued fop a s0 t)
  have s0: "wb_idle s0" "I (idle s0)" using queued(2) i cr wb_idle_create by simp_all
  have fe: "fop = GF_FOP_WRITE \<Longrightarrow> wb_fd_err s0 (st_fd a) = None"
    using queued(2,6) by (simp add: wb_fd_err_def wb_inode_create_def)
  have "wb_idle (wb_enqueue_common s0 (a\<lparr>st_fop := fop\<rparr>) t)"
    using wb_idle_enqueue [OF s0(1) queued(3)] queued(4) by simp
  then show ?thesis
    using process_invariant [of "wb_enqueue_common s0 (a\<lparr>st_fop := fop\<rparr>) t" "[]" I conf s' ev]
      en [OF queued(1) s0 queued(3,4) fe] queued(5) m by simp
next
  case (refused fop a e)
  then show ?thesis using i cr by auto
next
  case (fulfilled h ret errno)
  have w: "winds (wb_reqs (wb_replied h ret errno s) h) = winds (wb_reqs s h)"
    by (simp add: wb_replied_def Let_def fulfill_err_eq)
  have "wb_inv (wb_replied h ret errno s, [], [], [], None, winds (wb_reqs s h) @ [h])"
    using inv_reply [OF i(1) fulfilled(2)] by (simp add: wb_replied_def Let_def inv_fulfill_err)
  moreover have "wb_head_done h (wb_replied h ret errno s) =
      fold wb_fulfill_request (winds (wb_reqs s h) @ [h]) (wb_replied h ret errno s)"
    by (simp add: wb_head_done_def w)
  ultimately show ?thesis using process_invariant [of _ _ I conf s' ev] rp fulfilled m by simp
next
  case (written r ret errno ev0)
  show ?thesis
    by (rule process_invariant [OF _ _ _ m, where D = "[]" and ev = ev0])
      (use written wr wb_idle_written [OF i(1)] in simp_all)
next
  case (resized z)
  then show ?thesis using sz by simp
qed (use i rl in auto)

section \<open>Generations and writes in progress\<close>

text \<open>Generations never run ahead of the inode's, those of lied writes are behind it, and the
  list of things to do is ordered by them; writes in progress do not overlap.\<close>

definition wb_order :: "wb_state \<Rightarrow> bool" where
  "wb_order s \<longleftrightarrow> (\<forall>r \<in> set (wb_all s). rq_gen (wb_reqs s r) \<le> wb_gen s) \<and>
     (\<forall>l \<in> set (liability s). rq_gen (wb_reqs s l) < wb_gen s) \<and>
     sorted_wrt (\<lambda>x y. rq_gen (wb_reqs s x) \<le> rq_gen (wb_reqs s y)) (todo s) \<and>
     (\<forall>x \<in> set (wip s). \<forall>y \<in> set (wip s). x \<noteq> y \<longrightarrow> \<not> wb_requests_overlap (wb_reqs s x) (wb_reqs s y))"

lemma overlap_sym: "wb_requests_overlap x y = wb_requests_overlap y x"
  by (auto simp: wb_requests_overlap_def)

lemma sorted_wrt_remove1: "sorted_wrt P xs \<Longrightarrow> sorted_wrt P (remove1 x xs)"
  by (induction xs) (auto dest: set_remove1_subset [THEN subsetD])

lemma wb_order_cong:
  assumes "wb_all s' = wb_all s" "liability s' = liability s" "todo s' = todo s" "wip s' = wip s" "wb_gen s' = wb_gen s"
    "\<And>x. rq_gen (wb_reqs s' x) = rq_gen (wb_reqs s x) \<and> ord_off (wb_reqs s' x) = ord_off (wb_reqs s x) \<and>
       ord_size (wb_reqs s' x) = ord_size (wb_reqs s x)"
  shows "wb_order s' = wb_order s"
  using assms by (simp add: wb_order_def wb_requests_overlap_def wb_last_def)

lemma unref_gen: "wb_gen (wb_request_unref r s) = wb_gen s \<or> wb_all (wb_request_unref r s) = []"
  by (auto simp: wb_request_unref_def wb_request_free_def Let_def)

lemma order_unref:
  assumes "wb_extra r (s, T, L, B, G, D)" "wb_order s"
  shows "wb_order (wb_request_unref r s)"
proof -
  note u = extra_lists [OF assms(1)]
  have q: "rq_gen (wb_reqs (wb_request_unref r s) x) = rq_gen (wb_reqs s x)"
    "wb_requests_overlap (wb_reqs (wb_request_unref r s) x) (wb_reqs (wb_request_unref r s) y) =
       wb_requests_overlap (wb_reqs s x) (wb_reqs s y)" for x y
    by (auto simp: unref_reqs wb_requests_overlap_def wb_last_def)
  have t: "todo (wb_request_unref r s) = todo s" using u(1) by (simp add: only_lists_def)
  show ?thesis
  proof (cases "wb_all (wb_request_unref r s) = []")
    case True
    then have "cfg_refs (s, T, L, B, G, D) = {#}" using u(5) by (simp add: wb_acct_def) (metis set_mset_eq_empty_iff)
    then have "todo s = []" "liability (wb_request_unref r s) = []" "wip (wb_request_unref r s) = []"
      using u(2,3) by (auto simp: cfg_refs_def)
    then show ?thesis using True t by (simp add: wb_order_def)
  next
    case False
    then have "wb_gen (wb_request_unref r s) = wb_gen s" using unref_gen by blast
    then show ?thesis using assms(2) u(2-4) t by (auto simp: wb_order_def q)
  qed
qed

lemma order_mark: "wb_order (fulfil_mark r s) = wb_order s"
  by (rule wb_order_cong) (auto simp: fulfil_mark_def reqs_upd_rq)

lemma order_resume: "call_resume conf r s = (s', ev) \<Longrightarrow> wb_order s' = wb_order s"
  by (rule wb_order_cong) (auto simp: call_resume_def Let_def split: wb_fop.splits)

lemma order_collapse:
  assumes i: "wb_inv (s, T, L, B, G, D)" and o: "wb_order s" and t: "todo s = xs @ h # ys @ r # zs"
  shows "wb_order ((wb_collapse_small_writes h r s)\<lparr>todo := xs @ h # ys @ zs\<rparr>)"
proof -
  let ?a = "(wb_collapse_small_writes h r s)\<lparr>todo := xs @ h # ys @ zs\<rparr>"
  have h: "h \<notin> set (wip s)" using wb_invD(4) [OF i] t by auto
  have q: "rq_gen (wb_reqs ?a x) = rq_gen (wb_reqs s x)" "x \<noteq> h \<Longrightarrow> wb_reqs ?a x = wb_reqs s x" for x
    by (auto simp: wb_collapse_small_writes_def Let_def reqs_upd_rq)
  have f: "wb_all ?a = wb_all s" "liability ?a = liability s" "wip ?a = wip s" "wb_gen ?a = wb_gen s"
    by (simp_all add: wb_collapse_small_writes_def Let_def)
  have "sorted_wrt (\<lambda>x y. rq_gen (wb_reqs s x) \<le> rq_gen (wb_reqs s y)) (xs @ h # ys @ zs)"
    using o t by (auto simp: wb_order_def sorted_wrt_append)
  moreover have "x \<in> set (wip s) \<Longrightarrow> wb_reqs ?a x = wb_reqs s x" for x using h q(2) by metis
  ultimately show ?thesis using o unfolding wb_order_def f q(1) by simp
qed

lemma picked_fields:
  assumes "0 \<le> rq_refcount (wb_reqs s r)"
  shows "wb_reqs (picked r s) x = (if x = r \<and> is_write s r \<and> \<not> tempted (wb_reqs s r)
      then (wb_reqs s r)\<lparr>rq_refcount := rq_refcount (wb_reqs s r) + 1\<rparr> else wb_reqs s x)"
    "todo (picked r s) = remove1 r (todo s)" "wip (picked r s) = (if is_write s r then wip s @ [r] else wip s)"
    "liability (picked r s) = liability s" "temptation (picked r s) = temptation s" "wb_all (picked r s) = wb_all s"
    "wb_gen (picked r s) = wb_gen s" "window_current (picked r s) = window_current s" "transit (picked r s) = transit s"
    "fulfill_frames (picked r s) = fulfill_frames s" "writev_frames (picked r s) = writev_frames s"
    "fd_err (picked r s) = fd_err s" "overrun (picked r s) = overrun s" "wb_next (picked r s) = wb_next s"
    "wb_present (picked r s) = wb_present s" "window_conf (picked r s) = window_conf s"
  using assms by (auto simp: picked_def Let_def wb_request_ref_def reqs_upd_rq list_add_tail_def)

lemma inv_refcount: "wb_inv (s, T, L, B, G, D) \<Longrightarrow> r \<in> set (wb_all s) \<Longrightarrow> 0 \<le> rq_refcount (wb_reqs s r)"
  using wb_invD(1) by (auto simp: wb_acct_def)

lemma inv_subset:
  assumes "wb_inv (s, T, L, B, G, D)"
  shows "set (todo s) \<subseteq> set (wb_all s)" "set (temptation s) \<subseteq> set (wb_all s)" "set (wip s) \<subseteq> set (wb_all s)"
    "set (liability s) \<subseteq> set (wb_all s)"
  using wb_invD(1) [OF assms] by (auto simp: wb_acct_def cfg_refs_def)

lemma order_picked:
  assumes i: "wb_inv (s, T, L, B, G, D)" and o: "wb_order s" and r: "r \<in> set (todo s)" "pickable conf s r"
  shows "wb_order (picked r s)"
proof -
  have rc: "0 \<le> rq_refcount (wb_reqs s r)" using inv_refcount [OF i] inv_subset(1) [OF i] r(1) by blast
  note f = picked_fields [OF rc]
  have q: "rq_gen (wb_reqs (picked r s) x) = rq_gen (wb_reqs s x)"
    "wb_requests_overlap (wb_reqs (picked r s) x) (wb_reqs (picked r s) y) = wb_requests_overlap (wb_reqs s x) (wb_reqs s y)" for x y
    by (simp_all add: f(1) wb_requests_overlap_def wb_last_def)
  have "\<not> wb_requests_overlap (wb_reqs s x) (wb_reqs s r)" if "is_write s r" "x \<in> set (wip s)" "x \<noteq> r" for x
    using r(2) that by (auto simp: pickable_def wb_wip_has_conflict_def list_ex_iff)
  then show ?thesis using o sorted_wrt_remove1 overlap_sym unfolding wb_order_def f(2-7) q by auto
qed

lemma lie_fields:
  "wb_reqs (lie_to r s) x = (if x = r \<and> \<not> fulfilled (wb_reqs s r) then (wb_reqs s r)\<lparr>lied := True\<rparr> else wb_reqs s x)"
  "todo (lie_to r s) = todo s" "temptation (lie_to r s) = remove1 r (temptation s)"
  "liability (lie_to r s) = (if fulfilled (wb_reqs s r) then liability s else liability s @ [r])"
  "wip (lie_to r s) = wip s" "wb_all (lie_to r s) = wb_all s"
  "wb_gen (lie_to r s) = (if fulfilled (wb_reqs s r) then wb_gen s else Suc (wb_gen s))"
  "window_current (lie_to r s) = window_current s + int (orig_size (wb_reqs s r))"
  "transit (lie_to r s) = transit s" "fulfill_frames (lie_to r s) = fulfill_frames s"
  "writev_frames (lie_to r s) = writev_frames s" "fd_err (lie_to r s) = fd_err s" "overrun (lie_to r s) = overrun s"
  "wb_next (lie_to r s) = wb_next s" "window_conf (lie_to r s) = window_conf s"
  by (auto simp: lie_to_def Let_def reqs_upd_rq list_add_tail_def)

lemma order_lie:
  assumes "wb_order s" "wb_inv (s, T, L, B, G, D)" "r \<in> set (temptation s)"
  shows "wb_order (lie_to r s)"
proof -
  have r: "rq_gen (wb_reqs s r) \<le> wb_gen s" using assms(1,3) inv_subset(2) [OF assms(2)] by (auto simp: wb_order_def)
  have q: "rq_gen (wb_reqs (lie_to r s) x) = rq_gen (wb_reqs s x)"
    "wb_requests_overlap (wb_reqs (lie_to r s) x) (wb_reqs (lie_to r s) y) = wb_requests_overlap (wb_reqs s x) (wb_reqs s y)" for x y
    by (simp_all add: lie_fields(1) wb_requests_overlap_def wb_last_def)
  show ?thesis using assms(1) r unfolding wb_order_def q lie_fields(2-7) by (auto intro: le_SucI less_SucI)
qed

lemma order_mstep: "wb_mstep conf c ev c' \<Longrightarrow> wb_inv c \<Longrightarrow> wb_order (fst c) \<Longrightarrow> wb_order (fst c')"
proof (induction rule: wb_mstep.induct)
  case (m_settle s T L B G r D)
  then show ?case using order_unref [OF settle_extra] by (simp add: fulfill_request_eq order_mark)
next
  case (m_wind r s s' ev T L B G D)
  then show ?case using order_unref [OF wind_extra] order_resume by simp
next
  case (m_go r s T L B G D)
  then show ?case by (subst wb_order_cong) (auto simp: set_go_def reqs_upd_rq)
next
  case (m_join s r h T L B D)
  then show ?case by (subst wb_order_cong) (auto simp: reqs_upd_rq)
next
  case (m_send s h T L B D)
  then show ?case by (subst wb_order_cong [of _ s]) (auto simp: head_sent_def head_loaded_def Let_def reqs_upd_rq)
next
  case (m_drop s h T L B D)
  then show ?case by (subst wb_order_cong [of _ s]) (auto simp: head_loaded_def Let_def reqs_upd_rq)
qed (auto simp: order_collapse intro: order_picked order_lie order_unref [OF unwind_extra])


section \<open>Ranges\<close>

text \<open>The bytes a write holds lie in the range it is ordered by, and no range wraps around.\<close>

definition rng_ok :: "wb_request \<Rightarrow> bool" where
  "rng_ok q \<longleftrightarrow> unat (ord_off q) \<le> unat (rq_offset q) \<and>
     unat (ord_off q) + unat (ord_size q) = unat (rq_offset q) + write_size q \<and>
     unat (rq_offset q) + write_size q \<le> 2 ^ 63"

definition wb_ranges :: "wb_state \<Rightarrow> bool" where
  "wb_ranges s \<longleftrightarrow> (\<forall>r \<in> set (wb_all s). is_write s r \<longrightarrow> rng_ok (wb_reqs s r))"

definition wr_bytes :: "wb_request \<Rightarrow> nat set" where
  "wr_bytes q = {unat (rq_offset q) ..< unat (rq_offset q) + write_size q}"

lemma unat_add_of_nat:
  fixes x :: u64
  assumes "unat x + n < 2 ^ 64"
  shows "unat (x + of_nat n) = unat x + n"
proof -
  have "unat (of_nat n :: u64) = n" using assms by (simp add: unat_of_nat take_bit_nat_eq_self)
  then show ?thesis using assms by (subst unat_add_lem [THEN iffD1]) simp_all
qed

lemma rng_ok_bytes:
  assumes "rng_ok q" "b \<in> wr_bytes q"
  shows "ord_size q \<noteq> 0" "unat (ord_off q) \<le> b" "b \<le> unat (wb_last q)"
proof -
  have b: "unat (rq_offset q) \<le> b" "b < unat (rq_offset q) + write_size q" using assms(2) by (auto simp: wr_bytes_def)
  have p: "unat (ord_off q) + unat (ord_size q) = unat (rq_offset q) + write_size q" "unat (ord_off q) \<le> unat (rq_offset q)"
    "unat (rq_offset q) + write_size q \<le> 2 ^ 63" using assms(1) by (auto simp: rng_ok_def)
  show z: "ord_size q \<noteq> 0" using b p by auto
  show "unat (ord_off q) \<le> b" using b p by simp
  have "unat (ord_size q - 1) = unat (ord_size q) - 1" using z by (simp add: unat_minus_one)
  moreover have "unat (ord_off q) + (unat (ord_size q) - 1) < 2 ^ 64" using p by simp
  ultimately have "unat (ord_off q + (ord_size q - 1)) = unat (ord_off q) + (unat (ord_size q) - 1)"
    by (subst unat_add_lem [THEN iffD1]) simp_all
  then show "b \<le> unat (wb_last q)" using z b p by (simp add: wb_last_def add_diff_eq)
qed


lemma rng_ok_cong:
  "ord_off q' = ord_off q \<Longrightarrow> ord_size q' = ord_size q \<Longrightarrow> write_size q' = write_size q \<Longrightarrow>
     rq_offset q' = rq_offset q \<Longrightarrow> rng_ok q' = rng_ok q"
  by (simp add: rng_ok_def)

lemma wb_ranges_mono:
  assumes "wb_ranges s" "set (wb_all s') \<subseteq> set (wb_all s)"
    "\<And>x. ord_off (wb_reqs s' x) = ord_off (wb_reqs s x) \<and> ord_size (wb_reqs s' x) = ord_size (wb_reqs s x) \<and>
       write_size (wb_reqs s' x) = write_size (wb_reqs s x) \<and> st_offset (rq_stub (wb_reqs s' x)) = st_offset (rq_stub (wb_reqs s x)) \<and>
       st_fop (rq_stub (wb_reqs s' x)) = st_fop (rq_stub (wb_reqs s x))"
  shows "wb_ranges s'"
  using assms by (auto simp: wb_ranges_def rng_ok_def)

lemma unref_all_subset: "set (wb_all (wb_request_unref r s)) \<subseteq> set (wb_all s)"
  by (auto simp: wb_request_unref_def wb_request_free_def Let_def dest: set_remove1_subset [THEN subsetD])

lemma ranges_unref: "wb_ranges s \<Longrightarrow> wb_ranges (wb_request_unref r s)"
  by (erule wb_ranges_mono) (auto simp: unref_reqs dest: unref_all_subset [THEN subsetD])

lemma rng_ok_collapse:
  assumes "rng_ok h" "rng_ok q" "rq_offset q = rq_offset h + of_nat (write_size h)"
    and n: "ord_off h' = ord_off h" "rq_offset h' = rq_offset h" "write_size h' = write_size h + write_size q"
      "ord_size h' = ord_size h + of_nat (write_size q)"
  shows "rng_ok h'" "wr_bytes h' = wr_bytes h \<union> wr_bytes q"
proof -
  have h: "unat (rq_offset h) + write_size h \<le> 2 ^ 63" using assms(1) by (simp add: rng_ok_def)
  have q: "unat (rq_offset q) = unat (rq_offset h) + write_size h"
    using assms(3) h by (simp add: unat_add_of_nat)
  have "unat (ord_size h) + write_size q \<le> 2 ^ 63" using assms(1,2) q by (auto simp: rng_ok_def)
  then have "unat (ord_size h + of_nat (write_size q)) = unat (ord_size h) + write_size q"
    by (intro unat_add_of_nat) simp
  then show "rng_ok h'" using assms(1,2) q n by (auto simp: rng_ok_def)
  show "wr_bytes h' = wr_bytes h \<union> wr_bytes q" using q n by (auto simp: wr_bytes_def)
qed

lemma collapse_fields:
  defines "c h r s \<equiv> wb_collapse_small_writes h r s"
  shows "x \<noteq> h \<Longrightarrow> wb_reqs (c h r s) x = wb_reqs s x"
    "ord_off (wb_reqs (c h r s) h) = ord_off (wb_reqs s h)" "rq_offset (wb_reqs (c h r s) h) = rq_offset (wb_reqs s h)"
    "write_size (wb_reqs (c h r s) h) = write_size (wb_reqs s h) + write_size (wb_reqs s r)"
    "ord_size (wb_reqs (c h r s) h) = ord_size (wb_reqs s h) + of_nat (write_size (wb_reqs s r))"
    "st_fop (rq_stub (wb_reqs (c h r s) x)) = st_fop (rq_stub (wb_reqs s x))"
    "orig_size (wb_reqs (c h r s) x) = orig_size (wb_reqs s x)" "total_size (wb_reqs (c h r s) x) = total_size (wb_reqs s x)"
    "tempted (wb_reqs (c h r s) x) = tempted (wb_reqs s x)" "rq_gen (wb_reqs (c h r s) x) = rq_gen (wb_reqs s x)"
    "winds (wb_reqs (c h r s) x) = winds (wb_reqs s x)" "st_frame (rq_stub (wb_reqs (c h r s) x)) = st_frame (rq_stub (wb_reqs s x))"
    "go (wb_reqs (c h r s) x) = go (wb_reqs s x)" "lied (wb_reqs (c h r s) x) = lied (wb_reqs s x)"
  by (auto simp: c_def wb_collapse_small_writes_def Let_def reqs_upd_rq)

lemma inv_todo_write: "wb_inv (s, T, L, B, G, D) \<Longrightarrow> r \<in> set (todo s) \<Longrightarrow> tempted (wb_reqs s r) \<Longrightarrow> is_write s r"
  using wb_invD(5) [of s T L B G D] inv_subset(1) [of s T L B G D] by auto

lemma ranges_mstep: "wb_mstep conf c ev c' \<Longrightarrow> wb_inv c \<Longrightarrow> wb_ranges (fst c) \<Longrightarrow> wb_ranges (fst c')"
proof (induction rule: wb_mstep.induct)
  case (m_collapse s xs h ys r zs T L B G D)
  have ok: "rng_ok (wb_reqs s h)" "rng_ok (wb_reqs s r)"
    using m_collapse(8) inv_todo_write [OF m_collapse(7)] inv_subset(1) [OF m_collapse(7)] m_collapse(1,4,5)
    by (auto simp: wb_ranges_def)
  have off: "rq_offset (wb_reqs s r) = rq_offset (wb_reqs s h) + of_nat (write_size (wb_reqs s h))"
    using m_collapse(6) by (simp add: collapsible_def)
  let ?a = "wb_collapse_small_writes h r s"
  have "rng_ok (wb_reqs ?a h)"
    by (rule rng_ok_collapse(1) [OF ok off]) (simp_all only: collapse_fields)
  then have "is_write s x \<longrightarrow> rng_ok (wb_reqs ?a x)" if "x \<in> set (wb_all s)" for x
    using m_collapse(8) that collapse_fields(1) [of x h r s] by (cases "x = h") (auto simp: wb_ranges_def)
  moreover have "wb_all ?a = wb_all s" by (simp add: wb_collapse_small_writes_def Let_def)
  ultimately show ?case by (simp add: wb_ranges_def collapse_fields)
next
  case (m_settle s T L B G r D)
  have "wb_ranges (fulfil_mark r s)"
    by (rule wb_ranges_mono [of s]) (use m_settle in \<open>auto simp: fulfil_mark_def reqs_upd_rq\<close>)
  then show ?case by (simp add: fulfill_request_eq ranges_unref)
next
  case (m_wind r s s' ev T L B G D)
  have "wb_ranges s'"
    by (rule wb_ranges_mono [of s]) (use m_wind in \<open>auto simp: call_resume_def Let_def split: wb_fop.splits\<close>)
  then show ?case by (simp add: ranges_unref)
next
  case (m_task r s T L B G D)
  show ?case by (rule wb_ranges_mono [of s])
    (use m_task in \<open>auto simp: picked_def Let_def wb_request_ref_def reqs_upd_rq\<close>)
next
  case (m_liab r s T L B G D)
  show ?case by (rule wb_ranges_mono [of s])
    (use m_liab in \<open>auto simp: picked_def Let_def wb_request_ref_def reqs_upd_rq\<close>)
next
  case (m_lie r s T L B G D)
  show ?case by (rule wb_ranges_mono [of s]) (use m_lie in \<open>auto simp: lie_fields\<close>)
next
  case (m_go r s T L B G D)
  show ?case by (rule wb_ranges_mono [of s]) (use m_go in \<open>auto simp: set_go_def reqs_upd_rq\<close>)
next
  case (m_join s r h T L B D)
  show ?case by (rule wb_ranges_mono [of s]) (use m_join in \<open>auto simp: reqs_upd_rq\<close>)
next
  case (m_send s h T L B D)
  show ?case by (rule wb_ranges_mono [of s])
    (use m_send in \<open>auto simp: head_sent_def head_loaded_def Let_def reqs_upd_rq\<close>)
next
  case (m_drop s h T L B D)
  show ?case by (rule wb_ranges_mono [of s]) (use m_drop in \<open>auto simp: head_loaded_def Let_def reqs_upd_rq\<close>)
qed (auto intro: ranges_unref)

lemma rng_ok_new:
  assumes e: "uint (st_offset stub) + int (iov_length (st_vector stub)) \<le> 2 ^ 63" and f: "st_fop stub = GF_FOP_WRITE"
  shows "rng_ok (wb_new_request s stub t)"
proof -
  let ?n = "iov_length (st_vector stub)" and ?o = "st_offset stub"
  have "int (unat ?o + ?n) \<le> int (2 ^ 63)" using e by (simp only: of_nat_add uint_nat of_nat_power of_nat_numeral)
  then have n: "unat ?o + ?n \<le> 2 ^ 63" by (simp only: of_nat_le_iff)
  have a: "unat (?o + of_nat ?n) = unat ?o + ?n" using n by (intro unat_add_of_nat) simp
  have "unat (?o + of_nat ?n - wb_size s) = unat ?o + ?n - unat (wb_size s)" if "wb_size s < ?o"
    using a that by (subst unat_sub) (auto simp: word_le_nat_alt word_less_nat_alt)
  moreover have "unat (of_nat ?n :: u64) = ?n" using n by (simp add: unat_of_nat take_bit_nat_eq_self)
  ultimately show ?thesis using n f
    by (auto simp: rng_ok_def wb_new_request_def wb_ordering_def Let_def word_less_nat_alt)
qed


section \<open>Runs\<close>

lemma replied_fields:
  "wb_all (wb_replied h ret e s) = wb_all s" "todo (wb_replied h ret e s) = todo s" "wip (wb_replied h ret e s) = wip s"
  "liability (wb_replied h ret e s) = liability s" "temptation (wb_replied h ret e s) = temptation s"
  "wb_gen (wb_replied h ret e s) = wb_gen s" "window_current (wb_replied h ret e s) = window_current s"
  "transit (wb_replied h ret e s) = transit s" "writev_frames (wb_replied h ret e s) = writev_frames s"
  "fulfill_frames (wb_replied h ret e s) = remove1 h (fulfill_frames s)" "wb_next (wb_replied h ret e s) = wb_next s"
  "overrun (wb_replied h ret e s) = overrun s" "window_conf (wb_replied h ret e s) = window_conf s"
  by (simp_all add: wb_replied_def Let_def fulfill_err_eq)

lemma replied_reqs:
  "rq_stub (wb_reqs (wb_replied h ret e s) x) = rq_stub (wb_reqs s x)"
  "write_size (wb_reqs (wb_replied h ret e s) x) = write_size (wb_reqs s x)"
  "orig_size (wb_reqs (wb_replied h ret e s) x) = orig_size (wb_reqs s x)"
  "total_size (wb_reqs (wb_replied h ret e s) x) = total_size (wb_reqs s x)"
  "rq_gen (wb_reqs (wb_replied h ret e s) x) = rq_gen (wb_reqs s x)"
  "ord_off (wb_reqs (wb_replied h ret e s) x) = ord_off (wb_reqs s x)"
  "ord_size (wb_reqs (wb_replied h ret e s) x) = ord_size (wb_reqs s x)"
  "tempted (wb_reqs (wb_replied h ret e s) x) = tempted (wb_reqs s x)"
  "winds (wb_reqs (wb_replied h ret e s) x) = winds (wb_reqs s x)"
  "rq_fd (wb_reqs (wb_replied h ret e s) x) = rq_fd (wb_reqs s x)"
  "go (wb_reqs (wb_replied h ret e s) x) = go (wb_reqs s x)"
  "fulfilled (wb_reqs (wb_replied h ret e s) x) = fulfilled (wb_reqs s x)"
  "ord_append (wb_reqs (wb_replied h ret e s) x) = ord_append (wb_reqs s x)"
  by (simp_all add: wb_replied_def Let_def fulfill_err_eq)

lemma order_create: "wb_idle s \<Longrightarrow> wb_order s \<Longrightarrow> wb_order (wb_inode_create conf s)"
  using wb_idle_empty by (cases "wb_present s") (auto simp: wb_inode_create_def wb_order_def)

lemma order_enqueue:
  assumes i: "wb_idle s" "wb_order s"
  shows "wb_order (wb_enqueue_common s stub t)"
proof -
  let ?a = "wb_enqueue_common s stub t"
  have n: "wb_next s \<notin> set (wb_all s)" using wb_invD(1) [OF i(1)] by (auto simp: wb_acct_def)
  have q: "x \<in> set (wb_all s) \<Longrightarrow> wb_reqs ?a x = wb_reqs s x" for x using n by (auto simp: enqueue_fields)
  then have q': "x \<in> set (todo s) \<or> x \<in> set (wip s) \<or> x \<in> set (liability s) \<Longrightarrow> wb_reqs ?a x = wb_reqs s x" for x
    using inv_subset [OF i(1)] by auto
  have "sorted_wrt (\<lambda>x y. rq_gen (wb_reqs ?a x) \<le> rq_gen (wb_reqs ?a y)) (todo s)"
    by (rule sorted_wrt_mono_rel [of _ "\<lambda>x y. rq_gen (wb_reqs s x) \<le> rq_gen (wb_reqs s y)"])
      (use i(2) q' in \<open>auto simp: wb_order_def\<close>)
  moreover have "rq_gen (wb_reqs ?a (wb_next s)) = wb_gen s" by (simp add: enqueue_fields(1))
  ultimately show ?thesis using i(2) inv_subset [OF i(1)]
    by (auto simp: wb_order_def enqueue_fields(2-16) q q' sorted_wrt_append)
qed

lemma order_exec:
  assumes i: "wb_idle s" "wb_order s" and e: "wb_exec conf c s = (s', ev)" "wb_enabled s c"
  shows "wb_order s'"
proof -
  have "wb_order (fst (idle s'))"
  proof (rule exec_invariant [OF i(1) _ e, where I = "\<lambda>c. wb_order (fst c)"])
    fix h ret errno show "wb_order (fst (wb_replied h ret errno s, [], [], [], None, winds (wb_reqs s h) @ [h]))"
      using i(2) wb_order_cong [of "wb_replied h ret errno s" s] by (simp add: replied_fields replied_reqs)
  next
    fix r assume "r \<in> set (writev_frames s)"
    from order_unref [OF written_extra [OF i(1) this]]
    show "wb_order (fst (idle (wb_request_unref r (s\<lparr>writev_frames := remove1 r (writev_frames s)\<rparr>))))"
      using i(2) by (simp add: wb_order_def)
  next
    fix z show "wb_order (fst (idle (s\<lparr>wb_size := z\<rparr>)))" "wb_order (fst (idle (wb_release z' s)))" for z'
      using i(2) by (simp_all add: wb_order_def wb_release_def)
  qed (use i order_mstep order_create order_enqueue in auto)
  then show ?thesis by simp
qed

lemma ranges_create: "wb_ranges s \<Longrightarrow> wb_ranges (wb_inode_create conf s)"
  by (auto simp: wb_inode_create_def wb_ranges_def)

lemma ranges_enqueue:
  assumes "wb_ranges s" "wb_enabled s1 (Call fop a)"
  shows "wb_ranges (wb_enqueue_common s (a\<lparr>st_fop := fop\<rparr>) t)"
proof -
  have "fop = GF_FOP_WRITE \<Longrightarrow> rng_ok (wb_new_request s (a\<lparr>st_fop := fop\<rparr>) t)"
    using assms(2) by (intro rng_ok_new) (simp_all add: wb_enabled_def)
  then have "fop = GF_FOP_WRITE \<Longrightarrow> rng_ok ((wb_new_request s (a\<lparr>st_fop := fop\<rparr>) t)\<lparr>rq_refcount := k\<rparr>)" for k
    by (simp add: rng_ok_def)
  then show ?thesis using assms(1) by (auto simp: wb_ranges_def enqueue_fields)
qed

lemma ranges_exec:
  assumes i: "wb_idle s" "wb_ranges s" and e: "wb_exec conf c s = (s', ev)" "wb_enabled s c"
  shows "wb_ranges s'"
proof -
  have "wb_ranges (fst (idle s'))"
  proof (rule exec_invariant [OF i(1) _ e, where I = "\<lambda>c. wb_ranges (fst c)"])
    fix h ret errno show "wb_ranges (fst (wb_replied h ret errno s, [], [], [], None, winds (wb_reqs s h) @ [h]))"
      using i(2) wb_ranges_mono [of s "wb_replied h ret errno s"] by (simp add: replied_fields replied_reqs)
  next
    fix r
    have "wb_ranges (s\<lparr>writev_frames := remove1 r (writev_frames s)\<rparr>)" using i(2) by (simp add: wb_ranges_def)
    then show "wb_ranges (fst (idle (wb_request_unref r (s\<lparr>writev_frames := remove1 r (writev_frames s)\<rparr>))))"
      using ranges_unref by simp
  next
    fix z show "wb_ranges (fst (idle (s\<lparr>wb_size := z\<rparr>)))" "wb_ranges (fst (idle (wb_release z' s)))" for z'
      using i(2) by (simp_all add: wb_ranges_def wb_release_def)
  qed (use i e(2) ranges_mstep ranges_create ranges_enqueue in auto)
  then show ?thesis by simp
qed

text \<open>What holds between calls in every run.\<close>

definition wb_good :: "wb_state \<Rightarrow> bool" where
  "wb_good s \<longleftrightarrow> wb_idle s \<and> wb_order s \<and> wb_ranges s"

lemma wb_good_exec: "wb_good s \<Longrightarrow> wb_exec conf c s = (s', ev) \<Longrightarrow> wb_enabled s c \<Longrightarrow> wb_good s'"
  unfolding wb_good_def using wb_idle_exec order_exec ranges_exec by blast

lemma wb_good_create: "wb_good s \<Longrightarrow> wb_good (wb_inode_create conf s)"
  unfolding wb_good_def using wb_idle_create order_create ranges_create by blast

lemma wb_good_enqueue:
  assumes "wb_good s" "wb_present s" "wb_enabled s1 (Call fop a)" "t \<Longrightarrow> fop = GF_FOP_WRITE"
  shows "wb_good (wb_enqueue_common s (a\<lparr>st_fop := fop\<rparr>) t)"
  using assms wb_idle_enqueue [of s t "a\<lparr>st_fop := fop\<rparr>"] order_enqueue ranges_enqueue [OF _ assms(3)] by (simp add: wb_good_def)

lemma wb_good_run: "wb_run conf C P s cs ev s' \<Longrightarrow> wb_good s \<Longrightarrow> wb_good s'"
  by (erule wb_run_invariant) (auto intro: wb_good_exec)

lemma wb_good_reachable: "wb_reachable conf C P s \<Longrightarrow> wb_good s"
  using wb_good_run wb_idle_start by (auto simp: wb_reachable_def wb_good_def wb_order_def wb_ranges_def wb_start_def)

end
