(* ===== verification/Write_Behind_Account.thy ===== *)
theory Write_Behind_Account
  imports Write_Behind_Order
begin

text \<open>
  Accounts of the write-behind translator: every frame is answered or handed on exactly once,
  and the window is the number of bytes acknowledged and not yet settled.
\<close>

section \<open>Answers\<close>

abbreviation rq_frame :: "wb_state \<Rightarrow> addr \<Rightarrow> addr" where "rq_frame s r \<equiv> st_frame (rq_stub (wb_reqs s r))"

text \<open>The frames that wait for an answer or to be forwarded.\<close>

fun waiting :: "wb_cfg \<Rightarrow> addr multiset" where
  "waiting (s, T, L, B, G, D) =
     image_mset (rq_frame s) (mset (filter (\<lambda>r. \<not> tempted (wb_reqs s r)) (todo s)) + mset T + mset (temptation s @ L)
       + mset (writev_frames s))"

text \<open>The frames answered or handed to the child for good; a synchronous write comes back.\<close>

fun answered :: "wb_event list \<Rightarrow> addr multiset" where
  "answered [] = {#}"
| "answered (Unwind fop f ret e # ev) = {#f#} + answered ev"
| "answered (Wind stub # ev) = (if st_fop stub = GF_FOP_WRITE then {#} else {#st_frame stub#}) + answered ev"
| "answered (Wind_fulfill h fd ow off vec # ev) = answered ev"
| "answered (Wind_flush_bg stub # ev) = answered ev"

lemma answered_append [simp]: "answered (ev @ ev') = answered ev + answered ev'"
  by (induction ev rule: answered.induct) auto

lemma filter_remove1_not: "\<not> P x \<Longrightarrow> filter P (remove1 x xs) = filter P xs"
  by (induction xs) auto

lemma waiting_keep:
  assumes "\<And>x. rq_frame s' x = rq_frame s x \<and> tempted (wb_reqs s' x) = tempted (wb_reqs s x)"
    "mset (filter (\<lambda>r. \<not> tempted (wb_reqs s r)) (todo s')) + mset T' + mset (temptation s' @ L') + mset (writev_frames s')
      = mset (filter (\<lambda>r. \<not> tempted (wb_reqs s r)) (todo s)) + mset T + mset (temptation s @ L) + mset (writev_frames s)"
  shows "waiting (s', T', L', B', G', D') = waiting (s, T, L, B, G, D)"
proof -
  have "waiting (s', T', L', B', G', D') = image_mset (rq_frame s)
      (mset (filter (\<lambda>r. \<not> tempted (wb_reqs s r)) (todo s')) + mset T' + mset (temptation s' @ L') + mset (writev_frames s'))"
    using assms(1) by simp
  then show ?thesis unfolding assms(2) by simp
qed

lemma waiting_unref:
  assumes "wb_extra r (s, T, L, B, G, D)"
  shows "waiting (wb_request_unref r s, T, L, B, G, D) = waiting (s, T, L, B, G, D)"
  using extra_lists(1) [OF assms] by (intro waiting_keep) (auto simp: unref_reqs only_lists_def)

lemma flush_answered:
  "st_fop stub = GF_FOP_FLUSH \<Longrightarrow> answered (wb_flush_helper conf s stub) = {#st_frame stub#}"
  by (simp add: wb_flush_helper_def split: option.splits)

lemma waiting_mstep:
  "wb_mstep conf c ev c' \<Longrightarrow> wb_inv c \<Longrightarrow> waiting c = waiting c' + answered ev"
proof (induction rule: wb_mstep.induct)
  case (m_go r s T L B G D)
  have "waiting (set_go r s, T, L, B, G, D) = waiting (s, T, L, B, G, D)"
    by (rule waiting_keep) (auto simp: set_go_def reqs_upd_rq)
  then show ?case by simp
next
  case (m_collapse s xs h ys r zs T L B G D)
  let ?a = "(wb_collapse_small_writes h r s)\<lparr>todo := xs @ h # ys @ zs\<rparr>"
  have "waiting (?a, T, L, B, G, r # D) = waiting (s, T, L, B, G, D)"
    by (rule waiting_keep) (use m_collapse in \<open>auto simp: collapse_fields, auto simp: wb_collapse_small_writes_def Let_def\<close>)
  then show ?case by simp
next
  case (m_settle s T L B G r D)
  have "waiting (fulfil_mark r s, T, L, B, G, D) = waiting (s, T, L, B, G, r # D)"
    by (rule waiting_keep) (auto simp: fulfil_mark_def reqs_upd_rq)
  then show ?case using waiting_unref [OF settle_extra [OF m_settle]] by (simp add: fulfill_request_eq)
next
  case (m_task r s T L B G D)
  have rc: "0 \<le> rq_refcount (wb_reqs s r)" using inv_refcount [OF m_task(4)] inv_subset(1) [OF m_task(4)] m_task(1) by blast
  have "waiting (picked r s, T @ [r], L, B, G, D) = waiting (s, T, L, B, G, D)"
    by (rule waiting_keep) (use m_task in \<open>auto simp: picked_fields [OF rc] filter_remove1\<close>)
  then show ?case by simp
next
  case (m_liab r s T L B G D)
  have rc: "0 \<le> rq_refcount (wb_reqs s r)" using inv_refcount [OF m_liab(4)] inv_subset(1) [OF m_liab(4)] m_liab(1) by blast
  have "waiting (picked r s, T, L, B @ [r], G, D) = waiting (s, T, L, B, G, D)"
    by (rule waiting_keep) (use m_liab(3) in \<open>auto simp: picked_fields [OF rc] filter_remove1_not\<close>)
  then show ?case by simp
next
  case (m_lie r s T L B G D)
  have "waiting (lie_to r s, T, L @ [r], B, G, D) = waiting (s, T, L, B, G, D)"
    by (rule waiting_keep) (use m_lie in \<open>auto simp: lie_fields\<close>)
  then show ?case by simp
next
  case (m_unwind s T r L B G D)
  then show ?case using waiting_unref [OF unwind_extra [OF m_unwind]] by simp
next
  case (m_wind r s s' ev T L B G D)
  have "waiting (s, r # T, L, B, G, D) = waiting (s', T, L, B, G, D) + answered ev"
    using m_wind(1) by (auto simp: call_resume_def Let_def list_add_tail_def flush_answered split: wb_fop.splits)
  then show ?case using waiting_unref [OF wind_extra [OF m_wind(2,1)]] by simp
next
  case (m_head s T L r B D)
  then show ?case by simp
next
  case (m_join s r h T L B D)
  have "waiting (upd_rq h (\<lambda>q. q\<lparr>winds := list_add_tail r (winds q)\<rparr>) s, T, L, B, Some h, D) = waiting (s, T, L, r # B, Some h, D)"
    by (rule waiting_keep) (auto simp: reqs_upd_rq)
  then show ?case by simp
next
  case (m_send s h T L B D)
  have "waiting (head_sent h (head_loaded h s), T, L, B, None, D) = waiting (s, T, L, B, Some h, D)"
    by (rule waiting_keep) (auto simp: head_sent_def head_loaded_def Let_def reqs_upd_rq)
  then show ?case by (simp add: head_event_def)
next
  case (m_drop s h T L B D)
  have "waiting (head_loaded h s, T, L, B, None, winds (wb_reqs s h) @ h # D) = waiting (s, T, L, B, Some h, D)"
    by (rule waiting_keep) (auto simp: head_loaded_def Let_def reqs_upd_rq)
  then show ?case by simp
qed


lemma waiting_msteps:
  "wb_msteps conf c ev c' \<Longrightarrow> wb_inv c \<Longrightarrow> waiting c = waiting c' + answered ev"
proof (induction rule: wb_msteps.induct)
  case (ms_step c ev c' ev' c'')
  then show ?case using waiting_mstep [OF ms_step(1,4)] wb_inv_mstep [OF ms_step(1,4)] by (simp add: ac_simps)
qed simp

lemma process_msteps:
  assumes "wb_inv (s, [], [], [], None, D)" "wb_process_queue conf (fold wb_fulfill_request D s) = (s', ev)"
  shows "wb_msteps conf (s, [], [], [], None, D) ev (idle s')"
proof -
  note st = settle_steps [of conf s "[]" "[]" "[]" None D "[]"]
  have "wb_idle (fold wb_fulfill_request D s)"
    using ms_invariant [OF st, of wb_inv] assms(1) wb_inv_mstep by simp
  from ms_trans [OF st process_queue_steps [OF assms(2) wb_idle_lists [OF this]]] show ?thesis by simp
qed

text \<open>The frames that come in: those of calls, and those of the translator's own truncations
  when they return from the child.\<close>

definition arriving :: "wb_call \<Rightarrow> addr multiset" where
  "arriving c = (case c of Call fop a \<Rightarrow> {#st_frame a#} | Truncate_cbk f e n z \<Rightarrow> {#f#}
     | Ftruncate_cbk f e n z \<Rightarrow> {#f#} | _ \<Rightarrow> {#})"

lemma replied_steps:
  assumes i: "wb_idle s" and h: "h \<in> set (fulfill_frames s)"
    and q: "wb_process_queue conf (wb_head_done h (wb_replied h ret e s)) = (s', ev)"
  defines "c \<equiv> (wb_replied h ret e s, [], [], [], None, winds (wb_reqs s h) @ [h])"
  shows "wb_inv c" "wb_msteps conf c ev (idle s')"
proof -
  show inv: "wb_inv c"
    using inv_reply [OF i h] by (simp add: c_def wb_replied_def Let_def inv_fulfill_err)
  have "wb_head_done h (wb_replied h ret e s) = fold wb_fulfill_request (winds (wb_reqs s h) @ [h]) (wb_replied h ret e s)"
    by (simp add: wb_head_done_def replied_reqs)
  then show "wb_msteps conf c ev (idle s')"
    using process_msteps [OF inv [unfolded c_def]] q by (simp add: c_def)
qed

lemma waiting_create:
  assumes "wb_idle s"
  shows "waiting (idle (wb_inode_create conf s)) = waiting (idle s)"
  using wb_idle_empty [OF assms] by (cases "wb_present s") (simp_all add: wb_inode_create_def)

lemma waiting_enqueue:
  assumes i: "wb_idle s"
  shows "waiting (idle (wb_enqueue_common s stub t)) = waiting (idle s) + {#st_frame stub#}"
proof -
  define a where "a = wb_enqueue_common s stub t"
  note f = enqueue_fields [of s stub t, folded a_def]
  have n: "wb_next s \<notin> set (wb_all s)" using wb_invD(1) [OF i] by (auto simp: wb_acct_def)
  then have q: "x \<in> set (todo s) \<or> x \<in> set (temptation s) \<or> x \<in> set (writev_frames s) \<Longrightarrow> wb_reqs a x = wb_reqs s x" for x
    using inv_subset [OF i] wb_invD(4) [OF i] by (auto simp: f(1))
  have "filter (\<lambda>r. \<not> tempted (wb_reqs a r)) (todo s) = filter (\<lambda>r. \<not> tempted (wb_reqs s r)) (todo s)"
    "image_mset (rq_frame a) (mset (filter P (todo s))) = image_mset (rq_frame s) (mset (filter P (todo s)))"
    "image_mset (rq_frame a) (mset (temptation s)) = image_mset (rq_frame s) (mset (temptation s))"
    "image_mset (rq_frame a) (mset (writev_frames s)) = image_mset (rq_frame s) (mset (writev_frames s))" for P
    using q by (auto intro!: filter_cong image_mset_cong)
  moreover have "tempted (wb_reqs a (wb_next s)) = t" "rq_frame a (wb_next s) = st_frame stub" by (simp_all add: f(1))
  ultimately show ?thesis unfolding a_def [symmetric] by (simp add: f(2-16))
qed

lemma waiting_exec:
  assumes i: "wb_idle s" and e: "wb_exec conf c s = (s', ev)" "wb_enabled s c"
  shows "waiting (idle s) + arriving c = waiting (idle s') + answered ev"
  using e
proof (cases rule: wb_exec_cases)
  case (queued fop a s0 t)
  have s0: "wb_idle s0" using queued(2) i wb_idle_create by simp
  have w0: "waiting (idle s0) = waiting (idle s)" using queued(2) waiting_create [OF i] by simp
  have ia: "wb_idle (wb_enqueue_common s0 (a\<lparr>st_fop := fop\<rparr>) t)"
    using wb_idle_enqueue [OF s0 queued(3)] queued(4) by simp
  show ?thesis
    using waiting_msteps [OF process_queue_steps [OF queued(5) wb_idle_lists [OF ia]] ia]
      waiting_enqueue [OF s0, of "a\<lparr>st_fop := fop\<rparr>" t] w0 queued(1) by (simp add: arriving_def del: waiting.simps)
next
  case (refused fop a e)
  then have "waiting (idle s') = waiting (idle s)" using waiting_create [OF i] by auto
  then show ?thesis using refused by (simp add: arriving_def)
next
  case (fulfilled h ret errno)
  have "waiting (wb_replied h ret errno s, [], [], [], None, winds (wb_reqs s h) @ [h]) = waiting (idle s)"
    by (simp add: replied_fields replied_reqs)
  then show ?thesis using waiting_msteps [OF replied_steps(2,1) [OF i fulfilled(2,3)]] fulfilled(1) by (simp add: arriving_def)
next
  case (written r ret errno ev0)
  let ?b = "s\<lparr>writev_frames := remove1 r (writev_frames s)\<rparr>"
  note x = written_extra [OF i written(2)]
  have "mset (writev_frames s) = add_mset r (mset (remove1 r (writev_frames s)))" using written(2) by simp
  then have "waiting (idle s) = waiting (idle ?b) + {#rq_frame s r#}" by (simp del: mset_remove1)
  moreover have "waiting (idle (wb_request_unref r ?b)) = waiting (idle s') + answered ev0"
    using waiting_msteps [OF process_queue_steps [OF written(3) wb_idle_lists [OF inv_unref [OF x]]] inv_unref [OF x]] .
  ultimately show ?thesis using waiting_unref [OF x] written(1,4) by (simp add: arriving_def)
next
  case (resized sz)
  then show ?thesis using e by (auto simp: arriving_def wb_exec_def wb_truncate_cbk_def wb_ftruncate_cbk_def)
qed (simp_all add: arriving_def wb_release_def)

section \<open>The window\<close>

lemma sum_list_other: "h \<notin> set ps \<Longrightarrow> (\<And>x. x \<noteq> h \<Longrightarrow> f x = g x) \<Longrightarrow> sum_list (map f ps) = sum_list (map g ps)"
  by (induction ps) auto

lemma of_nat_sum_list: "int (sum_list xs) = sum_list (map int xs)"
  by (induction xs) auto

abbreviation sum_ws :: "wb_state \<Rightarrow> addr list \<Rightarrow> int" where
  "sum_ws s rs \<equiv> sum_list (map (\<lambda>r. int (write_size (wb_reqs s r))) rs)"

abbreviation sum_ts :: "wb_state \<Rightarrow> addr list \<Rightarrow> int" where
  "sum_ts s rs \<equiv> sum_list (map (\<lambda>r. int (total_size (wb_reqs s r))) rs)"

abbreviation sum_os :: "wb_state \<Rightarrow> addr list \<Rightarrow> int" where
  "sum_os s rs \<equiv> sum_list (map (\<lambda>r. int (orig_size (wb_reqs s r))) rs)"

text \<open>The buffered writes that are not settled.\<close>

fun unsettled :: "wb_cfg \<Rightarrow> addr list" where
  "unsettled (s, T, L, B, G, D) =
     filter (\<lambda>r. tempted (wb_reqs s r)) (todo s) @ B @ head_group s G @ flight s"

fun wb_totals :: "wb_cfg \<Rightarrow> bool" where
  "wb_totals (s, T, L, B, G, D) \<longleftrightarrow>
     (\<forall>r \<in> set (todo s @ B @ head_group s G). total_size (wb_reqs s r) = 0) \<and>
     (\<forall>h \<in> set (fulfill_frames s). int (total_size (wb_reqs s h)) = sum_ws s (h # winds (wb_reqs s h)) \<and>
        (\<forall>x \<in> set (winds (wb_reqs s h)). total_size (wb_reqs s x) = 0))"

fun wb_window :: "wb_cfg \<Rightarrow> bool" where
  "wb_window (s, T, L, B, G, D) \<longleftrightarrow>
     window_current s = sum_ws s (unsettled (s, T, L, B, G, D)) + sum_ts s D - sum_os s (temptation s)"

lemma sum_list_remove1: "x \<in> set xs \<Longrightarrow> sum_list (map f (remove1 x xs)) = sum_list (map f xs) - (f x :: int)"
  by (induction xs) auto

text \<open>What the account reads of a state.\<close>

definition same_sizes :: "wb_state \<Rightarrow> wb_state \<Rightarrow> bool" where
  "same_sizes s s' \<longleftrightarrow> fulfill_frames s' = fulfill_frames s \<and>
     (\<forall>r. write_size (wb_reqs s' r) = write_size (wb_reqs s r) \<and> total_size (wb_reqs s' r) = total_size (wb_reqs s r) \<and>
        orig_size (wb_reqs s' r) = orig_size (wb_reqs s r) \<and> winds (wb_reqs s' r) = winds (wb_reqs s r) \<and>
        tempted (wb_reqs s' r) = tempted (wb_reqs s r))"

lemma same_sizes_totals:
  assumes "same_sizes s s'" "set (todo s' @ B' @ head_group s' G') \<subseteq> set (todo s @ B @ head_group s G)"
    "wb_totals (s, T, L, B, G, D)"
  shows "wb_totals (s', T', L', B', G', D')"
  using assms by (auto simp: same_sizes_def)

lemma same_sizes_lists:
  assumes "same_sizes s s'"
  shows "head_group s' G = head_group s G" "flight s' = flight s"
  using assms same_shape_lists [of s' s] by (auto simp: same_sizes_def)

lemma account_unref:
  assumes x: "wb_extra r (s, T, L, B, G, D)" and w: "wb_totals (s, T, L, B, G, D)" "wb_window (s, T, L, B, G, D)"
  shows "wb_totals (wb_request_unref r s, T, L, B, G, D) \<and> wb_window (wb_request_unref r s, T, L, B, G, D)"
proof -
  let ?b = "wb_request_unref r s"
  note u = extra_lists [OF x]
  have f: "todo ?b = todo s" "temptation ?b = temptation s" using u(1) by (auto simp: only_lists_def)
  have ss: "same_sizes s ?b" by (auto simp: same_sizes_def unref_reqs)
  note g = same_sizes_lists [OF ss]
  have t: "wb_totals (?b, T, L, B, G, D)" by (rule same_sizes_totals [OF ss _ w(1)]) (use f g in auto)
  have s: "wb_window (?b, T, L, B, G, D) \<longleftrightarrow> window_current ?b = window_current s"
    using w(2) f g ss by (simp add: same_sizes_def)
  show ?thesis
  proof (cases "wb_all ?b = []")
    case True
    then have "cfg_refs (s, T, L, B, G, D) = {#}" using u(5) by (simp add: wb_acct_def) (metis set_mset_eq_empty_iff)
    then have e: "todo s = []" "B = []" "head_group s G = []" "flight s = []" "D = []" "temptation s = []"
      by (auto simp: cfg_refs_def)
    then have "window_current s = 0" using w(2) by simp
    moreover have "window_current ?b = 0 \<or> window_current ?b = window_current s"
      by (auto simp: wb_request_unref_def wb_request_free_def Let_def)
    ultimately show ?thesis using t s by auto
  next
    case False
    then have "window_current ?b = window_current s" by (auto simp: wb_request_unref_def wb_request_free_def Let_def)
    then show ?thesis using t s by simp
  qed
qed

lemma unsettled_sub: "set (unsettled (s, T, L, B, G, D)) \<subseteq> set (wind_refs (s, T, L, B, G, D))"
  by auto

lemma loaded_fields:
  "write_size (wb_reqs (head_loaded h s) x) = write_size (wb_reqs s x)" "winds (wb_reqs (head_loaded h s) x) = winds (wb_reqs s x)"
  "orig_size (wb_reqs (head_loaded h s) x) = orig_size (wb_reqs s x)" "tempted (wb_reqs (head_loaded h s) x) = tempted (wb_reqs s x)"
  "todo (head_loaded h s) = todo s" "temptation (head_loaded h s) = temptation s"
  "window_current (head_loaded h s) = window_current s" "fulfill_frames (head_loaded h s) = fulfill_frames s"
  by (simp_all add: head_loaded_def Let_def reqs_upd_rq)

lemma sum_list_mset: "mset xs = mset ys \<Longrightarrow> sum_list (map f xs) = (sum_list (map f ys) :: int)"
  by (metis mset_map sum_mset_sum_list)

lemma sum_list_0: "(\<And>x. x \<in> set xs \<Longrightarrow> f x = (0::int)) \<Longrightarrow> sum_list (map f xs) = 0"
  by (induction xs) auto

text \<open>The head's total is the size of its group.\<close>

lemma loaded_account:
  assumes i: "wb_inv (s, T, L, B, Some h, D)" and t: "wb_totals (s, T, L, B, Some h, D)"
  shows "wb_totals (head_loaded h s, T', L', B, None, D')"
    "int (total_size (wb_reqs (head_loaded h s) h)) = sum_ws s (h # winds (wb_reqs s h))"
    "\<forall>x \<in> set (winds (wb_reqs s h)). total_size (wb_reqs (head_loaded h s) x) = 0"
    "sum_ts (head_loaded h s) D = sum_ts s D"
proof -
  have h: "h \<notin> set (todo s @ B @ winds (wb_reqs s h))" "h \<notin> set (flight s)" "h \<notin> set D"
    using wb_invD(2) [OF i] by (auto simp: head_group_def)
  have q: "x \<noteq> h \<Longrightarrow> total_size (wb_reqs (head_loaded h s) x) = total_size (wb_reqs s x)" for x
    by (simp add: head_loaded_def Let_def reqs_upd_rq)
  have z: "\<forall>x \<in> set (todo s @ B @ winds (wb_reqs s h)). total_size (wb_reqs s x) = 0" "total_size (wb_reqs s h) = 0"
    using t by (simp_all add: head_group_def)
  have 1: "total_size (wb_reqs (head_loaded h s) x) = 0" if "x \<in> set (todo s @ B @ winds (wb_reqs s h))" for x
    using that h(1) z(1) q [of x] by metis
  then show "\<forall>x \<in> set (winds (wb_reqs s h)). total_size (wb_reqs (head_loaded h s) x) = 0" by simp
  have "total_size (wb_reqs (head_loaded h s) x) = total_size (wb_reqs s x)" if "k \<in> set (fulfill_frames s)" "x \<in> set (k # winds (wb_reqs s k))" for k x
    using that h(2) by (intro q) (auto simp: flight_def)
  then show "wb_totals (head_loaded h s, T', L', B, None, D')"
    using t 1 by (auto simp: loaded_fields head_group_def)
  show "int (total_size (wb_reqs (head_loaded h s) h)) = sum_ws s (h # winds (wb_reqs s h))"
    using z(2) by (simp add: head_loaded_def Let_def reqs_upd_rq of_nat_sum_list comp_def)
  show "sum_ts (head_loaded h s) D = sum_ts s D" by (intro sum_list_other [OF h(3)]) (simp add: q)
qed

lemma account_mstep:
  "wb_mstep conf c ev c' \<Longrightarrow> wb_inv c \<Longrightarrow> wb_totals c \<and> wb_window c \<Longrightarrow> wb_totals c' \<and> wb_window c'"
proof (induction rule: wb_mstep.induct)
  case (m_go r s T L B G D)
  have ss: "same_sizes s (set_go r s)" by (auto simp: same_sizes_def set_go_def reqs_upd_rq)
  show ?case using m_go same_sizes_lists [OF ss] ss same_sizes_totals [OF ss, of B G B G T L D T L D]
    by (simp add: same_sizes_def set_go_def del: wb_totals.simps)
next
  case (m_collapse s xs h ys r zs T L B G D)
  define a where "a = (wb_collapse_small_writes h r s)\<lparr>todo := xs @ h # ys @ zs\<rparr>"
  have q: "x \<noteq> h \<Longrightarrow> wb_reqs a x = wb_reqs s x" "write_size (wb_reqs a h) = write_size (wb_reqs s h) + write_size (wb_reqs s r)"
    "winds (wb_reqs a x) = winds (wb_reqs s x)" "total_size (wb_reqs a x) = total_size (wb_reqs s x)"
    "orig_size (wb_reqs a x) = orig_size (wb_reqs s x)" "tempted (wb_reqs a x) = tempted (wb_reqs s x)" for x
    by (simp_all add: a_def collapse_fields)
  have f: "todo a = xs @ h # ys @ zs" "temptation a = temptation s" "window_current a = window_current s"
    "fulfill_frames a = fulfill_frames s" by (simp_all add: a_def wb_collapse_small_writes_def Let_def)
  have g: "head_group a G = head_group s G" "flight a = flight s" using same_shape_lists [of a s] q f by simp_all
  have hn: "h \<notin> set xs" "h \<notin> set ys" "h \<notin> set zs" "h \<notin> set B" "h \<notin> set (head_group s G)" "h \<notin> set (flight s)" "h \<noteq> r"
    using wb_invD(2) [OF m_collapse(7)] m_collapse(1) by auto
  have eq: "sum_ws a ps = sum_ws s ps" if "h \<notin> set ps" for ps using q(1) by (intro sum_list_other [OF that]) simp
  then have ef: "sum_ws a (filter P ps) = sum_ws s (filter P ps)" if "h \<notin> set ps" for P ps using that by simp
  have "k \<in> set (fulfill_frames s) \<Longrightarrow> sum_ws a (k # winds (wb_reqs s k)) = sum_ws s (k # winds (wb_reqs s k))" for k
    using hn(6) by (intro eq) (auto simp: flight_def)
  then have "wb_totals (a, T, L, B, G, r # D)" using m_collapse(1,8) by (auto simp: f g q)
  moreover have "total_size (wb_reqs s r) = 0" using m_collapse(1,8) by simp
  then have "wb_window (a, T, L, B, G, r # D)"
    using m_collapse(1,4,5,8) by (simp add: f g q(2-6) eq [OF hn(4)] eq [OF hn(5)] eq [OF hn(6)] ef [OF hn(1)] ef [OF hn(2)] ef [OF hn(3)])
  ultimately show ?case unfolding a_def ..
next
  case (m_settle s T L B G r D)
  let ?a = "fulfil_mark r s"
  have ss: "same_sizes s ?a" by (auto simp: same_sizes_def fulfil_mark_def reqs_upd_rq)
  have "wb_totals (?a, T, L, B, G, D)"
    by (rule same_sizes_totals [OF ss, of B G B G T L "r # D"]) (use m_settle same_sizes_lists [OF ss] in \<open>auto simp: fulfil_mark_def\<close>)
  moreover have "wb_window (?a, T, L, B, G, D)"
    using m_settle(2) same_sizes_lists [OF ss] ss by (simp add: same_sizes_def) (simp add: fulfil_mark_def)
  ultimately show ?case using account_unref [OF settle_extra [OF m_settle(1)]] by (simp add: fulfill_request_eq)
next
  case (m_task r s T L B G D)
  have rc: "0 \<le> rq_refcount (wb_reqs s r)" using inv_refcount [OF m_task(4)] inv_subset(1) [OF m_task(4)] m_task(1) by blast
  note f = picked_fields [OF rc]
  have ss: "same_sizes s (picked r s)" by (auto simp: same_sizes_def f)
  have "wb_totals (picked r s, T @ [r], L, B, G, D)"
    by (rule same_sizes_totals [OF ss, of B G B G T L D]) (use m_task same_sizes_lists [OF ss] in \<open>auto simp: f dest: set_remove1_subset [THEN subsetD]\<close>)
  moreover have "wb_window (picked r s, T @ [r], L, B, G, D)"
    using m_task(3,5) same_sizes_lists [OF ss] ss by (simp add: same_sizes_def) (simp add: f filter_remove1_not)
  ultimately show ?case ..
next
  case (m_liab r s T L B G D)
  have rc: "0 \<le> rq_refcount (wb_reqs s r)" using inv_refcount [OF m_liab(4)] inv_subset(1) [OF m_liab(4)] m_liab(1) by blast
  note f = picked_fields [OF rc]
  have ss: "same_sizes s (picked r s)" by (auto simp: same_sizes_def f)
  have "wb_totals (picked r s, T, L, B @ [r], G, D)"
    by (rule same_sizes_totals [OF ss, of "B @ [r]" G B G T L D])
      (use m_liab same_sizes_lists [OF ss] in \<open>auto simp: f dest: set_remove1_subset [THEN subsetD]\<close>)
  moreover have "sum_ws s (filter (\<lambda>r. tempted (wb_reqs s r)) (remove1 r (todo s))) =
      sum_ws s (filter (\<lambda>r. tempted (wb_reqs s r)) (todo s)) - int (write_size (wb_reqs s r))"
    using m_liab(1,3) by (simp add: filter_remove1 sum_list_remove1)
  then have "wb_window (picked r s, T, L, B @ [r], G, D)"
    using m_liab(5) same_sizes_lists [OF ss] ss by (simp add: same_sizes_def) (simp add: f)
  ultimately show ?case ..
next
  case (m_lie r s T L B G D)
  have ss: "same_sizes s (lie_to r s)" by (auto simp: same_sizes_def lie_fields)
  have "wb_totals (lie_to r s, T, L @ [r], B, G, D)"
    by (rule same_sizes_totals [OF ss, of B G B G T L D]) (use m_lie same_sizes_lists [OF ss] in \<open>auto simp: lie_fields\<close>)
  moreover have "wb_window (lie_to r s, T, L @ [r], B, G, D)"
    using m_lie(1,4) same_sizes_lists [OF ss] ss by (simp add: same_sizes_def) (simp add: lie_fields sum_list_remove1)
  ultimately show ?case ..
next
  case (m_unwind s T r L B G D)
  then show ?case using account_unref [OF unwind_extra [OF m_unwind(1)]] by simp
next
  case (m_wind r s s' ev T L B G D)
  have ss: "same_sizes s s'" "todo s' = todo s" "temptation s' = temptation s" "window_current s' = window_current s"
    using m_wind(1) by (auto simp: same_sizes_def call_resume_def Let_def split: wb_fop.splits)
  have "wb_totals (s', T, L, B, G, D)"
    by (rule same_sizes_totals [OF ss(1), of B G B G "r # T" L D]) (use m_wind(3) same_sizes_lists [OF ss(1)] ss in auto)
  moreover have "wb_window (s', T, L, B, G, D)"
    using m_wind(3) same_sizes_lists [OF ss(1)] ss by (simp add: same_sizes_def)
  ultimately show ?case using account_unref [OF wind_extra [OF m_wind(2,1)]] by simp
next
  case (m_head s T L r B D)
  have "head_group s (Some r) = [r]" "head_group s None = []" using wb_invD(4) [OF m_head(1)] by (auto simp: head_group_def)
  then show ?case using m_head(2) by simp
next
  case (m_join s r h T L B D)
  let ?b = "upd_rq h (\<lambda>q. q\<lparr>winds := list_add_tail r (winds q)\<rparr>) s"
  have h: "h \<notin> set (flight s)" using wb_invD(2) [OF m_join(4)] by (auto simp: head_group_def)
  have fl: "flight ?b = flight s" using h by (auto simp: flight_def reqs_upd_rq intro!: arg_cong [where f = concat])
  have g: "head_group ?b (Some h) = head_group s (Some h) @ [r]" by (simp add: head_group_def reqs_upd_rq list_add_tail_def)
  have fw: "x \<in> set (fulfill_frames s) \<Longrightarrow> winds (wb_reqs ?b x) = winds (wb_reqs s x)" for x
    using h by (auto simp: flight_def reqs_upd_rq)
  have q: "write_size (wb_reqs ?b x) = write_size (wb_reqs s x)" "total_size (wb_reqs ?b x) = total_size (wb_reqs s x)"
    "orig_size (wb_reqs ?b x) = orig_size (wb_reqs s x)" "tempted (wb_reqs ?b x) = tempted (wb_reqs s x)" for x by (auto simp: reqs_upd_rq)
  show ?case using m_join(5) by (simp add: fl g q fw)
next
  case (m_send s h T L B D)
  let ?b = "head_loaded h s"
  note l = loaded_account [OF m_send(2) m_send(3) [THEN conjunct1]]
  have fl: "flight (head_sent h ?b) = flight s @ h # winds (wb_reqs s h)" "flight ?b = flight s"
    by (simp_all add: flight_def head_sent_def list_add_tail_def loaded_fields)
  have "wb_totals (head_sent h ?b, T, L, B, None, D)"
    using l by (auto simp: head_sent_def list_add_tail_def head_group_def loaded_fields)
  moreover have "window_current ?b = sum_ws s (unsettled (s, T, L, B, Some h, D)) + sum_ts ?b D - sum_os s (temptation s)"
    using m_send(3) l(4) by (simp add: loaded_fields)
  then have "wb_window (head_sent h ?b, T, L, B, None, D)"
    using fl by (simp add: head_sent_def head_group_def loaded_fields)
  ultimately show ?case ..
next
  case (m_drop s h T L B D)
  let ?b = "head_loaded h s"
  note l = loaded_account [OF m_drop(2) m_drop(3) [THEN conjunct1]]
  have fl: "flight ?b = flight s" by (simp add: flight_def loaded_fields)
  have "wb_totals (?b, T, L, B, None, winds (wb_reqs s h) @ h # D)" using l(1) by simp
  moreover have "sum_ts ?b (winds (wb_reqs s h)) = 0"
    using l(3) by (intro sum_list_0) auto
  then have "wb_window (?b, T, L, B, None, winds (wb_reqs s h) @ h # D)"
    using m_drop(3) l(2,4) fl by (simp add: head_group_def loaded_fields)
  ultimately show ?case ..
qed


definition wb_accounted :: "wb_state \<Rightarrow> bool" where
  "wb_accounted s \<longleftrightarrow> wb_totals (idle s) \<and> wb_window (idle s)"

lemma accounted_reply:
  fixes ret e :: int
  assumes i: "wb_idle s" "wb_accounted s" and h: "h \<in> set (fulfill_frames s)"
  defines "a \<equiv> wb_replied h ret e s" and "D \<equiv> winds (wb_reqs s h) @ [h]"
  shows "wb_totals (a, [], [], [], None, D) \<and> wb_window (a, [], [], [], None, D)"
proof -
  have t: "wb_totals (idle s)" "wb_window (idle s)" using i(2) by (simp_all add: wb_accounted_def)
  have q: "write_size (wb_reqs a x) = write_size (wb_reqs s x)" "orig_size (wb_reqs a x) = orig_size (wb_reqs s x)"
    "total_size (wb_reqs a x) = total_size (wb_reqs s x)" "winds (wb_reqs a x) = winds (wb_reqs s x)"
    "tempted (wb_reqs a x) = tempted (wb_reqs s x)" for x by (simp_all add: a_def replied_reqs)
  have f: "todo a = todo s" "temptation a = temptation s" "window_current a = window_current s"
    "fulfill_frames a = remove1 h (fulfill_frames s)" by (simp_all add: a_def replied_fields)
  have "flight (s\<lparr>fulfill_frames := remove1 h (fulfill_frames s)\<rparr>) = flight a" by (simp add: flight_def f q)
  then have "mset (flight s) = mset (D @ flight a)" using flight_remove [OF h] by (simp add: D_def)
  then have "sum_ws s (flight s) = sum_ws s (D @ flight a)" by (rule sum_list_mset)
  moreover have "sum_ts s (winds (wb_reqs s h)) = 0" using t(1) h by (intro sum_list_0) auto
  then have "sum_ts s D = sum_ws s D" using t(1) h by (simp add: D_def)
  ultimately have "wb_window (a, [], [], [], None, D)" using t(2) by (simp add: f q head_group_def)
  moreover have "wb_totals (a, [], [], [], None, D)"
    using t(1) by (auto simp: f q head_group_def dest: set_remove1_subset [THEN subsetD])
  ultimately show ?thesis by blast
qed

lemma accounted_enqueue:
  assumes i: "wb_idle s" "wb_accounted s"
  shows "wb_accounted (wb_enqueue_common s stub t)"
proof -
  define a where "a = wb_enqueue_common s stub t"
  note f = enqueue_fields [of s stub t, folded a_def]
  have n: "wb_next s \<notin> set (todo s)" "wb_next s \<notin> set (flight s)" "wb_next s \<notin> set (temptation s)" "wb_next s \<notin> set (fulfill_frames s)"
    using wb_invD(1) [OF i(1)] by (auto simp: wb_acct_def cfg_refs_def flight_def)
  have fl: "flight a = flight s" using n(2) by (auto simp: flight_def f intro!: arg_cong [where f = concat])
  have q: "x \<noteq> wb_next s \<Longrightarrow> wb_reqs a x = wb_reqs s x" for x by (simp add: f(1))
  have eq: "sum_ws a ps = sum_ws s ps" "sum_os a ps = sum_os s ps" if "wb_next s \<notin> set ps" for ps
    using q by (intro sum_list_other [OF that], simp)+
  have qt: "x \<in> set (todo s) \<Longrightarrow> wb_reqs a x = wb_reqs s x" for x using n(1) q by metis
  have ft: "filter (\<lambda>r. tempted (wb_reqs a r)) (todo s) = filter (\<lambda>r. tempted (wb_reqs s r)) (todo s)"
    by (rule filter_cong) (simp_all add: qt)
  have ef: "sum_ws a (filter P (todo s)) = sum_ws s (filter P (todo s))" for P using n(1) by (intro eq) simp
  have nw: "total_size (wb_reqs a (wb_next s)) = 0" "tempted (wb_reqs a (wb_next s)) = t"
    "write_size (wb_reqs a (wb_next s)) = orig_size (wb_reqs a (wb_next s))"
    by (simp_all add: f(1)) (simp add: wb_new_request_def Let_def)
  have "wb_reqs a k = wb_reqs s k \<and> (\<forall>x \<in> set (winds (wb_reqs s k)). wb_reqs a x = wb_reqs s x) \<and>
      sum_ws a (winds (wb_reqs s k)) = sum_ws s (winds (wb_reqs s k))" if "k \<in> set (fulfill_frames s)" for k
  proof -
    have "wb_next s \<notin> set (k # winds (wb_reqs s k))" using n(2) that by (auto simp: flight_def)
    then show ?thesis using q eq(1) [of "winds (wb_reqs s k)"] by (metis list.set_intros)
  qed
  then have "wb_totals (idle a)" using i(2) nw qt by (auto simp: wb_accounted_def f(2-16) head_group_def)
  moreover have "wb_window (idle a)" using i(2) nw fl
    by (auto simp: wb_accounted_def f(2-16) head_group_def ft ef eq [OF n(3)] eq [OF n(2)])
  ultimately show ?thesis by (simp add: wb_accounted_def a_def)
qed

lemma accounted_create: "wb_idle s \<Longrightarrow> wb_accounted s \<Longrightarrow> wb_accounted (wb_inode_create conf s)"
  using wb_idle_empty [of s]
  by (cases "wb_present s") (auto simp: wb_inode_create_def wb_accounted_def head_group_def flight_def)

lemma accounted_exec:
  assumes i: "wb_idle s" "wb_accounted s" and e: "wb_exec conf c s = (s', ev)" "wb_enabled s c"
  shows "wb_accounted s'"
  unfolding wb_accounted_def
proof (rule exec_invariant [where I = "\<lambda>c. wb_totals c \<and> wb_window c", OF i(1) i(2) [unfolded wb_accounted_def] e])
  fix r assume r: "r \<in> set (writev_frames s)"
  let ?a = "s\<lparr>writev_frames := remove1 r (writev_frames s)\<rparr>"
  have "flight ?a = flight s" by (simp add: flight_def)
  then show "wb_totals (idle (wb_request_unref r ?a)) \<and> wb_window (idle (wb_request_unref r ?a))"
    using i(2) by (intro account_unref [OF written_extra [OF i(1) r]]) (simp_all add: wb_accounted_def head_group_def)
next
  fix z
  have "flight (s\<lparr>wb_size := z\<rparr>) = flight s" "flight (wb_release z' s) = flight s" for z' by (simp_all add: flight_def wb_release_def)
  then show "wb_totals (idle (s\<lparr>wb_size := z\<rparr>)) \<and> wb_window (idle (s\<lparr>wb_size := z\<rparr>))"
    "wb_totals (idle (wb_release z' s)) \<and> wb_window (idle (wb_release z' s))" for z'
    using i(2) by (simp_all add: wb_accounted_def head_group_def wb_release_def)
next
  fix fop a t s assume "wb_idle s" "wb_totals (idle s) \<and> wb_window (idle s)"
  then show "wb_totals (idle (wb_enqueue_common s (a\<lparr>st_fop := fop\<rparr>) t)) \<and> wb_window (idle (wb_enqueue_common s (a\<lparr>st_fop := fop\<rparr>) t))"
    using accounted_enqueue unfolding wb_accounted_def by blast
next
  show "wb_totals (idle (wb_inode_create conf s)) \<and> wb_window (idle (wb_inode_create conf s))"
    using accounted_create [OF i] unfolding wb_accounted_def .
next
  fix h ret errno assume "h \<in> set (fulfill_frames s)"
  from accounted_reply [OF i this]
  show "wb_totals (wb_replied h ret errno s, [], [], [], None, winds (wb_reqs s h) @ [h]) \<and>
      wb_window (wb_replied h ret errno s, [], [], [], None, winds (wb_reqs s h) @ [h])" .
qed (rule account_mstep)

lemma accounted_reachable: "wb_reachable conf C P s \<Longrightarrow> wb_accounted s"
proof -
  have st: "wb_idle wb_start \<and> wb_accounted wb_start"
    using wb_idle_start by (simp add: wb_accounted_def wb_start_def head_group_def flight_def)
  show "wb_reachable conf C P s \<Longrightarrow> ?thesis"
    using wb_run_invariant [of conf C P wb_start _ _ s "\<lambda>s. wb_idle s \<and> wb_accounted s"] st wb_idle_exec accounted_exec
    unfolding wb_reachable_def by blast
qed

end
