(* ===== verification/Write_Behind_Content.thy ===== *)
theory Write_Behind_Content
  imports Write_Behind_Account
begin

text \<open>
  The bytes that pass through the write-behind translator: what the child holds after the writes
  it was sent, followed by the writes still waiting in the order in which they will be sent, is
  what the callers wrote.
\<close>

section \<open>Contents\<close>

type_synonym contents = "nat \<Rightarrow> 8 word"

text \<open>The contents of a file after bytes have been written at an offset.\<close>

definition put :: "nat \<Rightarrow> 8 word list \<Rightarrow> contents \<Rightarrow> contents" where
  "put off d f = (\<lambda>b. if off \<le> b \<and> b < off + length d then d ! (b - off) else f b)"

text \<open>What the child holds after the writes that were sent to it, and what the callers wrote.\<close>

fun replay :: "wb_event list \<Rightarrow> contents \<Rightarrow> contents" where
  "replay [] f = f"
| "replay (Wind_fulfill h fd ow off vec # ev) f = replay ev (put (unat off) (iov_unload vec) f)"
| "replay (Wind stub # ev) f =
     replay ev (if st_fop stub = GF_FOP_WRITE then put (unat (st_offset stub)) (iov_unload (st_vector stub)) f else f)"
| "replay (_ # ev) f = replay ev f"

fun intended :: "wb_call list \<Rightarrow> contents \<Rightarrow> contents" where
  "intended [] f = f"
| "intended (Call GF_FOP_WRITE a # cs) f = intended cs (put (unat (st_offset a)) (iov_unload (st_vector a)) f)"
| "intended (_ # cs) f = intended cs f"

lemma replay_append [simp]: "replay (ev @ ev') f = replay ev' (replay ev f)"
  by (induction ev f rule: replay.induct) auto

lemma intended_append [simp]: "intended (cs @ cs') f = intended cs' (intended cs f)"
  by (induction cs f rule: intended.induct) auto

lemma put_append: "put n (d @ d') f = put (n + length d) d' (put n d f)"
  by (auto simp: put_def fun_eq_iff nth_append)

lemma put_commute:
  "{n ..< n + length d} \<inter> {m ..< m + length d'} = {} \<Longrightarrow> put n d (put m d' f) = put m d' (put n d f)"
  by (auto simp: put_def fun_eq_iff)

abbreviation put_rq :: "wb_request \<Rightarrow> contents \<Rightarrow> contents" where
  "put_rq q \<equiv> put (unat (rq_offset q)) (iov_unload (rq_vector q))"

abbreviation put_all :: "wb_state \<Rightarrow> addr list \<Rightarrow> contents \<Rightarrow> contents" where
  "put_all s rs \<equiv> fold (\<lambda>r. put_rq (wb_reqs s r)) rs"

text \<open>A write of one piece, whose piece is as long as its size.\<close>

definition rq_ok :: "wb_request \<Rightarrow> bool" where
  "rq_ok q \<longleftrightarrow> 0 < write_size q \<and> length (rq_vector q) = 1 \<and> iov_len (hd (rq_vector q)) = write_size q \<and>
     write_size q \<le> length (iov_base (hd (rq_vector q)))"

lemma rq_ok_data: "rq_ok q \<Longrightarrow> length (iov_unload (rq_vector q)) = write_size q"
  by (cases "rq_vector q") (auto simp: rq_ok_def iov_unload_def)

lemma put_rq_commute:
  assumes "rq_ok p" "rq_ok q" "wr_bytes p \<inter> wr_bytes q = {}"
  shows "put_rq p (put_rq q f) = put_rq q (put_rq p f)"
  using assms by (intro put_commute) (simp add: rq_ok_data wr_bytes_def)

lemma put_all_move:
  assumes "rq_ok q" "\<forall>x \<in> set xs. rq_ok (wb_reqs s x) \<and> wr_bytes (wb_reqs s x) \<inter> wr_bytes q = {}"
  shows "put_rq q (put_all s xs f) = put_all s xs (put_rq q f)"
  using assms(2)
proof (induction xs arbitrary: f)
  case (Cons x xs)
  then show ?case using put_rq_commute [OF assms(1), of "wb_reqs s x"] by (simp add: Int_commute)
qed simp

lemma put_all_cong:
  "(\<And>r. r \<in> set rs \<Longrightarrow> rq_stub (wb_reqs s' r) = rq_stub (wb_reqs s r)) \<Longrightarrow> put_all s' rs f = put_all s rs f"
  by (induction rs arbitrary: f) auto

section \<open>The flow of buffered writes\<close>

text \<open>The writes that callers have made and the child has not been sent, in the order in which
  it will be sent them.\<close>

fun pending :: "wb_cfg \<Rightarrow> addr list" where
  "pending (s, T, L, B, G, D) = head_group s G @ B @ filter (\<lambda>r. tempted (wb_reqs s r)) (todo s)"

definition view :: "wb_cfg \<Rightarrow> contents \<Rightarrow> contents" where
  "view c = put_all (fst c) (pending c)"

text \<open>Writes in the list of things to do are acknowledged in order: each one before the last has
  been lied about and has a smaller generation than those behind it.\<close>

fun wb_flow :: "wb_cfg \<Rightarrow> bool" where
  "wb_flow (s, T, L, B, G, D) \<longleftrightarrow>
     fd_err s = (\<lambda>_. None) \<and> writev_frames s = [] \<and> \<not> overrun s \<and>
     (\<forall>r \<in> set (todo s @ T). is_write s r \<longrightarrow> tempted (wb_reqs s r)) \<and>
     (\<forall>r \<in> set (pending (s, T, L, B, G, D)). rq_ok (wb_reqs s r)) \<and>
     (\<forall>h r. G = Some h \<and> r \<in> set (winds (wb_reqs s h)) \<longrightarrow>
        rq_offset (wb_reqs s r) = rq_offset (wb_reqs s h) + of_nat (write_size (wb_reqs s h))) \<and>
     (\<forall>r \<in> set (todo s). tempted (wb_reqs s r) \<longrightarrow> r \<in> set (temptation s) \<or> r \<in> set (liability s)) \<and>
     sorted_wrt (\<lambda>x y. tempted (wb_reqs s x) \<and> tempted (wb_reqs s y) \<longrightarrow>
        x \<in> set (liability s) \<and> rq_gen (wb_reqs s x) < rq_gen (wb_reqs s y)) (todo s)"

definition same_data :: "wb_state \<Rightarrow> wb_state \<Rightarrow> bool" where
  "same_data s s' \<longleftrightarrow> fd_err s' = fd_err s \<and> writev_frames s' = writev_frames s \<and> overrun s' = overrun s \<and>
     (\<forall>r. rq_stub (wb_reqs s' r) = rq_stub (wb_reqs s r) \<and> write_size (wb_reqs s' r) = write_size (wb_reqs s r) \<and>
        rq_gen (wb_reqs s' r) = rq_gen (wb_reqs s r) \<and> tempted (wb_reqs s' r) = tempted (wb_reqs s r) \<and>
        winds (wb_reqs s' r) = winds (wb_reqs s r))"

lemma same_data_pending:
  assumes "same_data s s'" "todo s' = todo s"
  shows "pending (s', T', L', B, G, D') = pending (s, T, L, B, G, D)" "view (s', T', L', B, G, D') f = view (s, T, L, B, G, D) f"
proof -
  show "pending (s', T', L', B, G, D') = pending (s, T, L, B, G, D)"
    using assms by (simp add: same_data_def head_group_def split: option.splits)
  then show "view (s', T', L', B, G, D') f = view (s, T, L, B, G, D) f"
    using assms(1) by (auto simp: view_def same_data_def intro!: put_all_cong simp del: pending.simps)
qed

lemma sorted_wrt_weaken:
  "sorted_wrt P xs \<Longrightarrow> (\<And>x y. x \<in> set xs \<Longrightarrow> y \<in> set xs \<Longrightarrow> P x y \<Longrightarrow> Q x y) \<Longrightarrow> sorted_wrt Q xs"
  by (rule sorted_wrt_mono_rel)

lemma flow_keep:
  assumes w: "wb_flow (s, T, L, B, G, D)" and d: "same_data s s'"
    and t: "todo s' = todo s \<or> todo s' = remove1 p (todo s)" and T: "set T' \<subseteq> set T \<union> set (todo s)"
    and pd: "set (pending (s', T', L', B', G, D')) \<subseteq> set (pending (s, T, L, B, G, D))"
    and lt: "\<And>x. x \<in> set (todo s') \<Longrightarrow> x \<in> set (liability s) \<Longrightarrow> x \<in> set (liability s')"
      "\<And>x. x \<in> set (todo s') \<Longrightarrow> x \<in> set (temptation s) \<Longrightarrow> x \<in> set (temptation s') \<or> x \<in> set (liability s')"
  shows "wb_flow (s', T', L', B', G, D')"
proof -
  have q: "rq_stub (wb_reqs s' r) = rq_stub (wb_reqs s r)" "write_size (wb_reqs s' r) = write_size (wb_reqs s r)"
    "rq_gen (wb_reqs s' r) = rq_gen (wb_reqs s r)" "tempted (wb_reqs s' r) = tempted (wb_reqs s r)"
    "winds (wb_reqs s' r) = winds (wb_reqs s r)" for r using d by (simp_all add: same_data_def)
  have td: "set (todo s') \<subseteq> set (todo s)" using t by (auto dest: set_remove1_subset [THEN subsetD])
  have "sorted_wrt (\<lambda>x y. tempted (wb_reqs s x) \<and> tempted (wb_reqs s y) \<longrightarrow>
        x \<in> set (liability s) \<and> rq_gen (wb_reqs s x) < rq_gen (wb_reqs s y)) (todo s')"
    using w t sorted_wrt_remove1 by auto
  then have "sorted_wrt (\<lambda>x y. tempted (wb_reqs s x) \<and> tempted (wb_reqs s y) \<longrightarrow>
        x \<in> set (liability s') \<and> rq_gen (wb_reqs s x) < rq_gen (wb_reqs s y)) (todo s')"
    by (rule sorted_wrt_weaken) (use lt(1) in blast)
  moreover have "\<forall>r \<in> set (pending (s', T', L', B', G, D')). rq_ok (wb_reqs s' r)"
    using w pd by (auto simp: rq_ok_def q simp del: pending.simps)
  moreover have "\<forall>r \<in> set (todo s'). tempted (wb_reqs s r) \<longrightarrow> r \<in> set (temptation s') \<or> r \<in> set (liability s')"
    using w td lt by (simp del: pending.simps) blast
  ultimately show ?thesis using w d td T unfolding wb_flow.simps q by (auto simp: same_data_def simp del: pending.simps)
qed

lemma unref_same_data: "same_data s (wb_request_unref r s)"
  by (simp add: same_data_def unref_reqs)

lemma flow_unref:
  assumes x: "wb_extra r (s, T, L, B, G, D)" and w: "wb_flow (s, T, L, B, G, D)"
  shows "wb_flow (wb_request_unref r s, T, L, B, G, D) \<and> view (wb_request_unref r s, T, L, B, G, D) f = view (s, T, L, B, G, D) f"
proof -
  note u = extra_lists [OF x]
  have t: "todo (wb_request_unref r s) = todo s" "temptation (wb_request_unref r s) = temptation s"
    using u(1) by (simp_all add: only_lists_def)
  have "wb_flow (wb_request_unref r s, T, L, B, G, D)"
    by (rule flow_keep [OF w unref_same_data])
      (auto simp: t u(2) cfg_refs_def same_data_pending(1) [OF unref_same_data t(1), of T L B G D T L D] simp del: pending.simps)
  then show ?thesis using same_data_pending(2) [OF unref_same_data t(1)] by simp
qed


lemma no_overlap_bytes:
  assumes "rng_ok p" "rng_ok q" "\<not> wb_requests_overlap p q"
  shows "wr_bytes p \<inter> wr_bytes q = {}"
proof (rule ccontr)
  assume "wr_bytes p \<inter> wr_bytes q \<noteq> {}"
  then obtain b where b: "b \<in> wr_bytes p" "b \<in> wr_bytes q" by auto
  have "ord_off p \<le> wb_last q" "ord_off q \<le> wb_last p"
    using rng_ok_bytes(2,3) [OF assms(1) b(1)] rng_ok_bytes(2,3) [OF assms(2) b(2)] by (auto simp: word_le_nat_alt)
  then show False using assms(3) by (simp add: wb_requests_overlap_def)
qed

lemma inv_writes:
  assumes "wb_inv (s, T, L, B, G, D)" "wb_ranges s"
  shows "r \<in> set (todo s) \<Longrightarrow> tempted (wb_reqs s r) \<Longrightarrow> rng_ok (wb_reqs s r)"
    "r \<in> set (wip s) \<Longrightarrow> rng_ok (wb_reqs s r)"
proof -
  show "r \<in> set (todo s) \<Longrightarrow> tempted (wb_reqs s r) \<Longrightarrow> rng_ok (wb_reqs s r)"
    using inv_todo_write [OF assms(1)] inv_subset(1) [OF assms(1)] assms(2) by (auto simp: wb_ranges_def)
  show "r \<in> set (wip s) \<Longrightarrow> rng_ok (wb_reqs s r)"
    using wb_invD(5) [OF assms(1)] inv_subset(3) [OF assms(1)] assms(2) by (auto simp: wb_ranges_def)
qed

text \<open>A write that is picked may overtake those in front of it: it overlaps none of them.\<close>

lemma flow_liab:
  assumes i: "wb_inv (s, T, L, B, G, D)" and rg: "wb_ranges s" and w: "wb_flow (s, T, L, B, G, D)"
    and r: "r \<in> set (todo s)" "pickable conf s r" "tempted (wb_reqs s r)"
  shows "wb_flow (picked r s, T, L, B @ [r], G, D) \<and> view (s, T, L, B, G, D) f = view (picked r s, T, L, B @ [r], G, D) f"
proof -
  let ?b = "picked r s" and ?P = "\<lambda>r. tempted (wb_reqs s r)"
  have rc: "0 \<le> rq_refcount (wb_reqs s r)" using inv_refcount [OF i] inv_subset(1) [OF i] r(1) by blast
  note f = picked_fields [OF rc]
  have d: "same_data s ?b" by (auto simp: same_data_def f)
  have qe: "wb_reqs ?b = wb_reqs s" using r(3) by (auto simp: f)
  obtain xs ys where t: "todo s = xs @ r # ys" using r(1) by (meson split_list)
  have dx: "r \<notin> set xs" using wb_invD(2) [OF i] t by auto
  then have t': "todo ?b = xs @ ys" by (simp add: f t remove1_append)
  have g: "head_group ?b G = head_group s G" using qe by (simp add: head_group_def split: option.splits)
  have "rq_ok (wb_reqs s x) \<and> wr_bytes (wb_reqs s x) \<inter> wr_bytes (wb_reqs s r) = {}" if x: "x \<in> set (filter ?P xs)" for x
  proof
    show "rq_ok (wb_reqs s x)" using w x t by simp
    have "x \<in> set (liability s)" "rq_gen (wb_reqs s x) < rq_gen (wb_reqs s r)"
      using w x t r(3) by (auto simp: sorted_wrt_append)
    then have "\<not> wb_requests_overlap (wb_reqs s x) (wb_reqs s r)"
      using r(2) dx x by (auto simp: pickable_def wb_liability_has_conflict_def list_ex_iff wb_requests_conflict_def split: if_splits)
    then show "wr_bytes (wb_reqs s x) \<inter> wr_bytes (wb_reqs s r) = {}"
      using no_overlap_bytes inv_writes(1) [OF i rg] r x t by simp
  qed
  moreover have "rq_ok (wb_reqs s r)" using w r by simp
  ultimately have "put_rq (wb_reqs s r) (put_all s (filter ?P xs) g) = put_all s (filter ?P xs) (put_rq (wb_reqs s r) g)" for g
    by (intro put_all_move) auto
  then have "view (s, T, L, B, G, D) f = view (?b, T, L, B @ [r], G, D) f"
    using t t' qe g r(3) by (simp add: view_def)
  moreover have "wb_flow (?b, T, L, B @ [r], G, D)"
    by (rule flow_keep [OF w d]) (use r in \<open>auto simp: f qe g dest: set_remove1_subset [THEN subsetD]\<close>)
  ultimately show ?thesis by simp
qed

lemma collapse_ok:
  assumes "rq_ok (wb_reqs s h)" "rq_ok (wb_reqs s r)"
  defines "a \<equiv> wb_collapse_small_writes h r s"
  shows "rq_ok (wb_reqs a h)"
    "iov_unload (rq_vector (wb_reqs a h)) = iov_unload (rq_vector (wb_reqs s h)) @ iov_unload (rq_vector (wb_reqs s r))"
proof -
  obtain v where v: "rq_vector (wb_reqs s h) = [v]" "iov_len v = write_size (wb_reqs s h)" "write_size (wb_reqs s h) \<le> length (iov_base v)"
    using assms(1) by (auto simp: rq_ok_def length_Suc_conv)
  obtain u where u: "rq_vector (wb_reqs s r) = [u]" "iov_len u = write_size (wb_reqs s r)" "write_size (wb_reqs s r) \<le> length (iov_base u)"
    using assms(2) by (auto simp: rq_ok_def length_Suc_conv)
  show "rq_ok (wb_reqs a h)"
    "iov_unload (rq_vector (wb_reqs a h)) = iov_unload (rq_vector (wb_reqs s h)) @ iov_unload (rq_vector (wb_reqs s r))"
    using assms(1,2) v u by (auto simp: a_def wb_collapse_small_writes_def Let_def reqs_upd_rq rq_ok_def iov_unload_def)
qed

text \<open>Collapsing a write into the one in front of it.\<close>

lemma flow_collapse:
  assumes i: "wb_inv (s, T, L, B, G, D)" and rg: "wb_ranges s" and w: "wb_flow (s, T, L, B, G, D)"
    and t: "todo s = xs @ h # ys @ r # zs" "\<forall>y \<in> set ys. \<not> tempted (wb_reqs s y)" "tempted (wb_reqs s h)" "tempted (wb_reqs s r)"
    and c: "collapsible conf (wb_reqs s h) (wb_reqs s r)"
  defines "a \<equiv> (wb_collapse_small_writes h r s)\<lparr>todo := xs @ h # ys @ zs\<rparr>"
  shows "wb_flow (a, T, L, B, G, r # D) \<and> view (s, T, L, B, G, D) f = view (a, T, L, B, G, r # D) f"
proof -
  let ?P = "\<lambda>r. tempted (wb_reqs s r)"
  have q: "x \<noteq> h \<Longrightarrow> wb_reqs a x = wb_reqs s x" "tempted (wb_reqs a x) = tempted (wb_reqs s x)"
    "rq_gen (wb_reqs a x) = rq_gen (wb_reqs s x)" "winds (wb_reqs a x) = winds (wb_reqs s x)"
    "st_fop (rq_stub (wb_reqs a x)) = st_fop (rq_stub (wb_reqs s x))" "rq_offset (wb_reqs a h) = rq_offset (wb_reqs s h)" for x
    by (simp_all add: a_def collapse_fields)
  have fl: "todo a = xs @ h # ys @ zs" "temptation a = temptation s" "liability a = liability s" "fd_err a = fd_err s"
    "writev_frames a = writev_frames s" "overrun a = overrun s" by (simp_all add: a_def wb_collapse_small_writes_def Let_def upd_rq_def)
  have hn: "h \<notin> set (xs @ ys @ zs @ B @ head_group s G)" "h \<noteq> r" using wb_invD(2) [OF i] t(1) by auto
  have g: "head_group a G = head_group s G" using q(4) by (simp add: head_group_def split: option.splits)
  have ok: "rq_ok (wb_reqs s h)" "rq_ok (wb_reqs s r)" using w t by simp_all
  note ca = collapse_ok [OF ok]
  have ys: "filter ?P ys = []" using t(2) by simp
  have off: "unat (rq_offset (wb_reqs s r)) = unat (rq_offset (wb_reqs s h)) + write_size (wb_reqs s h)"
    using c inv_writes(1) [OF i rg, of h] t by (simp add: collapsible_def rng_ok_def unat_add_of_nat)
  have "put_rq (wb_reqs a h) k = put_rq (wb_reqs s r) (put_rq (wb_reqs s h) k)" for k
    using ca(2) off rq_ok_data [OF ok(1)] collapse_fields(3) [of h r s] by (simp add: a_def put_append)
  moreover have "put_all a ps k = put_all s ps k" if "h \<notin> set ps" for ps k using that q(1) by (intro put_all_cong) metis
  ultimately have "view (s, T, L, B, G, D) f = view (a, T, L, B, G, r # D) f"
    using hn t g ys by (simp add: view_def fl q)
  moreover have sp: "set (pending (a, T, L, B, G, r # D)) \<subseteq> set (pending (s, T, L, B, G, D))"
    using t(1) by (auto simp: fl q(2) g)
  have "rq_ok (wb_reqs a h)" using ca(1) by (simp add: a_def)
  then have "rq_ok (wb_reqs a x)" if "x \<in> set (pending (a, T, L, B, G, r # D))" for x
    using that w sp q(1) [of x] by (cases "x = h") (auto simp del: pending.simps)
  moreover have "rq_offset (wb_reqs a p) = rq_offset (wb_reqs a k) + of_nat (write_size (wb_reqs a k))"
    if "G = Some k" "p \<in> set (winds (wb_reqs a k))" for k p
  proof -
    have "k \<noteq> h" "p \<noteq> h" using that hn(1) q(4) by (auto simp: head_group_def)
    then show ?thesis using w that q(1) [of k] q(1) [of p] by simp
  qed
  moreover have "sorted_wrt (\<lambda>x y. tempted (wb_reqs s x) \<and> tempted (wb_reqs s y) \<longrightarrow>
        x \<in> set (liability s) \<and> rq_gen (wb_reqs s x) < rq_gen (wb_reqs s y)) (xs @ h # ys @ zs)"
    using w t(1) by (auto simp: sorted_wrt_append)
  ultimately show ?thesis using w t(1) unfolding wb_flow.simps q(2,3,5) fl by (auto simp del: pending.simps)
qed


text \<open>A head is sent with at most one request joined to it, for both start where the head ends.\<close>

lemma flow_group:
  assumes i: "wb_inv (s, T, L, B, Some h, D)" and ord: "wb_order s" and rg: "wb_ranges s" and w: "wb_flow (s, T, L, B, Some h, D)"
  shows "winds (wb_reqs s h) = [] \<or> (\<exists>r. winds (wb_reqs s h) = [r])"
proof (rule ccontr)
  assume "\<not> ?thesis"
  then obtain x y zs where z: "winds (wb_reqs s h) = x # y # zs" by (metis neq_Nil_conv)
  have n: "x \<noteq> y" using wb_invD(2) [OF i] z by (auto simp: head_group_def)
  have wp: "x \<in> set (wip s)" "y \<in> set (wip s)" using wb_invD(4) [OF i] z by (auto simp: head_group_def)
  then have "\<not> wb_requests_overlap (wb_reqs s x) (wb_reqs s y)" using ord n by (auto simp: wb_order_def)
  then have "wr_bytes (wb_reqs s x) \<inter> wr_bytes (wb_reqs s y) = {}"
    using no_overlap_bytes inv_writes(2) [OF i rg] wp by blast
  moreover have "rq_offset (wb_reqs s x) = rq_offset (wb_reqs s y)" "0 < write_size (wb_reqs s x)" "0 < write_size (wb_reqs s y)"
    using w z by (auto simp: head_group_def rq_ok_def)
  ultimately show False by (auto simp: wr_bytes_def)
qed

lemma flow_send:
  assumes i: "wb_inv (s, T, L, B, Some h, D)" and ord: "wb_order s" and rg: "wb_ranges s" and w: "wb_flow (s, T, L, B, Some h, D)"
  defines "b \<equiv> head_sent h (head_loaded h s)"
  shows "wb_flow (b, T, L, B, None, D) \<and> view (s, T, L, B, Some h, D) f = view (b, T, L, B, None, D) (replay [head_event h s] f)"
proof -
  have q: "rq_stub (wb_reqs b x) = rq_stub (wb_reqs s x)" "write_size (wb_reqs b x) = write_size (wb_reqs s x)"
    "rq_gen (wb_reqs b x) = rq_gen (wb_reqs s x)" "tempted (wb_reqs b x) = tempted (wb_reqs s x)"
    "winds (wb_reqs b x) = winds (wb_reqs s x)" for x
    by (simp_all add: b_def head_sent_def head_loaded_def Let_def reqs_upd_rq)
  have fl: "todo b = todo s" "temptation b = temptation s" "liability b = liability s" "fd_err b = fd_err s" "writev_frames b = writev_frames s"
    by (simp_all add: b_def head_sent_def head_loaded_def Let_def)
  have oh: "rq_ok (wb_reqs s h)" using w by (simp add: head_group_def)
  then have lh: "length (rq_vector (wb_reqs s h)) = 1" "length (iov_unload (rq_vector (wb_reqs s h))) = write_size (wb_reqs s h)"
    using rq_ok_data by (auto simp: rq_ok_def)
  have hw: "h \<in> set (wip s)" using wb_invD(4) [OF i] by (simp add: head_group_def)
  have vc: "iov_unload (xs @ ys) = iov_unload xs @ iov_unload ys" for xs ys by (simp add: iov_unload_def)
  have ev: "replay [head_event h s] f = put_all s (h # winds (wb_reqs s h)) f \<and>
      length (concat (map (\<lambda>r. rq_vector (wb_reqs s r)) (h # winds (wb_reqs s h)))) \<le> 2"
  proof (cases "winds (wb_reqs s h) = []")
    case False
    then obtain r where r: "winds (wb_reqs s h) = [r]" using flow_group [OF i ord rg w] by auto
    have "rq_offset (wb_reqs s r) = rq_offset (wb_reqs s h) + of_nat (write_size (wb_reqs s h))" "length (rq_vector (wb_reqs s r)) = 1"
      using w r by (auto simp: head_group_def rq_ok_def)
    moreover from this have "unat (rq_offset (wb_reqs s r)) = unat (rq_offset (wb_reqs s h)) + write_size (wb_reqs s h)"
      using inv_writes(2) [OF i rg hw] by (simp add: rng_ok_def unat_add_of_nat)
    ultimately show ?thesis using r lh by (simp add: head_event_def vc put_append)
  qed (use lh in \<open>simp add: head_event_def\<close>)
  then have "\<not> overrun b" using w by (simp add: b_def head_sent_def head_loaded_def Let_def)
  moreover have "view (s, T, L, B, Some h, D) f = view (b, T, L, B, None, D) (replay [head_event h s] f)"
    using ev put_all_cong [of _ b s] by (simp add: view_def head_group_def fl q)
  ultimately show ?thesis using w by (auto simp: fl q rq_ok_def head_group_def)
qed

lemma replay_flush: "st_fop stub = GF_FOP_FLUSH \<Longrightarrow> replay (wb_flush_helper conf s stub) f = f"
  by (simp add: wb_flush_helper_def split: option.splits)

lemma flow_mstep:
  "wb_mstep conf c ev c' \<Longrightarrow> wb_inv c \<Longrightarrow> wb_order (fst c) \<Longrightarrow> wb_ranges (fst c) \<Longrightarrow> wb_flow c \<Longrightarrow>
     wb_flow c' \<and> view c f = view c' (replay ev f)"
proof (induction rule: wb_mstep.induct)
  case (m_go r s T L B G D)
  have d: "same_data s (set_go r s)" "todo (set_go r s) = todo s" by (auto simp: same_data_def set_go_def reqs_upd_rq)
  have "wb_flow (set_go r s, T, L, B, G, D)"
    by (rule flow_keep [OF m_go(6) d(1)])
      (use same_data_pending(1) [OF d, of T L B G D T L D] in \<open>auto simp: set_go_def simp del: pending.simps\<close>)
  then show ?case using same_data_pending(2) [OF d, of T L B G D f T L D] by simp
next
  case (m_collapse s xs h ys r zs T L B G D)
  then show ?case using flow_collapse [of s T L B G D xs h ys r zs conf f] by simp
next
  case (m_settle s T L B G r D)
  have d: "same_data s (fulfil_mark r s)" "todo (fulfil_mark r s) = todo s" by (auto simp: same_data_def fulfil_mark_def reqs_upd_rq)
  have "wb_flow (fulfil_mark r s, T, L, B, G, D)"
    by (rule flow_keep [OF m_settle(4) d(1)])
      (use same_data_pending(1) [OF d, of T L B G D T L "r # D"] in \<open>auto simp: fulfil_mark_def simp del: pending.simps\<close>)
  then show ?case using flow_unref [OF settle_extra [OF m_settle(1)]] same_data_pending(2) [OF d, of T L B G D f T L "r # D"]
    by (simp add: fulfill_request_eq)
next
  case (m_task r s T L B G D)
  have rc: "0 \<le> rq_refcount (wb_reqs s r)" using inv_refcount [OF m_task(4)] inv_subset(1) [OF m_task(4)] m_task(1) by blast
  note f = picked_fields [OF rc]
  have d: "same_data s (picked r s)" by (auto simp: same_data_def f)
  have g: "head_group (picked r s) G = head_group s G" by (auto simp: head_group_def f split: option.splits)
  have p: "pending (picked r s, T @ [r], L, B, G, D) = pending (s, T, L, B, G, D)"
    using m_task(3) d by (simp add: g same_data_def) (simp add: f filter_remove1_not)
  have "wb_flow (picked r s, T @ [r], L, B, G, D)"
    by (rule flow_keep [OF m_task(7) d]) (use m_task(1) p in \<open>auto simp: f simp del: pending.simps\<close>)
  moreover have "put_all (picked r s) rs f = put_all s rs f" for rs using d by (intro put_all_cong) (simp add: same_data_def)
  ultimately show ?case using p by (simp add: view_def del: pending.simps)
next
  case (m_liab r s T L B G D)
  then show ?case using flow_liab [of s T L B G D r conf f] by simp
next
  case (m_lie r s T L B G D)
  have d: "same_data s (lie_to r s)" "todo (lie_to r s) = todo s" by (auto simp: same_data_def lie_fields)
  have "fulfilled (wb_reqs s r) \<Longrightarrow> r \<notin> set (todo s)"
    using wb_invD(6) [OF m_lie(3)] wb_invD(5) [OF m_lie(3)] inv_subset(2) [OF m_lie(3)] m_lie(1) by auto
  moreover have "set (remove1 r (temptation s)) = set (temptation s) - {r}" using wb_invD(4) [OF m_lie(3)] by simp
  ultimately have "wb_flow (lie_to r s, T, L @ [r], B, G, D)"
    by (intro flow_keep [OF m_lie(6) d(1)])
      (use same_data_pending(1) [OF d, of T "L @ [r]" B G D T L D] in \<open>auto simp: lie_fields simp del: pending.simps\<close>)
  then show ?case using same_data_pending(2) [OF d, of T "L @ [r]" B G D f T L D] by simp
next
  case (m_unwind s T r L B G D)
  have "wb_flow (s, T, L, B, G, D)" "view (s, T, r # L, B, G, D) f = view (s, T, L, B, G, D) f"
    using m_unwind(4) by (simp_all add: view_def)
  then show ?case using flow_unref [OF unwind_extra [OF m_unwind(1)]] by simp
next
  case (m_wind r s s' ev T L B G D)
  have "\<not> is_write s r" using m_wind(5) wb_invD(5) [OF m_wind(2)] by auto
  then have s: "s' = s" "replay ev f = f"
    using m_wind(1) replay_flush by (auto simp: call_resume_def Let_def split: wb_fop.splits)
  have "wb_flow (s, T, L, B, G, D)" "view (s, r # T, L, B, G, D) f = view (s, T, L, B, G, D) f"
    using m_wind(5) by (simp_all add: view_def)
  then show ?case using flow_unref [OF wind_extra [OF m_wind(2,1)]] s by simp
next
  case (m_head s T L r B D)
  have "winds (wb_reqs s r) = []" using wb_invD(4) [OF m_head(1)] by simp
  then show ?case using m_head(4) by (simp add: view_def head_group_def)
next
  case (m_join s r h T L B D)
  let ?b = "upd_rq h (\<lambda>q. q\<lparr>winds := list_add_tail r (winds q)\<rparr>) s"
  have q: "rq_stub (wb_reqs ?b x) = rq_stub (wb_reqs s x)" "write_size (wb_reqs ?b x) = write_size (wb_reqs s x)"
    "rq_gen (wb_reqs ?b x) = rq_gen (wb_reqs s x)" "tempted (wb_reqs ?b x) = tempted (wb_reqs s x)"
    "winds (wb_reqs ?b h) = winds (wb_reqs s h) @ [r]" for x by (simp_all add: reqs_upd_rq list_add_tail_def)
  have fd: "fd_err ?b = fd_err s" by simp
  have "view (s, T, L, r # B, Some h, D) f = view (?b, T, L, B, Some h, D) f"
    using put_all_cong [of _ ?b s] by (simp add: view_def head_group_def q)
  moreover have "wb_flow (?b, T, L, B, Some h, D)"
    using m_join(3,7) by (auto simp: q rq_ok_def head_group_def)
  ultimately show ?case by simp
next
  case (m_send s h T L B D)
  then show ?case using flow_send [of s T L B h D f] by simp
next
  case (m_drop s h T L B D)
  then show ?case by (auto simp: wb_fd_err_def split: bind_splits)
qed

section \<open>Calls\<close>

lemma fd_err_mstep: "wb_mstep conf c ev c' \<Longrightarrow> fd_err (fst c') = fd_err (fst c)"
  by (induction rule: wb_mstep.induct)
    (auto simp: set_go_def wb_collapse_small_writes_def fulfill_request_eq fulfil_mark_def picked_def lie_to_def
      head_sent_def head_loaded_def wb_request_ref_def call_resume_def Let_def upd_rq_def split: wb_fop.splits)

lemma fd_err_msteps: "wb_msteps conf c ev c' \<Longrightarrow> fd_err (fst c') = fd_err (fst c)"
  by (induction rule: wb_msteps.induct) (auto dest: fd_err_mstep)

lemma flow_msteps:
  "wb_msteps conf c ev c' \<Longrightarrow> wb_inv c \<Longrightarrow> wb_order (fst c) \<Longrightarrow> wb_ranges (fst c) \<Longrightarrow> wb_flow c \<Longrightarrow>
     wb_flow c' \<and> view c f = view c' (replay ev f)"
proof (induction arbitrary: f rule: wb_msteps.induct)
  case (ms_step c ev c' ev' c'')
  then show ?case
    using flow_mstep [OF ms_step(1,4-7)] wb_inv_mstep [OF ms_step(1,4)] order_mstep [OF ms_step(1,4,5)]
      ranges_mstep [OF ms_step(1,4,6)] by simp
qed simp

text \<open>Calls that change the file only by buffered writes of one piece at the offset they name,
  and states in which every caller has been answered and no descriptor has failed.\<close>

definition wb_plain :: "wb_conf \<Rightarrow> wb_call \<Rightarrow> bool" where
  "wb_plain conf c \<longleftrightarrow>
     (case c of
        Call fop a \<Rightarrow> fop \<noteq> GF_FOP_TRUNCATE \<and> fop \<noteq> GF_FOP_FTRUNCATE \<and>
          (fop = GF_FOP_WRITE \<longrightarrow> \<not> wb_disabled conf a \<and> st_fd_flags a AND O_APPEND = 0 \<and>
             length (st_vector a) = 1 \<and> 0 < iov_length (st_vector a))
      | _ \<Rightarrow> True)"

definition wb_clean :: "wb_state \<Rightarrow> bool" where
  "wb_clean s \<longleftrightarrow> temptation s = [] \<and> fd_err s = (\<lambda>_. None)"

lemma flow_create:
  assumes "wb_idle s" "wb_flow (idle s)"
  shows "wb_flow (idle (wb_inode_create conf s)) \<and> view (idle (wb_inode_create conf s)) f = view (idle s) f"
  using wb_idle_empty [OF assms(1)] assms(2)
  by (cases "wb_present s") (auto simp: wb_inode_create_def view_def head_group_def)

lemma flow_enqueue:
  assumes g: "wb_idle s" "wb_order s" and w: "wb_flow (idle s)" "temptation s = []"
    and c: "wb_plain conf (Call fop a)" "wb_enabled s1 (Call fop a)" "t \<longleftrightarrow> fop = GF_FOP_WRITE \<and> \<not> wb_disabled conf a"
  defines "b \<equiv> wb_enqueue_common s (a\<lparr>st_fop := fop\<rparr>) t"
  shows "wb_flow (idle b) \<and> view (idle b) f = intended [Call fop a] (view (idle s) f)"
proof -
  let ?r = "wb_next s"
  note e = enqueue_fields [of s "a\<lparr>st_fop := fop\<rparr>" t, folded b_def]
  have n: "?r \<notin> set (todo s)" using wb_invD(1) [OF g(1)] by (auto simp: wb_acct_def cfg_refs_def)
  have q: "x \<in> set (todo s) \<Longrightarrow> wb_reqs b x = wb_reqs s x" for x using n by (auto simp: e(1))
  have nr: "tempted (wb_reqs b ?r) = t" "rq_gen (wb_reqs b ?r) = wb_gen s" "rq_stub (wb_reqs b ?r) = a\<lparr>st_fop := fop\<rparr>"
    by (simp_all add: e(1))
  have tw: "t \<longleftrightarrow> fop = GF_FOP_WRITE" using c(1,3) by (auto simp: wb_plain_def)
  have ok: "t \<Longrightarrow> rq_ok (wb_reqs b ?r)"
    using c(1,2) tw by (auto simp: wb_plain_def wb_enabled_def e(1) rq_ok_def wb_new_request_def Let_def iov_length_def length_Suc_conv)
  have ft: "filter (\<lambda>r. tempted (wb_reqs b r)) (todo s) = filter (\<lambda>r. tempted (wb_reqs s r)) (todo s)"
    by (rule filter_cong) (simp_all add: q)
  have p: "pending (idle b) = pending (idle s) @ (if t then [?r] else [])" by (simp add: e(2) ft nr head_group_def)
  have "put_all b (pending (idle s)) k = put_all s (pending (idle s)) k" for k
    by (rule put_all_cong) (auto simp: q head_group_def)
  then have "view (idle b) f = intended [Call fop a] (view (idle s) f)"
    using tw nr(3) unfolding view_def p by (cases fop) (simp_all del: pending.simps)
  moreover have "\<forall>x \<in> set (todo s). tempted (wb_reqs s x) \<longrightarrow> x \<in> set (liability s) \<and> rq_gen (wb_reqs s x) < wb_gen s"
    using w g(2) by (auto simp: wb_order_def)
  moreover have "\<forall>x \<in> set (pending (idle b)). rq_ok (wb_reqs b x)"
    using w(1) ok q unfolding p by (auto simp: head_group_def)
  moreover have "sorted_wrt (\<lambda>x y. tempted (wb_reqs b x) \<and> tempted (wb_reqs b y) \<longrightarrow>
        x \<in> set (liability s) \<and> rq_gen (wb_reqs b x) < rq_gen (wb_reqs b y)) (todo s)"
    by (rule sorted_wrt_weaken [of "\<lambda>x y. tempted (wb_reqs s x) \<and> tempted (wb_reqs s y) \<longrightarrow>
        x \<in> set (liability s) \<and> rq_gen (wb_reqs s x) < rq_gen (wb_reqs s y)"]) (use w(1) q in auto)
  ultimately show ?thesis using w(1) tw
    by (simp add: e(2-16) q nr sorted_wrt_append del: pending.simps)
qed

lemma flow_reply:
  fixes h :: addr and ret e :: int
  assumes g: "wb_good s" and w: "wb_flow (idle s)" and f: "fd_err (wb_replied h ret e s) = (\<lambda>_. None)"
  defines "a \<equiv> wb_replied h ret e s" and "D \<equiv> winds (wb_reqs s h) @ [h]"
  shows "wb_order a" "wb_ranges a" "wb_flow (a, [], [], [], None, D)" "view (a, [], [], [], None, D) k = view (idle s) k"
proof -
  show "wb_flow (a, [], [], [], None, D)" using w f by (simp add: a_def replied_fields replied_reqs rq_ok_def head_group_def)
  show "wb_order a" "wb_ranges a"
    using g wb_order_cong [of a s] wb_ranges_mono [of s a] by (simp_all add: a_def wb_good_def replied_fields replied_reqs)
  have "rq_stub (wb_reqs a x) = rq_stub (wb_reqs s x)" for x by (simp add: a_def replied_reqs)
  then show "view (a, [], [], [], None, D) k = view (idle s) k"
    using put_all_cong [of _ a s] by (simp add: view_def head_group_def a_def replied_fields replied_reqs)
qed

lemma flow_exec:
  assumes g: "wb_good s" and w: "wb_flow (idle s)" "temptation s = []"
    and e: "wb_exec conf c s = (s', ev)" "wb_enabled s c" and c: "wb_plain conf c" and cl: "fd_err s' = (\<lambda>_. None)"
  shows "wb_flow (idle s') \<and> view (idle s') (replay ev f) = intended [c] (view (idle s) f)"
proof -
  have i: "wb_idle s" "wb_order s" "wb_ranges s" using g by (auto simp: wb_good_def)
  have st: "wb_flow (idle s') \<and> view (idle s') (replay ev' f) = view c0 f"
    if "wb_msteps conf c0 ev' (idle s')" "wb_inv c0" "wb_order (fst c0)" "wb_ranges (fst c0)" "wb_flow c0" for c0 ev'
    using flow_msteps [OF that] by simp
  show ?thesis using e
  proof (cases rule: wb_exec_cases)
    case (queued fop a s0 t)
    have s0: "wb_idle s0" "wb_flow (idle s0)" "view (idle s0) f = view (idle s) f" "temptation s0 = []" "wb_good s0"
      using queued(2) i w g wb_idle_create [OF i(1)] flow_create [OF i(1) w(1)] wb_good_create [OF g]
      by (simp_all del: wb_flow.simps) (simp add: wb_inode_create_def)
    let ?b = "wb_enqueue_common s0 (a\<lparr>st_fop := fop\<rparr>) t"
    have o: "wb_order s0" using s0(5) by (simp add: wb_good_def)
    have fe: "wb_flow (idle ?b)" "view (idle ?b) f = intended [c] (view (idle s) f)"
      using flow_enqueue [OF s0(1) o s0(2,4), of conf fop a s t f] queued(1,4) e(2) c s0(3) by simp_all
    have gb: "wb_good ?b" using wb_good_enqueue [OF s0(5) queued(3), of s fop a t] queued(1,4) e(2) by simp
    then have ib: "wb_idle ?b" "wb_order ?b" "wb_ranges ?b" by (auto simp: wb_good_def)
    show ?thesis using st [OF process_queue_steps [OF queued(5) wb_idle_lists [OF ib(1)]]] ib fe by simp
  next
    case (refused fop a e)
    then show ?thesis using w(1) by (auto simp: wb_fd_err_def split: bind_splits)
  next
    case (forwarded fop a)
    then show ?thesis using w(1) by (cases fop) (auto simp del: wb_flow.simps)
  next
    case (fulfilled h ret errno)
    note r = replied_steps [OF i(1) fulfilled(2,3)]
    have "fd_err (wb_replied h ret errno s) = (\<lambda>_. None)" using fd_err_msteps [OF r(2)] cl by simp
    note fr = flow_reply [OF g w(1) this]
    show ?thesis using st [OF r(2,1)] fr fulfilled(1) by (simp del: wb_flow.simps)
  next
    case (written r ret errno ev0)
    then show ?thesis using w(1) by simp
  next
    case (resized z)
    then show ?thesis using w(1) by (auto simp: view_def head_group_def)
  next
    case (released fd)
    then show ?thesis using w(1) by (auto simp: view_def head_group_def wb_release_def)
  qed
qed

end
