(* ===== verification/Write_Behind_Quiet.thy ===== *)
theory Write_Behind_Quiet
  imports Write_Behind_Content
begin

text \<open>
  Progress of the write-behind translator: while nothing is with the child, nothing stays in the
  list of things to do. The account of bytes in transit is what lets the last buffered write go.
\<close>

section \<open>Bytes in transit\<close>

fun wb_transit :: "wb_cfg \<Rightarrow> bool" where
  "wb_transit (s, T, L, B, G, D) \<longleftrightarrow> transit s = sum_ts s (fulfill_frames s @ D)"

lemma transit_keep:
  "wb_transit (s, T, L, B, G, D) \<Longrightarrow> transit s' = transit s \<Longrightarrow> fulfill_frames s' = fulfill_frames s \<Longrightarrow>
     (\<And>x. total_size (wb_reqs s' x) = total_size (wb_reqs s x)) \<Longrightarrow> wb_transit (s', T', L', B', G', D)"
  by simp

lemma picked_total: "total_size (wb_reqs (picked r s) x) = total_size (wb_reqs s x)" "transit (picked r s) = transit s"
  "fulfill_frames (picked r s) = fulfill_frames s"
  by (simp_all add: picked_def Let_def wb_request_ref_def reqs_upd_rq)

lemma transit_mstep:
  "wb_mstep conf c ev c' \<Longrightarrow> wb_inv c \<Longrightarrow> wb_totals c \<Longrightarrow> wb_flow c \<Longrightarrow> wb_transit c \<Longrightarrow> wb_transit c'"
proof (induction rule: wb_mstep.induct)
  case (m_collapse s xs h ys r zs T L B G D)
  have "total_size (wb_reqs s r) = 0" using m_collapse(1,8) by simp
  then show ?case using m_collapse(10) by (simp add: collapse_fields) (simp add: wb_collapse_small_writes_def Let_def)
next
  case (m_settle s T L B G r D)
  have "total_size (wb_reqs (wb_fulfill_request r s) x) = total_size (wb_reqs s x)" for x by (simp add: fulfill_request_reqs)
  then show ?case using m_settle(4) by simp (simp add: fulfill_request_eq fulfil_mark_def)
next
  case (m_send s h T L B D)
  have h: "h \<notin> set (fulfill_frames s @ D)" using wb_invD(2) [OF m_send(2)] by (auto simp: head_group_def flight_def)
  have "sum_ts (head_loaded h s) (fulfill_frames s @ D) = sum_ts s (fulfill_frames s @ D)"
    by (intro sum_list_other [OF h]) (simp add: head_loaded_def Let_def reqs_upd_rq)
  moreover have "transit (head_loaded h s) = transit s" by (simp add: head_loaded_def Let_def)
  ultimately show ?case using m_send(5) by (simp add: head_sent_def list_add_tail_def loaded_fields)
next
  case (m_drop s h T L B D)
  then show ?case by (auto simp: wb_fd_err_def split: bind_splits)
qed (erule transit_keep; auto simp: set_go_def reqs_upd_rq lie_fields picked_total unref_reqs call_resume_def Let_def split: wb_fop.splits)+

text \<open>What holds throughout the processing of the queue when no descriptor has failed.\<close>

definition wb_sound :: "wb_cfg \<Rightarrow> bool" where
  "wb_sound c \<longleftrightarrow> wb_inv c \<and> wb_order (fst c) \<and> wb_ranges (fst c) \<and> wb_flow c \<and> wb_totals c \<and> wb_window c \<and> wb_transit c"

lemma sound_mstep: "wb_mstep conf c ev c' \<Longrightarrow> wb_sound c \<Longrightarrow> wb_sound c'"
  unfolding wb_sound_def by (meson wb_inv_mstep order_mstep ranges_mstep flow_mstep account_mstep transit_mstep)

lemma sound_msteps: "wb_msteps conf c ev c' \<Longrightarrow> wb_sound c \<Longrightarrow> wb_sound c'"
  by (erule ms_invariant) (auto intro: sound_mstep)

lemma frames_mstep: "wb_mstep conf c ev c' \<Longrightarrow> set (fulfill_frames (fst c)) \<subseteq> set (fulfill_frames (fst c'))"
  by (induction rule: wb_mstep.induct)
    (auto simp: set_go_def wb_collapse_small_writes_def fulfill_request_eq fulfil_mark_def picked_def lie_to_def list_add_tail_def
      head_sent_def head_loaded_def wb_request_ref_def call_resume_def Let_def upd_rq_def split: wb_fop.splits)

lemma frames_msteps: "wb_msteps conf c ev c' \<Longrightarrow> set (fulfill_frames (fst c)) \<subseteq> set (fulfill_frames (fst c'))"
  by (induction rule: wb_msteps.induct) (auto dest: frames_mstep [THEN subsetD])

section \<open>Nothing is left behind\<close>

text \<open>After the first loop every buffered write is allowed to go, the last one perhaps excepted.\<close>

lemma preprocess_loop_go:
  assumes "wb_preprocess_loop conf rs holder s = (holder', s')" "wb_lists s" "todo s = ds @ rs"
    "\<forall>x \<in> set ds. tempted (wb_reqs s x) \<longrightarrow> go (wb_reqs s x) \<or> holder = Some x"
  shows "(\<forall>x \<in> set (todo s'). tempted (wb_reqs s' x) \<longrightarrow> go (wb_reqs s' x) \<or> holder' = Some x) \<and>
    fulfill_frames s' = fulfill_frames s \<and> set (wip s') \<subseteq> set (wip s)"
  using assms
proof (induction conf rs holder s arbitrary: ds rule: wb_preprocess_loop.induct)
  case (1 conf holder s)
  then show ?case by auto
next
  case (2 conf r rs holder s)
  have go: "go (wb_reqs (set_go h s) x) = (x = h \<or> go (wb_reqs s x))" "tempted (wb_reqs (set_go h s) x) = tempted (wb_reqs s x)"
    "todo (set_go h s) = todo s" "fulfill_frames (set_go h s) = fulfill_frames s" "wip (set_go h s) = wip s"
    "wb_lists (set_go h s) = wb_lists s" for h x
    by (auto simp: set_go_def reqs_upd_rq)
  consider (task) "\<not> tempted (wb_reqs s r)" | (first) "tempted (wb_reqs s r)" "holder = None"
    | (other) h where "tempted (wb_reqs s r)" "holder = Some h" "\<not> collapsible conf (wb_reqs s h) (wb_reqs s r)"
    | (join) h where "tempted (wb_reqs s r)" "holder = Some h" "collapsible conf (wb_reqs s h) (wb_reqs s r)"
    by (cases holder) auto
  then show ?case
  proof cases
    case task
    let ?s1 = "case holder of None \<Rightarrow> s | Some h \<Rightarrow> if wb_requests_conflict conf s h r then set_go h s else s"
    have e: "wb_preprocess_loop conf rs holder ?s1 = (holder', s')" using 2(5) task by simp
    have "wb_lists ?s1" "todo ?s1 = (ds @ [r]) @ rs" "fulfill_frames ?s1 = fulfill_frames s" "wip ?s1 = wip s"
      using 2(6,7) by (auto simp: go split: option.splits)
    moreover have "\<forall>x \<in> set (ds @ [r]). tempted (wb_reqs ?s1 x) \<longrightarrow> go (wb_reqs ?s1 x) \<or> holder = Some x"
      using 2(8) task by (auto simp: go split: option.splits)
    ultimately show ?thesis using 2(1) [OF task e, of "ds @ [r]"] by simp
  next
    case first
    then show ?thesis using 2(2) [OF _ first(2), of "ds @ [r]"] 2(5-8) by auto
  next
    case other
    then have e: "wb_preprocess_loop conf rs (Some r) (set_go h s) = (holder', s')"
      using 2(5) by (auto simp: collapsible_def Let_def split: if_splits)
    have c: "rq_offset (wb_reqs s r) \<noteq> rq_offset (wb_reqs s h) + of_nat (write_size (wb_reqs s h))
        \<or> \<not> is_same_lkowner (rq_owner (wb_reqs s r)) (rq_owner (wb_reqs s h)) \<or> rq_fd (wb_reqs s r) \<noteq> rq_fd (wb_reqs s h)
        \<or> int (page_size conf) - int (write_size (wb_reqs s h)) < int (write_size (wb_reqs s r))"
      using other(3) by (auto simp: collapsible_def)
    show ?thesis using 2(3) [OF _ other(2) refl refl c e, of "ds @ [r]"] 2(6-8) other(1,2) by (auto simp: go)
  next
    case join
    let ?s0 = "wb_collapse_small_writes h r s" let ?s1 = "?s0\<lparr>todo := remove1 r (todo ?s0)\<rparr>"
    let ?s2 = "wb_fulfill_request r ?s1"
    have c: "\<not> (rq_offset (wb_reqs s r) \<noteq> rq_offset (wb_reqs s h) + of_nat (write_size (wb_reqs s h))
        \<or> \<not> is_same_lkowner (rq_owner (wb_reqs s r)) (rq_owner (wb_reqs s h)) \<or> rq_fd (wb_reqs s r) \<noteq> rq_fd (wb_reqs s h)
        \<or> int (page_size conf) - int (write_size (wb_reqs s h)) < int (write_size (wb_reqs s r)))"
      using join(3) by (auto simp: collapsible_def)
    have e: "wb_preprocess_loop conf rs (Some h) ?s2 = (holder', s')" using 2(5) join c by (simp add: Let_def)
    have t0: "todo ?s0 = ds @ r # rs" using 2(7) by (simp add: wb_collapse_small_writes_def Let_def)
    have rn: "r \<notin> set ds" "r \<notin> set rs" using 2(6,7) by (auto simp: wb_lists_def)
    then have t1: "todo ?s1 = ds @ rs" using t0 by (simp add: remove1_append)
    then have t2: "todo ?s2 = ds @ rs" using todo_fulfill_request_id [of r ?s1] rn by simp
    have l1: "wb_lists ?s1" using 2(6,7) t1 by (auto simp: wb_lists_def wb_collapse_small_writes_def Let_def)
    have q: "tempted (wb_reqs ?s2 x) = tempted (wb_reqs s x)" "go (wb_reqs ?s2 x) = go (wb_reqs s x)" for x
      by (simp_all add: fulfill_request_reqs collapse_fields)
    have "set (wip ?s2) \<subseteq> set (wip ?s1)"
      by (auto simp: wb_fulfill_request_def wb_request_unref_def wb_request_free_def Let_def dest: set_remove1_subset [THEN subsetD])
    then have f: "fulfill_frames ?s2 = fulfill_frames s" "set (wip ?s2) \<subseteq> set (wip s)"
      by (simp_all add: fulfill_request_eq fulfil_mark_def wb_collapse_small_writes_def Let_def)
    show ?thesis
      using 2(4) [OF _ join(2) refl refl c refl refl, of ds] join(1,2) e wb_lists_fulfill_request [OF l1] t2 2(8) f by (simp add: q) blast
  qed
qed


text \<open>With nothing in progress the front of the list can always be picked, so that either a
  buffered write is picked or nothing stays in the list.\<close>

lemma pick_quiet:
  assumes "wb_pick_winds_loop conf rs s = (s', tasks, liabs)" "todo s = rs" "wip s = []" "distinct rs"
    "\<forall>r \<in> set rs. (tempted (wb_reqs s r) \<longrightarrow> go (wb_reqs s r)) \<and> (is_write s r \<longrightarrow> tempted (wb_reqs s r)) \<and> 0 \<le> rq_refcount (wb_reqs s r)"
    "\<forall>l \<in> set (liability s). l \<in> set rs \<and> tempted (wb_reqs s l)"
    "sorted_wrt (\<lambda>x y. rq_gen (wb_reqs s x) \<le> rq_gen (wb_reqs s y)) rs"
  shows "liabs \<noteq> [] \<or> todo s' = []"
  using assms
proof (induction rs arbitrary: s s' tasks liabs)
  case (Cons r rs)
  have "\<not> wb_requests_conflict conf s l r" if "l \<in> set (liability s)" for l
    using Cons.prems(6,7) that by (auto simp: wb_requests_conflict_def)
  then have "\<not> wb_liability_has_conflict conf s r" by (auto simp: wb_liability_has_conflict_def list_ex_iff)
  then have p: "pickable conf s r" using Cons.prems(3,5) by (simp add: pickable_def wb_wip_has_conflict_def)
  obtain s1 ta li where l: "wb_pick_winds_loop conf rs (picked r s) = (s1, ta, li)" by (metis prod_cases3)
  show ?case
  proof (cases "tempted (wb_reqs s r)")
    case True
    then show ?thesis using Cons.prems(1) p l by (auto simp: pickable_def picked_def Let_def split: if_splits prod.splits)
  next
    case False
    have e: "s' = s1" "liabs = li" using Cons.prems(1) p l False by (auto simp: pickable_def picked_def Let_def split: if_splits prod.splits)
    have rc: "0 \<le> rq_refcount (wb_reqs s r)" "\<not> is_write s r" using Cons.prems(5) False by auto
    note f = picked_fields [OF rc(1)]
    have q: "wb_reqs (picked r s) = wb_reqs s" using rc(2) by (auto simp: f)
    have "li \<noteq> [] \<or> todo s1 = []"
      by (rule Cons.IH [OF l]) (use Cons.prems False rc(2) in \<open>auto simp: f(2-4) q\<close>)
    then show ?thesis using e by simp
  qed
qed simp

lemma fulfill_head_frames:
  assumes "wb_fulfill_head h s = (s', ev, ret)" "fd_err s = (\<lambda>_. None)"
  shows "\<not> ret" "fd_err s' = (\<lambda>_. None)" "fulfill_frames s' = fulfill_frames s @ [h]"
  using assms by (cases rule: fulfill_head_cases;
    auto simp: wb_fd_err_def head_sent_def head_loaded_def Let_def list_add_tail_def upd_rq_def split: bind_splits)+

lemma fulfill_loop_frames:
  "wb_fulfill_loop conf rs acc s = (s', ev, ret) \<Longrightarrow> fd_err s = (\<lambda>_. None) \<Longrightarrow>
     \<not> ret \<and> (rs \<noteq> [] \<or> acc \<noteq> None \<or> fulfill_frames s \<noteq> [] \<longrightarrow> fulfill_frames s' \<noteq> [])"
proof (induction conf rs acc s arbitrary: s' ev ret rule: wb_fulfill_loop.induct)
  case (2 conf head exp agg cnt s)
  then show ?case using fulfill_head_frames by fastforce
next
  case (4 conf r rs head exp agg cnt s)
  let ?q = "wb_reqs s r" and ?h = "wb_reqs s head"
  let ?new = "rq_fd ?q \<noteq> rq_fd ?h \<or> \<not> is_same_lkowner (rq_owner ?q) (rq_owner ?h) \<or> exp \<noteq> rq_offset ?q
    \<or> agg + write_size ?q > aggregate_size conf \<or> cnt + length (rq_vector ?q) > MAX_VECTOR_COUNT"
  show ?case
  proof (cases ?new)
    case True
    obtain s1 ev1 r1 where h: "wb_fulfill_head head s = (s1, ev1, r1)" by (metis prod_cases3)
    let ?acc = "Some (r, rq_offset ?q + of_nat (write_size ?q), 0::nat, 0::nat)"
    obtain s2 ev2 r2 where l: "wb_fulfill_loop conf rs ?acc s1 = (s2, ev2, r2)" by (metis prod_cases3)
    have e: "s' = s2" "ret = (r1 \<or> r2)" using 4(3) True h l by (auto simp: Let_def)
    show ?thesis using 4(1) [OF refl refl True h [symmetric] refl refl l] fulfill_head_frames [OF h 4(4)] e by simp
  next
    case False
    then show ?thesis using 4(2) [OF refl refl False] 4(3,4) by (simp add: Let_def)
  qed
qed auto

lemma sound_idle_lists: "wb_sound (idle s) \<Longrightarrow> wb_lists s"
  by (auto simp: wb_sound_def intro: wb_idle_lists)

text \<open>The list of all requests when nothing is with the child.\<close>

lemma quiet_lists:
  assumes s: "wb_sound (idle s)" and f: "fulfill_frames s = []"
  shows "set (liability s) \<subseteq> set (todo s)" "set (temptation s) \<subseteq> set (todo s) \<Longrightarrow> wip s = []" "transit s = 0"
proof -
  have i: "wb_idle s" "wb_flow (idle s)" "wb_transit (idle s)" using s by (auto simp: wb_sound_def simp del: wb_flow.simps wb_transit.simps)
  have "flight s = []" "writev_frames s = []" using f i(2) by (simp_all add: flight_def)
  then have r: "set (liability s) \<union> set (wip s) \<subseteq> set (todo s) \<union> set (temptation s)"
    using wb_invD(1) [OF i(1)] by (auto simp: wb_acct_def cfg_refs_def head_group_def)
  then show "set (liability s) \<subseteq> set (todo s)" using wb_invD(4) [OF i(1)] by auto
  have "set (wip s) \<inter> set (todo s) = {}" using wb_invD(4) [OF i(1)] by simp
  then show "set (temptation s) \<subseteq> set (todo s) \<Longrightarrow> wip s = []" using r by (cases "wip s") auto
  show "transit s = 0" using i(3) f by simp
qed

lemma quiet_preprocess:
  assumes s: "wb_sound (idle s)" and t: "set (temptation s) \<subseteq> set (todo s)" and tw: "trickling_writes conf"
    and f: "fulfill_frames s = []"
  defines "a \<equiv> wb_preprocess_winds conf s"
  shows "wip a = []" "\<forall>r \<in> set (todo a). tempted (wb_reqs a r) \<longrightarrow> go (wb_reqs a r)"
proof -
  note l = sound_idle_lists [OF s]
  obtain hol s1 where e: "wb_preprocess_loop conf (todo s) None s = (hol, s1)" by (metis prod.exhaust)
  have st: "wb_msteps conf (idle s) [] (idle s1)"
    using preprocess_loop_steps [OF e l, of "[]" "[]" "[]" "[]" None "[]"] by simp
  have g: "\<forall>x \<in> set (todo s1). tempted (wb_reqs s1 x) \<longrightarrow> go (wb_reqs s1 x) \<or> hol = Some x" "fulfill_frames s1 = []" "wip s1 = []"
    using preprocess_loop_go [OF e l, of "[]"] f quiet_lists(2) [OF s f t] by simp_all
  have "transit s1 = 0" using quiet_lists(3) [OF sound_msteps [OF st s] g(2)] .
  then have "a = (case hol of None \<Rightarrow> s1 | Some h \<Rightarrow> set_go h s1)"
    using e tw by (simp add: a_def wb_preprocess_winds_def split: option.splits)
  then show "wip a = []" "\<forall>r \<in> set (todo a). tempted (wb_reqs a r) \<longrightarrow> go (wb_reqs a r)"
    using g by (auto simp: set_go_def reqs_upd_rq split: option.splits)
qed

lemma quiet_once:
  assumes s: "wb_sound (idle s)" and t: "set (temptation s) \<subseteq> set (todo s)" and tw: "trickling_writes conf"
    and o: "wb_process_once conf s = (s', ev, ret)"
  shows "\<not> ret \<and> (fulfill_frames s' = [] \<longrightarrow> todo s' = [])"
  using o sound_idle_lists [OF s]
proof (rule process_once_stages)
  let ?a = "wb_preprocess_winds conf s"
  fix b T B c L d ev1 e ev2 ev3
  assume p: "wb_pick_winds conf ?a = (b, T, B)" "wb_pick_unwinds b = (c, L)" "wb_do_unwinds L c = (d, ev1)"
      "wb_do_winds conf T d = (e, ev2)" "wb_fulfill conf B e = (s', ev3, ret)"
    and m: "wb_msteps conf (idle s) [] (idle ?a)" "wb_msteps conf (idle ?a) (ev1 @ ev2) (e, [], [], B, None, [])"
  have sa: "wb_sound (idle ?a)" using sound_msteps [OF m(1) s] .
  have "fd_err s = (\<lambda>_. None)" using s by (simp add: wb_sound_def)
  then have "fd_err e = (\<lambda>_. None)" using fd_err_msteps [OF m(1)] fd_err_msteps [OF m(2)] by simp
  note fe = fulfill_loop_frames [OF p(5) [unfolded wb_fulfill_def] this]
  moreover have "todo s' = []" if f: "fulfill_frames s' = []"
  proof -
    have B: "B = []" "fulfill_frames e = []" using fe f by auto
    then have fa: "fulfill_frames ?a = []" using frames_msteps [OF m(2)] by simp
    then have fs: "fulfill_frames s = []" using frames_msteps [OF m(1)] by simp
    note q = quiet_preprocess [OF s t tw fs]
    have i: "wb_idle ?a" "wb_order ?a" "wb_flow (idle ?a)" using sa by (auto simp: wb_sound_def simp del: wb_flow.simps)
    have "\<forall>r \<in> set (todo ?a). (is_write ?a r \<longrightarrow> tempted (wb_reqs ?a r)) \<and> 0 \<le> rq_refcount (wb_reqs ?a r)"
      using i(3) inv_refcount [OF i(1)] inv_subset(1) [OF i(1)] by auto
    moreover have "\<forall>l \<in> set (liability ?a). l \<in> set (todo ?a) \<and> tempted (wb_reqs ?a l)"
      using quiet_lists(1) [OF sa fa] wb_invD(5) [OF i(1)] by auto
    ultimately have "B \<noteq> [] \<or> todo b = []"
      using pick_quiet [OF p(1) [unfolded wb_pick_winds_def] refl q(1)] q(2) wb_invD(2) [OF i(1)] i(2) by (simp add: wb_order_def)
    then have "todo b = []" using B by simp
    then have "todo c = []" using todo_pick_unwinds_loop [of "temptation b" b c L] p(2) by (simp add: wb_pick_unwinds_def)
    then have "todo d = []" using todo_do_unwinds [of L c] p(3) by simp
    then have "todo e = []" using todo_do_winds [of conf T d] p(4) by simp
    then show ?thesis using todo_fulfill_loop [of conf B None e] p(5) by (simp add: wb_fulfill_def)
  qed
  ultimately show ?thesis by blast
qed

lemma quiet_queue:
  assumes s: "wb_sound (idle s)" and t: "set (temptation s) \<subseteq> set (todo s)" and tw: "trickling_writes conf"
    and q: "wb_process_queue conf s = (s', ev)" "fulfill_frames s' = []"
  shows "todo s' = []"
proof -
  obtain s1 ev1 ret where o: "wb_process_once conf s = (s1, ev1, ret)" by (metis prod_cases3)
  then show ?thesis using quiet_once [OF s t tw o] q by (simp add: wb_process_queue.simps [of conf s])
qed


section \<open>Runs\<close>

lemma temptation_fold: "temptation s = [] \<Longrightarrow> temptation (fold wb_fulfill_request rs s) = []"
proof (induction rs arbitrary: s)
  case (Cons r rs)
  have "temptation (wb_fulfill_request r s) = []"
    using Cons.prems by (auto simp: fulfill_request_eq wb_request_unref_def wb_request_free_def fulfil_mark_def Let_def)
  then show ?case using Cons.IH by simp
qed simp

lemma sound_idle: "wb_sound (idle s) \<longleftrightarrow> wb_good s \<and> wb_flow (idle s) \<and> wb_accounted s \<and> wb_transit (idle s)"
  unfolding wb_sound_def wb_good_def wb_accounted_def fst_conv by blast

lemma sound_create:
  assumes s: "wb_sound (idle s)"
  shows "wb_sound (idle (wb_inode_create conf s))"
proof -
  have i: "wb_good s" "wb_idle s" "wb_flow (idle s)" "wb_accounted s" "wb_transit (idle s)"
    using s unfolding sound_idle wb_good_def by blast+
  have "wb_transit (idle (wb_inode_create conf s))"
    using i(5) wb_idle_empty [OF i(2)] by (cases "wb_present s") (simp_all add: wb_inode_create_def)
  then show ?thesis unfolding sound_idle
    using wb_good_create [OF i(1)] flow_create [OF i(2,3)] accounted_create [OF i(2,4)] by blast
qed

lemma sound_enqueue:
  assumes s: "wb_sound (idle s)" and w: "wb_present s" "temptation s = []"
    and c: "wb_plain conf (Call fop a)" "wb_enabled s1 (Call fop a)" "t \<longleftrightarrow> fop = GF_FOP_WRITE \<and> \<not> wb_disabled conf a"
  shows "wb_sound (idle (wb_enqueue_common s (a\<lparr>st_fop := fop\<rparr>) t))"
proof -
  let ?b = "wb_enqueue_common s (a\<lparr>st_fop := fop\<rparr>) t"
  have i: "wb_good s" "wb_idle s" "wb_order s" "wb_flow (idle s)" "wb_accounted s" "wb_transit (idle s)"
    using s unfolding sound_idle wb_good_def by blast+
  have n: "wb_next s \<notin> set (fulfill_frames s)"
    using wb_invD(1) [OF i(2)] by (auto simp: wb_acct_def cfg_refs_def flight_def)
  have "sum_ts ?b (fulfill_frames s) = sum_ts s (fulfill_frames s)"
    by (intro sum_list_other [OF n]) (simp add: enqueue_fields)
  then have "wb_transit (idle ?b)" using i(6) by (simp add: enqueue_fields(2-16))
  then show ?thesis unfolding sound_idle
    using wb_good_enqueue [OF i(1) w(1) c(2), of t] flow_enqueue [OF i(2,3,4) w(2) c] accounted_enqueue [OF i(2,5)] c(3) by blast
qed

lemma sound_reply:
  fixes ret e :: int
  assumes s: "wb_sound (idle s)" and h: "h \<in> set (fulfill_frames s)" and f: "fd_err (wb_replied h ret e s) = (\<lambda>_. None)"
  shows "wb_sound (wb_replied h ret e s, [], [], [], None, winds (wb_reqs s h) @ [h])"
proof -
  let ?a = "wb_replied h ret e s" and ?D = "winds (wb_reqs s h) @ [h]"
  have i: "wb_good s" "wb_idle s" "wb_flow (idle s)" "wb_accounted s" "wb_transit (idle s)"
    using s unfolding sound_idle wb_good_def by blast+
  have "wb_inv (?a, [], [], [], None, ?D)"
    using inv_reply [OF i(2) h] by (simp add: wb_replied_def Let_def inv_fulfill_err)
  moreover have "sum_ts s (winds (wb_reqs s h)) = 0" using i(4) h by (intro sum_list_0) (auto simp: wb_accounted_def)
  then have "wb_transit (?a, [], [], [], None, ?D)"
    using i(5) h by (simp add: replied_fields replied_reqs sum_list_remove1)
  ultimately show ?thesis unfolding wb_sound_def fst_conv
    using flow_reply [OF i(1,3) f] accounted_reply [OF i(2,4) h] by blast
qed

lemma sound_exec:
  assumes s: "wb_sound (idle s)" "temptation s = []" and tw: "trickling_writes conf" "fulfill_frames s = [] \<longrightarrow> todo s = []"
    and e: "wb_exec conf c s = (s', ev)" "wb_enabled s c" and c: "wb_plain conf c" and cl: "fd_err s' = (\<lambda>_. None)"
  shows "wb_sound (idle s') \<and> (fulfill_frames s' = [] \<longrightarrow> todo s' = [])"
proof -
  have i: "wb_idle s" "wb_flow (idle s)" using s(1) unfolding wb_sound_def by blast+
  have g: "wb_good s" "wb_flow (idle s)" "wb_accounted s" "wb_transit (idle s)" using s(1) unfolding sound_idle by blast+
  have rest: "wb_good s' \<and> wb_flow (idle s') \<and> wb_accounted s'"
    using wb_good_exec [OF g(1) e] flow_exec [OF g(1,2) s(2) e c cl] accounted_exec [OF i(1) g(3) e] by blast
  have pq: "wb_sound (idle s') \<and> (fulfill_frames s' = [] \<longrightarrow> todo s' = [])"
    if "wb_sound (idle a)" "set (temptation a) \<subseteq> set (todo a)" "wb_process_queue conf a = (s', ev')" for a ev'
    using sound_msteps [OF process_queue_steps [OF that(3) sound_idle_lists [OF that(1)]] that(1)]
      quiet_queue [OF that(1,2) tw(1) that(3)] by blast
  show ?thesis using e
  proof (cases rule: wb_exec_cases)
    case (queued fop a s0 t)
    have s0: "wb_sound (idle s0)" "temptation s0 = []"
      using queued(2) s sound_create [OF s(1)] by (simp_all) (simp add: wb_inode_create_def)
    have "wb_sound (idle (wb_enqueue_common s0 (a\<lparr>st_fop := fop\<rparr>) t))"
      using sound_enqueue [OF s0(1) queued(3) s0(2), of conf fop a s t] queued(1,4) e(2) c by simp
    then show ?thesis using pq [OF _ _ queued(5)] s0(2) by (simp add: enqueue_fields)
  next
    case (refused fop a e)
    then show ?thesis using i(2) by (auto simp: wb_fd_err_def split: bind_splits)
  next
    case (forwarded fop a)
    then show ?thesis using s tw by simp
  next
    case (fulfilled h ret errno)
    let ?D = "winds (wb_reqs s h) @ [h]"
    note r = replied_steps [OF i(1) fulfilled(2,3)]
    have "fd_err (wb_replied h ret errno s) = (\<lambda>_. None)" using fd_err_msteps [OF r(2)] cl by simp
    note sr = sound_reply [OF s(1) fulfilled(2) this]
    have "wb_head_done h (wb_replied h ret errno s) = fold wb_fulfill_request ?D (wb_replied h ret errno s)"
      by (simp add: wb_head_done_def replied_reqs)
    moreover have st: "wb_msteps conf (wb_replied h ret errno s, [], [], [], None, ?D) [] (idle (fold wb_fulfill_request ?D (wb_replied h ret errno s)))"
      using settle_steps [of conf _ "[]" "[]" "[]" None ?D "[]"] by simp
    moreover have "temptation (fold wb_fulfill_request ?D (wb_replied h ret errno s)) = []"
      by (rule temptation_fold) (use s(2) in \<open>simp add: replied_fields\<close>)
    ultimately show ?thesis using pq [OF sound_msteps [OF st sr]] fulfilled(3) by simp
  next
    case (written r ret errno ev0)
    then show ?thesis using i(2) by simp
  next
    case (resized z)
    then have "wb_transit (idle s')" "fulfill_frames s' = fulfill_frames s" "todo s' = todo s" using g(4) by simp_all
    then show ?thesis using rest tw(2) unfolding sound_idle by metis
  next
    case (released fd)
    then have "wb_transit (idle s')" "fulfill_frames s' = fulfill_frames s" "todo s' = todo s"
      using g(4) by (simp_all add: wb_release_def)
    then show ?thesis using rest tw(2) unfolding sound_idle by metis
  qed
qed


text \<open>A run in which the file is changed by buffered writes of one piece, every caller has been
  answered whenever a call ends, and no descriptor fails.\<close>

definition wb_plain_run :: "wb_conf \<Rightarrow> wb_call list \<Rightarrow> wb_event list \<Rightarrow> wb_state \<Rightarrow> bool" where
  "wb_plain_run conf cs ev s \<longleftrightarrow> wb_run conf (wb_plain conf) wb_clean wb_start cs ev s"

lemma sound_start: "wb_sound (idle wb_start)"
  unfolding sound_idle wb_good_def using wb_idle_start
  by (simp add: wb_start_def wb_order_def wb_ranges_def wb_accounted_def head_group_def flight_def)

lemma plain_run_view:
  assumes "wb_plain_run conf cs ev s"
  shows "wb_good s \<and> wb_flow (idle s) \<and> temptation s = [] \<and> view (idle s) (replay ev f) = intended cs f"
  using assms unfolding wb_plain_run_def
proof (induction rule: wb_run.induct)
  case wb_run_none
  then show ?case using sound_start unfolding sound_idle by (simp add: view_def wb_start_def head_group_def)
next
  case (wb_run_call cs ev s' c s'' ev')
  have "wb_flow (idle s'') \<and> view (idle s'') (replay ev' (replay ev f)) = intended [c] (view (idle s') (replay ev f))"
    using wb_run_call by (intro flow_exec) (auto simp: wb_clean_def)
  then show ?case using wb_run_call wb_good_exec by (auto simp: wb_clean_def simp del: wb_flow.simps)
qed

lemma plain_run_quiet:
  assumes "wb_plain_run conf cs ev s" "trickling_writes conf"
  shows "wb_sound (idle s) \<and> temptation s = [] \<and> (fulfill_frames s = [] \<longrightarrow> todo s = [])"
  using assms(1) unfolding wb_plain_run_def
proof (induction rule: wb_run.induct)
  case wb_run_none
  then show ?case using sound_start by (simp add: wb_start_def)
next
  case (wb_run_call cs ev s' c s'' ev')
  then show ?case using sound_exec [of s' conf c s'' ev'] assms(2) by (auto simp: wb_clean_def)
qed

end
