(* ===== verification/Write_Behind_Depend.thy ===== *)
theory Write_Behind_Depend
  imports Write_Behind_Order
begin

text \<open>
  Calls that depend on writes already acknowledged: a call that arrives while a lied write is
  not settled and has a byte in common with it stays in the list of things to do until the write
  is settled.
\<close>

section \<open>Dependent calls\<close>

definition call_bytes :: "wb_fop \<Rightarrow> call_stub \<Rightarrow> nat set" where
  "call_bytes fop a =
     (case fop of
        GF_FOP_WRITE \<Rightarrow> {unat (st_offset a) ..< unat (st_offset a) + iov_length (st_vector a)}
      | GF_FOP_READ \<Rightarrow> if st_size a = 0 then {unat (st_offset a) ..}
                       else {unat (st_offset a) ..< unat (st_offset a) + unat (st_size a)}
      | GF_FOP_TRUNCATE \<Rightarrow> {unat (st_offset a) ..}
      | GF_FOP_FTRUNCATE \<Rightarrow> {unat (st_offset a) ..}
      | _ \<Rightarrow> UNIV)"

definition ord_bytes :: "wb_request \<Rightarrow> nat set" where
  "ord_bytes q = {unat (ord_off q) .. unat (wb_last q)}"

lemma ord_bytes_refcount [simp]: "ord_bytes (q\<lparr>rq_refcount := k\<rparr>) = ord_bytes q"
  by (simp add: ord_bytes_def wb_last_def)

text \<open>Request \<open>r\<close> waits for the lied write \<open>l\<close> because of byte \<open>b\<close>.\<close>

fun waits_for :: "addr \<Rightarrow> addr \<Rightarrow> nat \<Rightarrow> wb_cfg \<Rightarrow> bool" where
  "waits_for l r b (s, T, L, B, G, D) \<longleftrightarrow>
     wb_ranges s \<and> l \<notin> set (temptation s) \<and> l < wb_next s \<and> r < wb_next s \<and>
     (l \<in> set (liability s) \<longrightarrow> r \<in> set (todo s) \<and> \<not> tempted (wb_reqs s r) \<and>
        rq_gen (wb_reqs s l) < rq_gen (wb_reqs s r) \<and> b \<in> wr_bytes (wb_reqs s l) \<and> b \<in> ord_bytes (wb_reqs s r))"

lemma waits_conflict:
  assumes "rng_ok (wb_reqs s l)" "b \<in> wr_bytes (wb_reqs s l)" "b \<in> ord_bytes (wb_reqs s r)"
    "rq_gen (wb_reqs s l) < rq_gen (wb_reqs s r)"
  shows "wb_requests_conflict conf s l r"
proof -
  have "unat (ord_off (wb_reqs s l)) \<le> unat (wb_last (wb_reqs s r))" "unat (ord_off (wb_reqs s r)) \<le> unat (wb_last (wb_reqs s l))"
    using rng_ok_bytes(2,3) [OF assms(1,2)] assms(3) by (auto simp: ord_bytes_def)
  then have "wb_requests_overlap (wb_reqs s l) (wb_reqs s r)"
    by (simp add: wb_requests_overlap_def word_le_nat_alt)
  then show ?thesis using assms(4) by (auto simp: wb_requests_conflict_def)
qed

text \<open>What a step must keep for the request to go on waiting.\<close>

lemma waits_keep:
  assumes w: "waits_for l r b (s, T, L, B, G, D)" and g: "wb_ranges s'"
    and f: "set (temptation s') \<subseteq> set (temptation s)" "wb_next s' = wb_next s"
      "l \<in> set (liability s') \<Longrightarrow> l \<in> set (liability s)" "l \<in> set (liability s) \<Longrightarrow> r \<in> set (todo s) \<Longrightarrow> r \<in> set (todo s')"
    and q: "tempted (wb_reqs s' r) = tempted (wb_reqs s r)" "rq_gen (wb_reqs s' l) = rq_gen (wb_reqs s l)"
      "rq_gen (wb_reqs s' r) = rq_gen (wb_reqs s r)" "wr_bytes (wb_reqs s l) \<subseteq> wr_bytes (wb_reqs s' l)"
      "\<not> tempted (wb_reqs s r) \<Longrightarrow> ord_bytes (wb_reqs s' r) = ord_bytes (wb_reqs s r)"
  shows "waits_for l r b (s', T', L', B', G', D')"
  using assms by auto

lemma waits_unref:
  assumes x: "wb_extra p (a, T, L, B, G, D)" and w: "waits_for l r b (a, T', L', B', G', D')"
  shows "waits_for l r b (wb_request_unref p a, T, L, B, G, D)"
proof (rule waits_keep [OF w])
  note u = extra_lists [OF x]
  show "wb_ranges (wb_request_unref p a)" using w ranges_unref by simp
  show "set (temptation (wb_request_unref p a)) \<subseteq> set (temptation a)"
    "l \<in> set (liability a) \<Longrightarrow> r \<in> set (todo a) \<Longrightarrow> r \<in> set (todo (wb_request_unref p a))"
    using u(1) by (simp_all add: only_lists_def)
  show "l \<in> set (liability (wb_request_unref p a)) \<Longrightarrow> l \<in> set (liability a)" using u(2) by simp
qed (auto simp: unref_reqs wr_bytes_def ord_bytes_def wb_last_def)

lemma waits_mstep:
  "wb_mstep conf c ev c' \<Longrightarrow> wb_inv c \<Longrightarrow> waits_for l r b c \<Longrightarrow> waits_for l r b c'"
proof (induction rule: wb_mstep.induct)
  case (m_go p s T L B G D)
  show ?case by (rule waits_keep [OF m_go(4)], insert m_go ranges_mstep [OF wb_mstep.m_go [OF m_go(1,2), of conf T L B G D]])
    (auto simp: set_go_def reqs_upd_rq wr_bytes_def ord_bytes_def wb_last_def)
next
  case (m_collapse s xs h ys p zs T L B G D)
  have rg: "wb_ranges ((wb_collapse_small_writes h p s)\<lparr>todo := xs @ h # ys @ zs\<rparr>)"
    using ranges_mstep [OF wb_mstep.m_collapse [OF m_collapse(1-6), of T L B G D] m_collapse(7)] m_collapse(8) by simp
  have "wr_bytes (wb_reqs s l) \<subseteq> wr_bytes (wb_reqs (wb_collapse_small_writes h p s) l)"
    using collapse_fields(1) [of l h p s] collapse_fields(3,4) [of h p s] by (cases "l = h") (auto simp: wr_bytes_def)
  moreover have "\<not> tempted (wb_reqs s r) \<Longrightarrow> wb_reqs (wb_collapse_small_writes h p s) r = wb_reqs s r"
    using collapse_fields(1) [of r h p s] m_collapse(4) by auto
  moreover have "\<not> tempted (wb_reqs s r) \<Longrightarrow> r \<in> set (todo s) \<Longrightarrow> r \<in> set (xs @ h # ys @ zs)"
    using m_collapse(1,5) by auto
  moreover have "l \<in> set (liability s) \<Longrightarrow> \<not> tempted (wb_reqs s r)" using m_collapse(8) by simp
  ultimately show ?case
    by (intro waits_keep [OF m_collapse(8) rg])
      (auto simp: collapse_fields, auto simp: wb_collapse_small_writes_def Let_def)
next
  case (m_settle s T L B G p D)
  have "waits_for l r b (fulfil_mark p s, T, L, B, G, p # D)"
    by (rule waits_keep [OF m_settle(2)], insert m_settle(2))
      (auto simp: fulfil_mark_def reqs_upd_rq wr_bytes_def ord_bytes_def wb_last_def wb_ranges_def rng_ok_def)
  from waits_unref [OF settle_extra [OF m_settle(1)] this] show ?case by (simp add: fulfill_request_eq)
next
  case (m_task p s T L B G D)
  have p: "l \<in> set (liability s) \<Longrightarrow> r \<noteq> p"
  proof
    assume l: "l \<in> set (liability s)" "r = p"
    have "is_write s l" "l \<in> set (wb_all s)"
      using wb_invD(5) [OF m_task(4)] inv_subset(4) [OF m_task(4)] l(1) by auto
    then have "wb_requests_conflict conf s l p" using m_task(5) l by (intro waits_conflict [of s l b]) (auto simp: wb_ranges_def)
    then show False using m_task(2) l by (auto simp: pickable_def wb_liability_has_conflict_def list_ex_iff)
  qed
  have rc: "0 \<le> rq_refcount (wb_reqs s p)" using inv_refcount [OF m_task(4)] inv_subset(1) [OF m_task(4)] m_task(1) by blast
  note f = picked_fields [OF rc]
  have rg: "wb_ranges (picked p s)" using ranges_mstep [OF wb_mstep.m_task [OF m_task(1-3), of T L B G D] m_task(4)] m_task(5) by simp
  show ?case by (rule waits_keep [OF m_task(5) rg]) (use p in \<open>auto simp: f wr_bytes_def ord_bytes_def wb_last_def\<close>)
next
  case (m_liab p s T L B G D)
  have rc: "0 \<le> rq_refcount (wb_reqs s p)" using inv_refcount [OF m_liab(4)] inv_subset(1) [OF m_liab(4)] m_liab(1) by blast
  note f = picked_fields [OF rc]
  have rg: "wb_ranges (picked p s)" using ranges_mstep [OF wb_mstep.m_liab [OF m_liab(1-3), of T L B G D] m_liab(4)] m_liab(5) by simp
  have "l \<in> set (liability s) \<Longrightarrow> r \<noteq> p" using m_liab(3,5) by auto
  then show ?case by (intro waits_keep [OF m_liab(5) rg]) (auto simp: f wr_bytes_def ord_bytes_def wb_last_def)
next
  case (m_lie p s T L B G D)
  have rg: "wb_ranges (lie_to p s)" using ranges_mstep [OF wb_mstep.m_lie [OF m_lie(1,2), of conf T L B G D] m_lie(3)] m_lie(4) by simp
  show ?case by (rule waits_keep [OF m_lie(4) rg], insert m_lie(1,4))
    (auto simp: lie_fields wr_bytes_def ord_bytes_def wb_last_def dest: set_remove1_subset [THEN subsetD] split: if_splits)
next
  case (m_unwind s T p L B G D)
  then show ?case using waits_unref [OF unwind_extra] by blast
next
  case (m_wind p s s' ev T L B G D)
  have "waits_for l r b (s', T, L, B, G, D)"
    by (rule waits_keep [OF m_wind(3)], insert m_wind(1,3))
      (auto simp: call_resume_def Let_def wb_ranges_def split: wb_fop.splits)
  from waits_unref [OF wind_extra [OF m_wind(2,1)] this] show ?case .
next
  case (m_head s T L p B D)
  then show ?case by simp
next
  case (m_join s p h T L B D)
  show ?case by (rule waits_keep [OF m_join(5)], insert m_join(5))
    (auto simp: reqs_upd_rq wr_bytes_def ord_bytes_def wb_last_def wb_ranges_def rng_ok_def)
next
  case (m_send s h T L B D)
  show ?case by (rule waits_keep [OF m_send(3)], insert m_send(3))
    (auto simp: head_sent_def head_loaded_def Let_def reqs_upd_rq wr_bytes_def ord_bytes_def wb_last_def wb_ranges_def rng_ok_def)
next
  case (m_drop s h T L B D)
  show ?case by (rule waits_keep [OF m_drop(3)], insert m_drop(3))
    (auto simp: head_loaded_def Let_def reqs_upd_rq wr_bytes_def ord_bytes_def wb_last_def wb_ranges_def rng_ok_def)
qed


lemma waits_exec:
  assumes i: "wb_idle s" "waits_for l r b (idle s)" and e: "wb_exec conf c s = (s', ev)" "wb_enabled s c"
  shows "waits_for l r b (idle s')"
proof (rule exec_invariant [where I = "waits_for l r b", OF i e])
  show "waits_for l r b (idle (wb_inode_create conf s))"
    using i by (auto simp: wb_inode_create_def wb_ranges_def)
next
  fix fop a t s assume a: "c = Call fop a" "wb_idle s" "waits_for l r b (idle s)"
  then show "waits_for l r b (idle (wb_enqueue_common s (a\<lparr>st_fop := fop\<rparr>) t))"
    using e(2) ranges_enqueue [of s] by (auto simp: enqueue_fields)
next
  fix h ret errno
  show "waits_for l r b (wb_replied h ret errno s, [], [], [], None, winds (wb_reqs s h) @ [h])"
    using i(2) by (auto simp: replied_fields replied_reqs wr_bytes_def ord_bytes_def wb_last_def wb_ranges_def rng_ok_def)
next
  fix p assume p: "p \<in> set (writev_frames s)"
  have "waits_for l r b (idle (s\<lparr>writev_frames := remove1 p (writev_frames s)\<rparr>))" using i(2) by (simp add: wb_ranges_def)
  from waits_unref [OF written_extra [OF i(1) p] this]
  show "waits_for l r b (idle (wb_request_unref p (s\<lparr>writev_frames := remove1 p (writev_frames s)\<rparr>)))" .
next
  fix z show "waits_for l r b (idle (s\<lparr>wb_size := z\<rparr>))" "waits_for l r b (idle (wb_release z' s))" for z'
    using i(2) by (simp_all add: wb_ranges_def wb_release_def)
qed (rule waits_mstep)

lemma new_ord_bytes:
  assumes "b \<in> call_bytes fop a" "wb_enabled s (Call fop a)" "unat (st_offset a) + unat (st_size a) \<le> 2 ^ 64" "b < 2 ^ 64"
  shows "b \<in> ord_bytes (wb_new_request s0 (a\<lparr>st_fop := fop\<rparr>) t)"
proof (cases "fop = GF_FOP_WRITE")
  case True
  let ?q = "wb_new_request s0 (a\<lparr>st_fop := fop\<rparr>) t"
  have "rng_ok ?q" using assms(2) True by (intro rng_ok_new) (simp_all add: wb_enabled_def)
  moreover have "b \<in> wr_bytes ?q" using assms(1) True
    by (simp add: call_bytes_def wr_bytes_def wb_new_request_def Let_def)
  ultimately show ?thesis using rng_ok_bytes(2,3) by (auto simp: ord_bytes_def)
next
  case False
  have m: "b \<le> unat (ULLONG_MAX)" using assms(4) by (simp add: unsigned_minus_1_eq_mask mask_eq_exp_minus_1)
  have "unat (st_offset a + st_size a - 1) = unat (st_offset a) + unat (st_size a) - 1" if "st_size a \<noteq> 0"
  proof -
    have u: "unat (st_size a - 1) = unat (st_size a) - 1" "0 < unat (st_size a)"
      using that by (simp_all add: unat_minus_one word_gt_0 unat_gt_0)
    then have "unat (st_offset a) + unat (st_size a - 1) < 2 ^ 64" using assms(3) by simp
    then have "unat (st_offset a + (st_size a - 1)) = unat (st_offset a) + unat (st_size a - 1)"
      by (subst unat_add_lem [THEN iffD1]) simp_all
    then show ?thesis using u by (simp add: add_diff_eq)
  qed
  then show ?thesis using assms(1) False m
    by (cases fop) (auto simp: call_bytes_def ord_bytes_def wb_last_def wb_new_request_def wb_ordering_def Let_def split: if_splits)
qed

lemma waits_arrival:
  assumes g: "wb_good s" "l \<in> set (liability s)" and e: "wb_enabled s (Call fop a)" "wb_exec conf (Call fop a) s = (s1, ev)"
    and f: "fop = GF_FOP_WRITE \<longrightarrow> wb_disabled conf a" "wb_fd_err s (st_fd a) = None" "unat (st_offset a) + unat (st_size a) \<le> 2 ^ 64"
    and b: "b \<in> call_bytes fop a" "b \<in> wr_bytes (wb_reqs s l)"
  shows "waits_for l (wb_next s) b (idle s1)"
proof -
  have i: "wb_idle s" "wb_order s" "wb_ranges s" using g(1) by (auto simp: wb_good_def)
  have la: "l \<in> set (wb_all s)" using inv_subset(4) [OF i(1)] g(2) by auto
  then have p: "wb_present s" using wb_invD(4) [OF i(1)] by auto
  let ?stub = "a\<lparr>st_fop := fop\<rparr>" and ?r = "wb_next s"
  let ?a = "wb_enqueue_common s ?stub False"
  have q: "wb_process_queue conf ?a = (s1, ev)"
    using e(2) f p by (cases fop) (auto simp: wb_exec_def wb_writev_def wb_readv_def wb_flush_def wb_fsync_def wb_stat_def
        wb_fstat_def wb_truncate_def wb_ftruncate_def wb_setattr_def wb_fsetattr_def wb_queue_def wb_enqueue_def
        wb_inode_create_def Let_def split: option.splits)
  have ia: "wb_idle ?a" using wb_idle_enqueue [OF i(1) p] by simp
  have ln: "l < ?r" "is_write s l" "l \<notin> set (temptation s)"
    using wb_invD(1) [OF i(1)] wb_invD(4,5) [OF i(1)] la g(2) by (auto simp: wb_acct_def)
  then have "unat (rq_offset (wb_reqs s l)) + write_size (wb_reqs s l) \<le> 2 ^ 63"
    using i(3) la by (auto simp: wb_ranges_def rng_ok_def)
  then have b64: "b < 2 ^ 64" using b(2) by (simp add: wr_bytes_def)
  have rg: "wb_ranges ?a" by (rule ranges_enqueue [OF i(3) e(1)])
  have "b \<in> ord_bytes (wb_reqs ?a ?r)"
    using new_ord_bytes [OF b(1) e(1) f(3) b64, of s False] by (simp add: enqueue_fields)
  then have "waits_for l ?r b (idle ?a)"
    using rg ln g(2) i(2) b(2) by (auto simp: enqueue_fields wb_order_def)
  from process_invariant [where I = "waits_for l ?r b", OF ia this _ waits_mstep] show ?thesis using q by simp
qed

lemma waits_run:
  assumes "wb_run conf C P s cs ev s'" "wb_idle s" "waits_for l r b (idle s)"
  shows "waits_for l r b (idle s')"
  using wb_run_invariant [OF assms(1), of "\<lambda>s. wb_idle s \<and> waits_for l r b (idle s)"] assms(2,3)
    wb_idle_exec waits_exec by blast

end
