(* ===== verification/Write_Behind_Props.thy ===== *)
theory Write_Behind_Props
  imports Write_Behind_Quiet Write_Behind_Depend
begin

text \<open>
  The properties of the write-behind translator, with traces on which they are applied, and
  traces that show where the translator does not keep what it is meant to.
\<close>

section \<open>Traces\<close>

text \<open>A sequence of calls executed from a state, each one allowed by \<open>K\<close>.\<close>

fun wb_trace :: "wb_conf \<Rightarrow> (wb_call \<Rightarrow> wb_state \<Rightarrow> wb_state \<Rightarrow> bool) \<Rightarrow> wb_call list \<Rightarrow> wb_state \<Rightarrow>
    (wb_event list \<times> wb_state) option" where
  "wb_trace conf K [] s = Some ([], s)"
| "wb_trace conf K (c # cs) s =
     (if wb_enabled s c
      then case wb_exec conf c s of
             (s', ev) \<Rightarrow>
               if K c s s'
               then case wb_trace conf K cs s' of None \<Rightarrow> None | Some (ev', s'') \<Rightarrow> Some (ev @ ev', s'')
               else None
      else None)"

lemma wb_run_cons:
  "wb_run conf C P s' cs ev s'' \<Longrightarrow> C c \<Longrightarrow> wb_enabled s c \<Longrightarrow> wb_exec conf c s = (s', ev0) \<Longrightarrow> P s' \<Longrightarrow>
     wb_run conf C P s (c # cs) (ev0 @ ev) s''"
proof (induction rule: wb_run.induct)
  case wb_run_none
  show ?case using wb_run.wb_run_call [OF wb_run.wb_run_none [of conf C P s] wb_run_none(1-4)] by simp
next
  case (wb_run_call cs ev s1 c1 s2 ev')
  have "wb_run conf C P s (c # cs) (ev0 @ ev) s1" using wb_run_call by blast
  from wb_run.wb_run_call [OF this wb_run_call(2-5)] show ?case by simp
qed

lemma wb_trace_run:
  assumes "wb_trace conf K cs s = Some (ev, s')" "I s"
    "\<And>c s s' ev. I s \<Longrightarrow> wb_enabled s c \<Longrightarrow> wb_exec conf c s = (s', ev) \<Longrightarrow> K c s s' \<Longrightarrow> C c \<and> P s' \<and> I s'"
  shows "wb_run conf C P s cs ev s'"
  using assms(1,2)
proof (induction cs arbitrary: s ev)
  case Nil
  then show ?case by (auto intro: wb_run_none)
next
  case (Cons c cs)
  obtain s1 ev1 where e: "wb_exec conf c s = (s1, ev1)" by (metis prod.exhaust)
  then obtain ev2 where t: "wb_enabled s c" "K c s s1" "wb_trace conf K cs s1 = Some (ev2, s')" "ev = ev1 @ ev2"
    using Cons.prems(1) by (auto split: if_splits option.splits)
  have k: "C c" "P s1" "I s1" using assms(3) [OF Cons.prems(2) t(1) e t(2)] by auto
  show ?case using wb_run_cons [OF Cons.IH [OF t(3) k(3)] k(1) t(1) e k(2)] t(4) by simp
qed

lemma wb_trace_reachable: "wb_trace conf (\<lambda>_ _ _. True) cs wb_start = Some (ev, s) \<Longrightarrow> wb_run conf wb_any wb_any wb_start cs ev s"
  by (rule wb_trace_run [where I = wb_any]) auto

text \<open>Steps of a plain run: the child takes every write whole.\<close>

definition plain_step :: "wb_conf \<Rightarrow> wb_call \<Rightarrow> wb_state \<Rightarrow> wb_state \<Rightarrow> bool" where
  "plain_step conf c s s' \<longleftrightarrow> wb_plain conf c \<and> temptation s' = [] \<and>
     (case c of Fulfill_cbk h ret e \<Rightarrow> ret \<noteq> -1 \<and> int (total_size (wb_reqs s h)) \<le> ret mod 2 ^ 64 | _ \<Rightarrow> True)"

lemma fd_err_exec:
  assumes i: "wb_idle s" "fd_err s = (\<lambda>_. None)" and e: "wb_exec conf c s = (s', ev)" "wb_enabled s c"
    and c: "case c of Fulfill_cbk h ret e \<Rightarrow> ret \<noteq> -1 \<and> int (total_size (wb_reqs s h)) \<le> ret mod 2 ^ 64 | _ \<Rightarrow> True"
  shows "fd_err s' = (\<lambda>_. None)"
proof -
  have "fd_err (fst (idle s')) = (\<lambda>_. None)"
  proof (rule exec_invariant [where I = "\<lambda>c. fd_err (fst c) = (\<lambda>_. None)", OF i(1) _ e])
    fix h ret errno assume "c = Fulfill_cbk h ret errno"
    then show "fd_err (fst (wb_replied h ret errno s, [], [], [], None, winds (wb_reqs s h) @ [h])) = (\<lambda>_. None)"
      using c i(2) by (simp add: wb_replied_def Let_def)
  qed (use i(2) in \<open>auto simp: fd_err_mstep wb_inode_create_def enqueue_fields wb_release_def\<close>)
  then show ?thesis by simp
qed

lemma plain_trace: "wb_trace conf (plain_step conf) cs wb_start = Some (ev, s) \<Longrightarrow> wb_plain_run conf cs ev s"
  unfolding wb_plain_run_def
proof (erule wb_trace_run [where I = "\<lambda>s. wb_idle s \<and> fd_err s = (\<lambda>_. None)"])
  show "wb_idle wb_start \<and> fd_err wb_start = (\<lambda>_. None)" using wb_idle_start by (simp add: wb_start_def)
next
  fix c s s' ev
  assume a: "wb_idle s \<and> fd_err s = (\<lambda>_. None)" "wb_enabled s c" "wb_exec conf c s = (s', ev)" "plain_step conf c s s'"
  then have "fd_err s' = (\<lambda>_. None)" using fd_err_exec [of s conf c s' ev] by (simp add: plain_step_def)
  then show "wb_plain conf c \<and> wb_clean s' \<and> wb_idle s' \<and> fd_err s' = (\<lambda>_. None)"
    using a wb_idle_exec by (auto simp: plain_step_def wb_clean_def)
qed

definition wb_sample_conf :: "nat \<Rightarrow> wb_conf" where
  "wb_sample_conf window = \<lparr>aggregate_size = 64, window_size = window, flush_behind = False, trickling_writes = True,
     strict_write_ordering = False, strict_O_DIRECT = False, page_size = 32\<rparr>"

definition wb_sample_stub :: "addr \<Rightarrow> u64 \<Rightarrow> 8 word list \<Rightarrow> call_stub" where
  "wb_sample_stub frame off d = \<lparr>st_fop = GF_FOP_STAT, st_frame = frame, st_owner = [], st_fd = Some 7,
     st_fd_flags = 0, st_flags = 0, st_vector = [\<lparr>iov_base = d, iov_len = length d\<rparr>], st_offset = off, st_size = 4\<rparr>"

abbreviation sample_write :: "addr \<Rightarrow> u64 \<Rightarrow> 8 word list \<Rightarrow> wb_call" where
  "sample_write frame off d \<equiv> Call GF_FOP_WRITE (wb_sample_stub frame off d)"

abbreviation sample_read :: "addr \<Rightarrow> u64 \<Rightarrow> wb_call" where
  "sample_read frame off \<equiv> Call GF_FOP_READ (wb_sample_stub frame off [])"

text \<open>The definitions that evaluate a trace.\<close>

lemmas wb_eval = wb_sample_conf_def wb_sample_stub_def wb_start_def wb_blank_def wb_enabled_def wb_exec_def wb_writev_def
  wb_readv_def wb_fsync_def wb_truncate_def wb_queue_def wb_inode_create_def wb_disabled_def wb_fulfill_cbk_def wb_writev_cbk_def
  wb_truncate_cbk_def wb_set_inode_size_def wb_enqueue_def wb_enqueue_tempted_def wb_enqueue_common_def wb_new_request_def
  wb_ordering_def wb_new_size_def wb_request_ref_def wb_request_unref_def wb_request_free_def wb_fulfill_request_def
  wb_head_done_def wb_fulfill_err_def wb_fd_err_def wb_fulfill_head_def wb_fulfill_def wb_pick_unwinds_def
  wb_collapse_small_writes_def set_go_def wb_preprocess_winds_def wb_pick_winds_def wb_flush_helper_def call_resume_def
  wb_process_once_def wb_process_queue.simps wb_liability_has_conflict_def wb_wip_has_conflict_def wb_requests_conflict_def
  wb_requests_overlap_def wb_last_def iov_length_def iov_unload_def upd_rq_def list_add_tail_def Let_def

section \<open>What reaches the child\<close>

text \<open>Two writes that touch, one that overlaps the first, a read, and the replies.\<close>

abbreviation sample_calls :: "wb_call list" where
  "sample_calls \<equiv> [sample_write 3 4 [1, 2, 3], sample_write 4 7 [4], sample_write 5 5 [9], sample_read 6 4,
     Fulfill_cbk 1 3 0]"

lemma sample_trace_waiting:
  "case wb_trace (wb_sample_conf 40) (plain_step (wb_sample_conf 40)) sample_calls wb_start of
     Some (ev, s) \<Rightarrow> todo s = [4] \<and> \<not> is_write s 4 \<and> flight s = [2, 3] \<and>
       rq_offset (wb_reqs s 2) = 7 \<and> rq_offset (wb_reqs s 3) = 5 | None \<Rightarrow> False"
  by (simp add: wb_eval plain_step_def wb_plain_def flight_def)

lemma sample_trace_any:
  "case wb_trace (wb_sample_conf 40) (\<lambda>_ _ _. True) sample_calls wb_start of
     Some (ev, s) \<Rightarrow> flight s = [2, 3] | None \<Rightarrow> False"
  by (simp add: wb_eval flight_def)

lemma sample_trace_done:
  "case wb_trace (wb_sample_conf 40) (plain_step (wb_sample_conf 40)) (sample_calls @ [Fulfill_cbk 2 1 0, Fulfill_cbk 3 1 0]) wb_start of
     Some (ev, s) \<Rightarrow> fulfill_frames s = [] | None \<Rightarrow> False"
  by (simp add: wb_eval plain_step_def wb_plain_def)

lemma put_all_other:
  "\<forall>r \<in> set rs. rq_ok (wb_reqs s r) \<and> b \<notin> wr_bytes (wb_reqs s r) \<Longrightarrow> put_all s rs f b = f b"
  by (induction rs arbitrary: f) (auto simp: put_def wr_bytes_def rq_ok_data)

text \<open>C1: nothing that callers have written is lost or misplaced: in a run of buffered writes of
  one piece, with reads and other calls but no truncations between them, with trickling-writes on,
  in which every caller is answered by the end of a call and no write fails, the child holds exactly the bytes the callers wrote, in the order
  in which they wrote them, as soon as it has answered the writes it was sent.\<close>

theorem buffered_writes_reach_child:
  assumes "wb_plain_run conf cs ev s" "trickling_writes conf" "fulfill_frames s = []"
  shows "replay ev f = intended cs f \<and> todo s = [] \<and> \<not> overrun s"
proof -
  have t: "todo s = []" using plain_run_quiet [OF assms(1,2)] assms(3) by blast
  have v: "wb_flow (idle s)" "view (idle s) (replay ev f) = intended cs f" using plain_run_view [OF assms(1)] by blast+
  then show ?thesis using t by (simp add: view_def head_group_def)
qed

theorem buffered_writes_reach_child_witness:
  "case wb_trace (wb_sample_conf 40) (plain_step (wb_sample_conf 40)) (sample_calls @ [Fulfill_cbk 2 1 0, Fulfill_cbk 3 1 0]) wb_start of
     Some (ev, s) \<Rightarrow> (\<forall>f. replay ev f = intended (sample_calls @ [Fulfill_cbk 2 1 0, Fulfill_cbk 3 1 0]) f) \<and> todo s = []
   | None \<Rightarrow> False"
proof -
  obtain ev s where t: "wb_trace (wb_sample_conf 40) (plain_step (wb_sample_conf 40))
      (sample_calls @ [Fulfill_cbk 2 1 0, Fulfill_cbk 3 1 0]) wb_start = Some (ev, s)" and f: "fulfill_frames s = []"
    using sample_trace_done by (auto split: option.splits)
  have tw: "trickling_writes (wb_sample_conf 40)" by (simp add: wb_sample_conf_def)
  show ?thesis unfolding t using buffered_writes_reach_child [OF plain_trace [OF t] tw f] by simp
qed

text \<open>C10: at any moment of such a run the child differs from what the callers wrote only in the
  bytes of writes that are still in the list of things to do.\<close>

theorem child_lacks_only_waiting_bytes:
  assumes "wb_plain_run conf cs ev s" "\<forall>r \<in> set (todo s). is_write s r \<longrightarrow> b \<notin> wr_bytes (wb_reqs s r)"
  shows "replay ev f b = intended cs f b"
proof -
  have v: "wb_good s" "wb_flow (idle s)" "view (idle s) (replay ev f) = intended cs f" using plain_run_view [OF assms(1)] by blast+
  have "wb_idle s" using v(1) by (simp add: wb_good_def)
  then have "\<forall>r \<in> set (pending (idle s)). rq_ok (wb_reqs s r) \<and> b \<notin> wr_bytes (wb_reqs s r)"
    using v(2) assms(2) inv_todo_write by (auto simp: head_group_def)
  from put_all_other [OF this] show ?thesis unfolding v(3) [symmetric] by (simp add: view_def)
qed

theorem child_lacks_only_waiting_bytes_witness:
  "case wb_trace (wb_sample_conf 40) (plain_step (wb_sample_conf 40)) sample_calls wb_start of
     Some (ev, s) \<Rightarrow> todo s = [4] \<and> (\<forall>f. replay ev f 5 = intended sample_calls f 5) | None \<Rightarrow> False"
proof -
  obtain ev s where t: "wb_trace (wb_sample_conf 40) (plain_step (wb_sample_conf 40)) sample_calls wb_start = Some (ev, s)"
    and f: "todo s = [4]" "\<not> is_write s 4"
    using sample_trace_waiting by (auto split: option.splits)
  show ?thesis unfolding t using child_lacks_only_waiting_bytes [OF plain_trace [OF t], of 5] f by simp
qed

text \<open>C9: no call is stuck: in such a run, whenever a call waits in the list of things to do, a
  write is with the child, whose reply makes the translator look at the list again.\<close>

theorem waiting_calls_progress:
  assumes "wb_plain_run conf cs ev s" "trickling_writes conf" "todo s \<noteq> []"
  shows "fulfill_frames s \<noteq> []"
  using plain_run_quiet [OF assms(1,2)] assms(3) by blast

theorem waiting_calls_progress_witness:
  "case wb_trace (wb_sample_conf 40) (plain_step (wb_sample_conf 40)) sample_calls wb_start of
     Some (ev, s) \<Rightarrow> todo s \<noteq> [] \<and> fulfill_frames s \<noteq> [] | None \<Rightarrow> False"
proof -
  obtain ev s where t: "wb_trace (wb_sample_conf 40) (plain_step (wb_sample_conf 40)) sample_calls wb_start = Some (ev, s)"
    and f: "todo s \<noteq> []"
    using sample_trace_waiting by (auto split: option.splits)
  have tw: "trickling_writes (wb_sample_conf 40)" by (simp add: wb_sample_conf_def)
  show ?thesis unfolding t using waiting_calls_progress [OF plain_trace [OF t] tw f] f by simp
qed

section \<open>Order\<close>

text \<open>C8: in every reachable state the writes that are with the child have no byte in common, so
  that the order in which it performs them does not matter.\<close>

theorem writes_with_child_disjoint:
  assumes "wb_reachable conf C P s" "x \<in> set (flight s @ writev_frames s)" "y \<in> set (flight s @ writev_frames s)" "x \<noteq> y"
  shows "wr_bytes (wb_reqs s x) \<inter> wr_bytes (wb_reqs s y) = {}"
proof -
  have g: "wb_idle s" "wb_order s" "wb_ranges s" using wb_good_reachable [OF assms(1)] by (auto simp: wb_good_def)
  have w: "x \<in> set (wip s)" "y \<in> set (wip s)" using wb_invD(4) [OF g(1)] assms(2,3) by auto
  then have "\<not> wb_requests_overlap (wb_reqs s x) (wb_reqs s y)" using g(2) assms(4) by (auto simp: wb_order_def)
  then show ?thesis using no_overlap_bytes inv_writes(2) [OF g(1,3)] w by blast
qed

theorem writes_with_child_disjoint_witness:
  "case wb_trace (wb_sample_conf 40) (\<lambda>_ _ _. True) sample_calls wb_start of
     Some (ev, s) \<Rightarrow> flight s = [2, 3] \<and> wr_bytes (wb_reqs s 2) \<inter> wr_bytes (wb_reqs s 3) = {} | None \<Rightarrow> False"
proof -
  obtain ev s where t: "wb_trace (wb_sample_conf 40) (\<lambda>_ _ _. True) sample_calls wb_start = Some (ev, s)"
    and f: "flight s = [2, 3]"
    using sample_trace_any by (auto split: option.splits)
  have "wb_reachable (wb_sample_conf 40) wb_any wb_any s" using wb_trace_reachable [OF t] by (auto simp: wb_reachable_def)
  from writes_with_child_disjoint [OF this, of 2 3] show ?thesis unfolding t using f by simp
qed

text \<open>C4: a call that depends on an acknowledged write waits for it: when a call other than a
  buffered write arrives and reads, writes or otherwise concerns a byte of a write that was
  acknowledged and is not settled, it stays in the list of things to do as long as that write is
  not settled, whatever calls and replies come in between.\<close>

theorem dependent_call_waits:
  assumes "wb_reachable conf C P s" "l \<in> set (liability s)" "b \<in> wr_bytes (wb_reqs s l)" "b \<in> call_bytes fop a"
    and "fop = GF_FOP_WRITE \<longrightarrow> wb_disabled conf a" "wb_fd_err s (st_fd a) = None" "unat (st_offset a) + unat (st_size a) \<le> 2 ^ 64"
    and "wb_enabled s (Call fop a)" "wb_exec conf (Call fop a) s = (s1, ev)" "wb_run conf C' P' s1 cs ev' s2"
    and "l \<in> set (liability s2)"
  shows "wb_next s \<in> set (todo s2)"
proof -
  have g: "wb_good s" by (rule wb_good_reachable [OF assms(1)])
  have "wb_good s1" by (rule wb_good_exec [OF g assms(9,8)])
  then have "waits_for l (wb_next s) b (idle s2)"
    using waits_run [OF assms(10)] waits_arrival [OF g assms(2,8,9,5-7,4,3)] unfolding wb_good_def by blast
  then show ?thesis using assms(11) by simp
qed

text \<open>A read of an acknowledged write, and a reply to another write after it.\<close>

lemma sample_trace_dependent:
  "case wb_trace (wb_sample_conf 40) (\<lambda>_ _ _. True) [sample_write 3 4 [1, 2, 3], sample_write 4 20 [4]] wb_start of
     Some (ev, s) \<Rightarrow> 1 \<in> set (liability s) \<and> wr_bytes (wb_reqs s 1) = {4 ..< 7} \<and> wb_next s = 3 \<and> fd_err s 7 = None \<and>
       (case wb_exec (wb_sample_conf 40) (sample_read 6 5) s of (s1, ev1) \<Rightarrow>
          case wb_trace (wb_sample_conf 40) (\<lambda>_ _ _. True) [sample_write 7 30 [8]] s1 of
            Some (ev2, s2) \<Rightarrow> 1 \<in> set (liability s2) | None \<Rightarrow> False) | None \<Rightarrow> False"
  by (simp add: wb_eval wr_bytes_def)

theorem dependent_call_waits_witness:
  "\<exists>s s1 ev s2 ev'. wb_reachable (wb_sample_conf 40) wb_any wb_any s \<and> 1 \<in> set (liability s) \<and>
     wb_exec (wb_sample_conf 40) (sample_read 6 5) s = (s1, ev) \<and>
     wb_run (wb_sample_conf 40) wb_any wb_any s1 [sample_write 7 30 [8]] ev' s2 \<and> 1 \<in> set (liability s2) \<and>
     wb_next s \<in> set (todo s2)"
proof -
  obtain ev0 s where t: "wb_trace (wb_sample_conf 40) (\<lambda>_ _ _. True) [sample_write 3 4 [1, 2, 3], sample_write 4 20 [4]] wb_start =
      Some (ev0, s)" and l: "1 \<in> set (liability s)" "wr_bytes (wb_reqs s 1) = {4 ..< 7}" "fd_err s 7 = None"
    and r: "case wb_exec (wb_sample_conf 40) (sample_read 6 5) s of (s1, ev1) \<Rightarrow>
          case wb_trace (wb_sample_conf 40) (\<lambda>_ _ _. True) [sample_write 7 30 [8]] s1 of
            Some (ev2, s2) \<Rightarrow> 1 \<in> set (liability s2) | None \<Rightarrow> False"
    using sample_trace_dependent by (auto split: option.splits simp del: wb_trace.simps)
  obtain s1 ev where e: "wb_exec (wb_sample_conf 40) (sample_read 6 5) s = (s1, ev)" by (metis prod.exhaust)
  with r obtain ev' s2 where t2: "wb_trace (wb_sample_conf 40) (\<lambda>_ _ _. True) [sample_write 7 30 [8]] s1 = Some (ev', s2)"
    and l2: "1 \<in> set (liability s2)" by (auto split: option.splits simp del: wb_trace.simps)
  have run: "wb_run (wb_sample_conf 40) wb_any wb_any s1 [sample_write 7 30 [8]] ev' s2"
    by (rule wb_trace_run [OF t2, where I = wb_any]) auto
  have reach: "wb_reachable (wb_sample_conf 40) wb_any wb_any s" using wb_trace_reachable [OF t] by (auto simp: wb_reachable_def)
  have "wb_next s \<in> set (todo s2)"
    by (rule dependent_call_waits [OF reach l(1), of 5 GF_FOP_READ "wb_sample_stub 6 5 []", OF _ _ _ _ _ _ e run l2])
      (use l in \<open>simp_all add: call_bytes_def wb_sample_stub_def wb_fd_err_def wb_enabled_def\<close>)
  then show ?thesis using reach l(1) e run l2 by blast
qed

section \<open>Accounts\<close>

text \<open>C11: every call is answered exactly once: in every run the frames that came in are those
  that still wait, for an answer, in the list of things to do or for a synchronous write to come
  back, together with those answered or forwarded for good, each as often as it came in.\<close>

theorem calls_answered_once:
  assumes "wb_run conf C P wb_start cs ev s"
  shows "sum_list (map arriving cs) = waiting (idle s) + answered ev"
  using assms
proof (induction rule: wb_run.induct)
  case wb_run_none
  show ?case by (simp add: wb_start_def)
next
  case (wb_run_call cs ev s' c s'' ev')
  have "wb_idle s'" using wb_run_idle [OF wb_run_call(1) wb_idle_start] .
  from waiting_exec [OF this wb_run_call(4,3)] show ?case using wb_run_call(6) by (simp add: ac_simps del: waiting.simps)
qed

theorem calls_answered_once_witness:
  "case wb_trace (wb_sample_conf 40) (\<lambda>_ _ _. True) sample_calls wb_start of
     Some (ev, s) \<Rightarrow> {#6, 5, 4, 3#} = waiting (idle s) + answered ev | None \<Rightarrow> False"
proof -
  obtain ev s where t: "wb_trace (wb_sample_conf 40) (\<lambda>_ _ _. True) sample_calls wb_start = Some (ev, s)"
    using sample_trace_any by (auto split: option.splits simp del: wb_trace.simps)
  show ?thesis unfolding t using calls_answered_once [OF wb_trace_reachable [OF t]]
    by (simp add: arriving_def wb_sample_stub_def del: waiting.simps)
qed

text \<open>C38: no request is freed while it is held, and none is leaked: in every reachable state the
  objects are exactly those that are waiting or with the child or not yet answered, each with one
  reference for every such place; when nothing of this is left the inode holds nothing at all.\<close>

theorem requests_counted:
  assumes "wb_reachable conf C P s"
  shows "set (wb_all s) = set (todo s @ flight s @ temptation s @ writev_frames s) \<and>
    (\<forall>r \<in> set (wb_all s). rq_refcount (wb_reqs s r) = int (count (mset (todo s @ flight s @ temptation s @ writev_frames s)) r)) \<and>
    (todo s @ flight s @ temptation s @ writev_frames s = [] \<longrightarrow> wb_all s = [] \<and> liability s = [] \<and> wip s = [] \<and> window_current s = 0)"
proof -
  have i: "wb_idle s" by (rule wb_reachable_idle [OF assms])
  have r: "cfg_refs (idle s) = mset (todo s @ flight s @ temptation s @ writev_frames s)"
    by (simp add: cfg_refs_def head_group_def ac_simps)
  have a: "set (wb_all s) = set (todo s @ flight s @ temptation s @ writev_frames s)"
    "\<forall>x \<in> set (wb_all s). rq_refcount (wb_reqs s x) = int (count (mset (todo s @ flight s @ temptation s @ writev_frames s)) x)"
    using wb_invD(1) [OF i] unfolding r wb_acct_def by auto
  moreover have "window_current s = 0" if "todo s = []" "flight s = []" "temptation s = []"
    using accounted_reachable [OF assms] that by (simp add: wb_accounted_def head_group_def)
  ultimately show ?thesis using inv_subset(3,4) [OF i] by auto
qed

theorem requests_counted_witness:
  "case wb_trace (wb_sample_conf 40) (\<lambda>_ _ _. True) sample_calls wb_start of
     Some (ev, s) \<Rightarrow> set (wb_all s) = set (todo s @ flight s @ temptation s @ writev_frames s) | None \<Rightarrow> False"
proof -
  obtain ev s where t: "wb_trace (wb_sample_conf 40) (\<lambda>_ _ _. True) sample_calls wb_start = Some (ev, s)"
    using sample_trace_any by (auto split: option.splits simp del: wb_trace.simps)
  have "wb_reachable (wb_sample_conf 40) wb_any wb_any s" using wb_trace_reachable [OF t] by (auto simp: wb_reachable_def)
  from requests_counted [OF this] show ?thesis unfolding t by simp
qed

text \<open>C39: the window is exact: in every reachable state it is the number of bytes of the buffered
  writes that are waiting or with the child, without those whose callers have not been answered.
  Collapsing, joining, failing and retrying writes neither lose nor count a byte twice.\<close>

theorem window_exact:
  assumes "wb_reachable conf C P s"
  shows "window_current s =
    (\<Sum>r \<leftarrow> filter (\<lambda>r. tempted (wb_reqs s r)) (todo s) @ flight s. int (write_size (wb_reqs s r))) -
    (\<Sum>r \<leftarrow> temptation s. int (orig_size (wb_reqs s r)))"
  using accounted_reachable [OF assms] by (simp add: wb_accounted_def head_group_def)

theorem window_exact_witness:
  "case wb_trace (wb_sample_conf 40) (\<lambda>_ _ _. True) sample_calls wb_start of
     Some (ev, s) \<Rightarrow> flight s = [2, 3] \<and> window_current s =
       (\<Sum>r \<leftarrow> filter (\<lambda>r. tempted (wb_reqs s r)) (todo s) @ flight s. int (write_size (wb_reqs s r))) -
       (\<Sum>r \<leftarrow> temptation s. int (orig_size (wb_reqs s r))) | None \<Rightarrow> False"
proof -
  obtain ev s where t: "wb_trace (wb_sample_conf 40) (\<lambda>_ _ _. True) sample_calls wb_start = Some (ev, s)" and f: "flight s = [2, 3]"
    using sample_trace_any by (auto split: option.splits simp del: wb_trace.simps)
  have "wb_reachable (wb_sample_conf 40) wb_any wb_any s" using wb_trace_reachable [OF t] by (auto simp: wb_reachable_def)
  from window_exact [OF this] show ?thesis unfolding t using f by simp
qed

section \<open>Errors\<close>

lemma fd_err_kept:
  assumes i: "wb_idle s" "fd_err s d \<noteq> None" and e: "wb_exec conf c s = (s', ev)" "wb_enabled s c" and c: "c \<noteq> Release d"
  shows "fd_err s' d \<noteq> None"
proof -
  have "fd_err (fst (idle s')) d \<noteq> None"
  proof (rule exec_invariant [where I = "\<lambda>c. fd_err (fst c) d \<noteq> None", OF i(1) _ e])
    fix h ret errno
    show "fd_err (fst (wb_replied h ret errno s, [], [], [], None, winds (wb_reqs s h) @ [h])) d \<noteq> None"
      using i(2) by (auto simp: wb_replied_def Let_def fulfill_err_eq split: option.splits)
  qed (use i(2) c in \<open>auto simp: fd_err_mstep wb_inode_create_def enqueue_fields wb_release_def\<close>)
  then show ?thesis by simp
qed

text \<open>C40: a write that fails after it was acknowledged is reported: when the child fails a write or
  takes it only in part, then every later write, sync and truncation on the same descriptor is
  answered with an error at once and changes nothing, until the descriptor is released.\<close>

theorem lost_write_reported:
  assumes "wb_reachable conf C P s" "wb_enabled s (Fulfill_cbk h ret errno)" "rq_fd (wb_reqs s h) = Some d"
    and "ret = -1 \<or> 0 \<le> ret \<and> ret < int (total_size (wb_reqs s h))"
    and "wb_exec conf (Fulfill_cbk h ret errno) s = (s1, ev1)" "wb_run conf (\<lambda>c. c \<noteq> Release d) P' s1 cs ev2 s2"
    and "fop \<in> {GF_FOP_WRITE, GF_FOP_FSYNC, GF_FOP_FTRUNCATE}" "st_fd a = Some d" "wb_exec conf (Call fop a) s2 = (s3, ev3)"
  shows "\<exists>e. ev3 = [Unwind fop (st_frame a) (-1) e] \<and> (wb_present s2 \<longrightarrow> s3 = s2)"
proof -
  have i: "wb_idle s" by (rule wb_reachable_idle [OF assms(1)])
  have i1: "wb_idle s1" by (rule wb_idle_exec [OF i assms(5,2)])
  have h: "h \<in> set (fulfill_frames s)" using assms(2) by (simp add: wb_enabled_def)
  have q: "wb_process_queue conf (wb_head_done h (wb_replied h ret errno s)) = (s1, ev1)"
    using assms(5) by (simp add: wb_exec_def wb_fulfill_cbk_def wb_replied_def Let_def)
  have "ret mod 2 ^ 64 \<le> ret" if "0 \<le> ret" using that by (rule zmod_le_nonneg_dividend)
  then have "ret = -1 \<or> ret mod 2 ^ 64 < int (total_size (wb_reqs s h))" using assms(4) by linarith
  then have "fd_err (wb_replied h ret errno s) d \<noteq> None"
    using assms(3) by (auto simp: wb_replied_def Let_def fulfill_err_eq)
  then have "fd_err s1 d \<noteq> None" using fd_err_msteps [OF replied_steps(2) [OF i h q]] by simp
  then have "fd_err s2 d \<noteq> None"
    using wb_run_invariant [OF assms(6), of "\<lambda>s. wb_idle s \<and> fd_err s d \<noteq> None"] i1 wb_idle_exec fd_err_kept by blast
  moreover have "fd_err (wb_inode_create conf s2) = fd_err s2" "wb_present s2 \<Longrightarrow> wb_inode_create conf s2 = s2"
    by (simp_all add: wb_inode_create_def)
  ultimately show ?thesis using assms(7-9)
    by (auto simp: wb_exec_def wb_writev_def wb_fsync_def wb_ftruncate_def wb_fd_err_def Let_def)
qed

text \<open>A write that fails with error 28, a stat, and another write.\<close>

lemma sample_trace_failed:
  "case wb_trace (wb_sample_conf 40) (\<lambda>_ _ _. True) [sample_write 3 4 [1, 2, 3]] wb_start of
     Some (ev, s) \<Rightarrow> fulfill_frames s = [1] \<and> rq_fd (wb_reqs s 1) = Some 7 \<and>
       (case wb_exec (wb_sample_conf 40) (Fulfill_cbk 1 (-1) 28) s of (s1, ev1) \<Rightarrow>
          case wb_trace (wb_sample_conf 40) (\<lambda>c _ _. c \<noteq> Release 7) [sample_read 5 4] s1 of Some (ev2, s2) \<Rightarrow> True | None \<Rightarrow> False)
   | None \<Rightarrow> False"
  by (simp add: wb_eval)

theorem lost_write_reported_witness:
  "\<exists>s s1 ev1 ev2 s2 e. wb_reachable (wb_sample_conf 40) wb_any wb_any s \<and>
     wb_exec (wb_sample_conf 40) (Fulfill_cbk 1 (-1) 28) s = (s1, ev1) \<and>
     wb_run (wb_sample_conf 40) (\<lambda>c. c \<noteq> Release 7) wb_any s1 [sample_read 5 4] ev2 s2 \<and>
     snd (wb_exec (wb_sample_conf 40) (sample_write 6 4 [1]) s2) = [Unwind GF_FOP_WRITE 6 (-1) e]"
proof -
  obtain ev0 s where t: "wb_trace (wb_sample_conf 40) (\<lambda>_ _ _. True) [sample_write 3 4 [1, 2, 3]] wb_start = Some (ev0, s)"
    and l: "fulfill_frames s = [1]" "rq_fd (wb_reqs s 1) = Some 7"
    and r: "case wb_exec (wb_sample_conf 40) (Fulfill_cbk 1 (-1) 28) s of (s1, ev1) \<Rightarrow>
      case wb_trace (wb_sample_conf 40) (\<lambda>c _ _. c \<noteq> Release 7) [sample_read 5 4] s1 of Some (ev2, s2) \<Rightarrow> True | None \<Rightarrow> False"
    using sample_trace_failed by (auto split: option.splits simp del: wb_trace.simps)
  obtain s1 ev1 where e: "wb_exec (wb_sample_conf 40) (Fulfill_cbk 1 (-1) 28) s = (s1, ev1)" by (metis prod.exhaust)
  with r obtain ev2 s2 where t2: "wb_trace (wb_sample_conf 40) (\<lambda>c _ _. c \<noteq> Release 7) [sample_read 5 4] s1 = Some (ev2, s2)"
    by (auto split: option.splits simp del: wb_trace.simps)
  have run: "wb_run (wb_sample_conf 40) (\<lambda>c. c \<noteq> Release 7) wb_any s1 [sample_read 5 4] ev2 s2"
    by (rule wb_trace_run [OF t2, where I = wb_any]) auto
  have reach: "wb_reachable (wb_sample_conf 40) wb_any wb_any s" using wb_trace_reachable [OF t] by (auto simp: wb_reachable_def)
  obtain s3 ev3 where e3: "wb_exec (wb_sample_conf 40) (sample_write 6 4 [1]) s2 = (s3, ev3)" by (metis prod.exhaust)
  have "\<exists>n. ev3 = [Unwind GF_FOP_WRITE (st_frame (wb_sample_stub 6 4 [1])) (- 1) n] \<and> (wb_present s2 \<longrightarrow> s3 = s2)"
    by (rule lost_write_reported [OF reach _ l(2) _ e run _ _ e3])
      (use l(1) in \<open>simp_all add: wb_enabled_def wb_sample_stub_def\<close>)
  then obtain n where "ev3 = [Unwind GF_FOP_WRITE 6 (- 1) n]" by (auto simp: wb_sample_stub_def)
  then have "snd (wb_exec (wb_sample_conf 40) (sample_write 6 4 [1]) s2) = [Unwind GF_FOP_WRITE 6 (- 1) n]" using e3 by simp
  then show ?thesis using reach e run by blast
qed

section \<open>Where the translator fails\<close>

text \<open>A write that is collapsed into one whose caller has not been answered is acknowledged but not
  among the liabilities: a later read of its bytes is forwarded while the write still waits.\<close>

theorem acknowledged_write_unread:
  "case wb_trace (wb_sample_conf 3) (\<lambda>_ _ _. True)
      [sample_write 101 0 [1, 1, 1, 1], sample_write 102 100 [2, 2], sample_write 103 102 [3], sample_read 104 102] wb_start of
     Some (ev, s) \<Rightarrow> Unwind GF_FOP_WRITE 103 1 0 \<in> set ev \<and> Wind ((wb_sample_stub 104 102 [])\<lparr>st_fop := GF_FOP_READ\<rparr>) \<in> set ev \<and>
       todo s = [2] \<and> rq_offset (wb_reqs s 2) = 100 \<and> write_size (wb_reqs s 2) = 3
   | None \<Rightarrow> False"
  by (simp add: wb_eval)

text \<open>A write collapsed into an older one of the same generation overtakes an acknowledged write
  between them: the child ends with the older byte.\<close>

abbreviation overtaking_calls :: "wb_call list" where
  "overtaking_calls \<equiv> [Call GF_FOP_TRUNCATE (wb_sample_stub 100 1000 []), Truncate_cbk 100 0 0 1000,
     sample_write 101 10 [1, 1], sample_write 102 100 [2, 2], sample_write 103 8 [3, 3, 3], sample_write 104 6 [4, 4],
     Fulfill_cbk 3 2 0, sample_write 105 8 [5], sample_read 106 5, Fulfill_cbk 5 3 0, Fulfill_cbk 2 2 0, Fulfill_cbk 4 3 0]"

theorem acknowledged_write_overtaken:
  "case wb_trace (wb_sample_conf 3) (\<lambda>_ _ _. True) overtaking_calls wb_start of
     Some (ev, s) \<Rightarrow> Unwind GF_FOP_WRITE 103 3 0 \<in> set ev \<and> Unwind GF_FOP_WRITE 105 1 0 \<in> set ev \<and> todo s = [] \<and>
       replay ev (\<lambda>_. 0) 8 = 3 \<and> intended overtaking_calls (\<lambda>_. 0) 8 = 5
   | None \<Rightarrow> False"
  by (simp add: wb_eval put_def)

text \<open>A write blocked by one that is fulfilled and not yet answered stays in the list although
  nothing is with the child: the list is not looked at again after the answer.\<close>

theorem fulfilled_write_blocks:
  "case wb_trace (wb_sample_conf 3) (\<lambda>_ _ _. True)
      [Call GF_FOP_TRUNCATE (wb_sample_stub 100 1000 []), Truncate_cbk 100 0 0 1000,
       sample_write 101 98 [1, 1], sample_write 102 95 [2, 2, 2, 2, 2],
       Call GF_FOP_WRITE ((wb_sample_stub 103 100 [3, 3])\<lparr>st_owner := [1]\<rparr>), sample_write 104 200 [4], sample_write 105 100 [5],
       Fulfill_cbk 2 2 0, Fulfill_cbk 5 1 0, Fulfill_cbk 4 2 0] wb_start of
     Some (ev, s) \<Rightarrow> todo s = [3] \<and> lied (wb_reqs s 3) \<and> fulfill_frames s = [] \<and> writev_frames s = []
   | None \<Rightarrow> False"
  by (simp add: wb_eval)

text \<open>Collapsing a write into one of several pieces keeps the length of the first piece only, and
  the bytes behind it are not sent.\<close>

abbreviation pieces_calls :: "wb_call list" where
  "pieces_calls \<equiv> [sample_write 3 50 [9],
     Call GF_FOP_WRITE ((wb_sample_stub 4 4 [])\<lparr>st_vector := [\<lparr>iov_base = [1], iov_len = 1\<rparr>, \<lparr>iov_base = [2], iov_len = 1\<rparr>]\<rparr>),
     sample_write 5 6 [3], Fulfill_cbk 1 1 0]"

theorem collapsed_pieces_cut:
  "case wb_trace (wb_sample_conf 40) (\<lambda>_ _ _. True) pieces_calls wb_start of
     Some (ev, s) \<Rightarrow> todo s = [] \<and> total_size (wb_reqs s 2) = 3 \<and>
       replay ev (\<lambda>_. 0) 6 = 0 \<and> intended pieces_calls (\<lambda>_. 0) 6 = 3
   | None \<Rightarrow> False"
  by (simp add: wb_eval put_def)

text \<open>The pieces of the head are not counted: nine pieces are loaded into a vector of eight.\<close>

theorem vector_overrun:
  "case wb_trace ((wb_sample_conf 40)\<lparr>page_size := 2\<rparr>) (\<lambda>_ _ _. True)
      [sample_write 3 0 [9, 9, 9, 9, 9, 9, 9, 9, 9],
       Call GF_FOP_WRITE ((wb_sample_stub 4 0 [])\<lparr>st_vector := [\<lparr>iov_base = [1], iov_len = 1\<rparr>, \<lparr>iov_base = [1], iov_len = 1\<rparr>,
         \<lparr>iov_base = [1], iov_len = 1\<rparr>, \<lparr>iov_base = [1], iov_len = 1\<rparr>, \<lparr>iov_base = [1], iov_len = 1\<rparr>,
         \<lparr>iov_base = [1], iov_len = 1\<rparr>, \<lparr>iov_base = [1], iov_len = 1\<rparr>, \<lparr>iov_base = [1], iov_len = 1\<rparr>]\<rparr>),
       sample_write 5 8 [3], Fulfill_cbk 1 9 0] wb_start of
     Some (ev, s) \<Rightarrow> overrun s | None \<Rightarrow> False"
  by (simp add: wb_eval)

text \<open>A write dropped because its descriptor has failed is taken off the bytes in transit without
  having been added to them, and a later write on another descriptor is held back with nothing
  with the child.\<close>

theorem transit_negative:
  "case wb_trace (wb_sample_conf 40) (\<lambda>_ _ _. True)
      [sample_write 3 4 [1, 2], sample_write 4 10 [3], Fulfill_cbk 1 (- 1) 28,
       Call GF_FOP_WRITE ((wb_sample_stub 5 20 [4])\<lparr>st_fd := Some 8\<rparr>)] wb_start of
     Some (ev, s) \<Rightarrow> transit s = -1 \<and> Unwind GF_FOP_WRITE 5 1 0 \<in> set ev \<and> todo s = [3] \<and> fulfill_frames s = []
   | None \<Rightarrow> False"
  by (simp add: wb_eval)

text \<open>With strict-write-ordering a buffered write is collapsed into one that arrived before a
  synchronous write: its byte is sent while the earlier synchronous write still waits.\<close>

theorem strict_ordering_overtaken:
  "case wb_trace ((wb_sample_conf 40)\<lparr>strict_write_ordering := True\<rparr>) (\<lambda>_ _ _. True)
      [sample_write 3 50 [9], sample_write 4 4 [1], Call GF_FOP_WRITE ((wb_sample_stub 5 100 [7])\<lparr>st_flags := O_SYNC\<rparr>),
       sample_write 6 5 [2], Fulfill_cbk 1 1 0] wb_start of
     Some (ev, s) \<Rightarrow> todo s = [3] \<and> rq_offset (wb_reqs s 3) = 100 \<and> Unwind GF_FOP_WRITE 6 1 0 \<in> set ev \<and>
       fulfill_frames s = [2] \<and> replay ev (\<lambda>_. 0) 5 = 2 \<and> replay ev (\<lambda>_. 0) 100 = 0
   | None \<Rightarrow> False"
  by (simp add: wb_eval put_def)

end
