(* ===== verification/Spec2Isabelle.thy ===== *)
theory Spec2Isabelle
  imports Locks_Posix_Props Locks_Domain_Props DHT_Selfheal_Props DHT_Overlap_Props DHT_Hash_Props Posix_Acl_Props Write_Behind_Props
begin

text \<open>
  Verification of GlusterFS translators.

  A GlusterFS volume is a stack of translators. A call (read, write, lock, set attribute) enters
  a translator on a frame. The translator answers it (unwind) or passes it to the translator below
  (wind), and gets the reply in a callback. This development models four translators, function by
  function from their C sources, and proves what each promises to the ones above it. They meet in
  a stack as follows. Distribute picks the subvolume that has a file from the hash of its name;
  write-behind answers writes before they are performed; on each brick access control decides
  who may do what, and the locks translator keeps the locks of all clients apart. They share no
  state: what they have in common are the frames, the identity of the caller and the file
  attributes, which are in \<open>GF_Prelude\<close> and \<open>Iatt\<close>.

  \<^bold>\<open>How C is represented.\<close> A struct is a record, an enum a datatype, and a fixed-width integer a word
  where its width matters to a branch or a result, otherwise \<open>int\<close> or \<open>nat\<close>. An intrusive list
  (list.h) is a HOL list. Objects that are shared and counted are named by addresses, which are
  the numbers of their allocations. A function with effects takes the state and returns it
  with the list of what it winds and unwinds. A region under a lock is a single step. Undefined
  behaviour (an access past an array, a division by zero) is \<open>None\<close>. Allocation succeeds.

  \<^bold>\<open>Shared theories.\<close> \<open>GF_Prelude\<close>: machine types, errno values, list idioms, caller identity.
  \<open>Iatt\<close>: libglusterfs/src/iatt.h, with the round trip of types and permissions through modes.
  \<open>Wait_Queue\<close>: the contract of a list of held locks with a queue of waiting ones, as the locales
  \<open>wait_queue\<close> and \<open>counted_queue\<close>, interpreted by both kinds of domain locks.

  \<^bold>\<open>Locks\<close> (xlators/features/locks/src).
  \<^item> \<open>Locks_Types\<close>: the data of locks.h.
  \<^item> \<open>Locks_Posix\<close>: record locks (common.c, posix.c). \<open>Locks_Posix_Merge\<close> shows that
    insert_and_merge returns and what it does to the types an owner holds on each byte.
    \<open>Locks_Posix_Grant\<close> adds granting, pl_setlk, flush and release. \<open>Locks_Posix_Props\<close> has the
    properties of every reachable list: no two owners hold conflicting locks, each waiter overlaps
    a conflicting lock that is held, every frame is answered once, and queries tell the truth.
  \<^item> \<open>Locks_Inodelk\<close> and \<open>Locks_Entrylk\<close>: inode and entry locks (inodelk.c, entrylk.c), with the
    interpretations of the queue contract in \<open>Locks_Inodelk_Props\<close> and \<open>Locks_Entrylk_Props\<close>.
    \<open>Locks_Domain_Props\<close> has exclusion, waiters with a reason, reference counts and replies.

  \<^bold>\<open>Distribute\<close> (xlators/cluster/dht/src, libglusterfs/src/hashfn.c).
  \<^item> \<open>DHT_Hash\<close>: the hashes of names. \<open>DHT_Hash_Props\<close> proves the Davies-Meyer hash equal to a
    reference definition.
  \<^item> \<open>DHT_Layout\<close>: layouts (dht-layout.c). \<open>DHT_Layout_Props\<close> shows that an accepted layout covers
    every hash value, that a search in it succeeds, and that its disk form can be read back.
  \<^item> \<open>DHT_Selfheal\<close>: assigning and storing ranges (dht-selfheal.c). \<open>DHT_Selfheal_Props\<close> shows
    that a new directory gets a partition of the hash space, \<open>DHT_Overlap_Props\<close> that fixing a
    layout does not reduce what stays in place and that a heal finishes once.

  \<^bold>\<open>Access control\<close> (xlators/system/posix-acl/src).
  \<^item> \<open>Posix_Acl\<close>: ACL objects, inode contexts, the permission check and inheritance.
    \<open>Posix_Acl_Fops\<close>: every operation of the table and its callback.
  \<^item> \<open>Posix_Acl_Check\<close> compares the check with that of POSIX.1e and proves the round trip of the
    extended attribute; \<open>Posix_Acl_Mode\<close> relates ACLs and modes; \<open>Posix_Acl_Refs\<close> counts the
    references; \<open>Posix_Acl_Effects\<close> gives the states after setting and inheriting an ACL;
    \<open>Posix_Acl_Props\<close> has the properties.

  \<^bold>\<open>Write-behind\<close> (xlators/performance/write-behind/src/write-behind.c), one inode.
  \<^item> \<open>Write_Behind\<close>: wb_inode_t with its requests as \<open>wb_state\<close>, conflicts, references, collapsing,
    picking, lying, sending and wb_process_queue. \<open>Write_Behind_Fops\<close>: the calls, the callbacks,
    init and reconfigure, and the runs they make (\<open>wb_run\<close>).
  \<^item> \<open>Write_Behind_Steps\<close> cuts wb_process_queue into small steps on a configuration of the state and
    the function's local lists, and \<open>Write_Behind_Calls\<close> does the same for the calls. Each
    invariant is shown once per small step: references and list membership
    (\<open>Write_Behind_Refs\<close>), generations and disjoint writes (\<open>Write_Behind_Order\<close>), calls
    that depend on acknowledged writes (\<open>Write_Behind_Depend\<close>), answers and window
    (\<open>Write_Behind_Account\<close>), contents (\<open>Write_Behind_Content\<close>), progress (\<open>Write_Behind_Quiet\<close>).
  \<^item> \<open>Write_Behind_Props\<close> has the properties, and traces on which the translator fails: an
    acknowledged write that a read does not see, one that is overtaken, one that is stuck, bytes
    cut off by a collapse, an overrun vector, a negative count of bytes in transit, and a
    synchronous write overtaken under strict-write-ordering.

  \<^bold>\<open>Scope of the write-behind theorems.\<close> Disjointness of the writes with the child, waiting of
  dependent calls, single answers, reference counts, the window and the reporting of lost writes
  hold for every run. That the child ends with what the callers wrote, and that nothing is stuck,
  holds for runs of buffered writes of one piece without appending, truncation or failure in which
  every caller is answered by the end of a call; progress also needs trickling-writes. The traces
  above show that runs with a full window, or with writes of several pieces, can go wrong.

  \<^bold>\<open>Bounds.\<close> A write ends at or below 2^63 (\<open>wb_enabled\<close>), as \<open>off_t\<close> is signed. Generations and
  the counts of bytes are unbounded. Merging of record locks and the loop of wb_process_queue are
  total or partial functions to \<open>option\<close> that are shown to return; no fuel is used. Hashes read
  words as a little-endian machine with signed \<open>char\<close>.

  \<^bold>\<open>Parameters.\<close> regexec, which the name munging of distribute calls, is an argument of the
  definitions that use it.

  \<^bold>\<open>Not modelled.\<close> Interleaving inside a call: a call or callback runs whole before the next one.
  Failures of allocation, logging, tracing and state dumps. In the locks translator the
  dispatch of pl_lk, the enumeration F_GETLK_FD, the clear command, and the reserve locks, whose code
  has no defined behaviour (a lookup that fails returns the list head as a lock). In
  distribute the creation of missing directories, the file operations and rebalance, which are
  chains of calls decided by the replies of the subvolumes. Replication, erasure coding, striping,
  quota and the caching translators other than write-behind are not taken up. Storage,
  protocol, management, mount points and the RPC library are input and output, and the
  dictionaries, inode tables and event loop of libglusterfs appear only through what the modelled
  translators use of them.
\<close>

end
